theory Spec2Isabelle
  imports Main "HOL-Library.Sublist"
begin

section \<open>The program: \<open>src/trie.py\<close>\<close>

text \<open>
  A prefix tree that maps keys, sequences of symbols, to values.  The definitions of this section
  follow \<open>src/trie.py\<close> function by function; line numbers refer to that file.
\<close>

text \<open>
  The only exception the class raises by itself is \<open>KeyError\<close> (\<open>__getitem__\<close>, \<open>remove\<close>).
  A call that can raise returns the error as a value.
\<close>

datatype error = KeyError

text \<open>
  \<open>_Node.value\<close> is either the private object \<open>self._sentinel\<close>, compared by identity
  (\<open>is\<close>), or a value stored by the caller.  No caller can get hold of the sentinel, so the two
  are the two constructors of a datatype.
\<close>

datatype 'v slot = Sentinel | Stored 'v

text \<open>
  \<open>class _Node\<close> (lines 7--10).  Nodes are mutable objects that the trees reach by reference, so
  they live in a store: a list of nodes, a reference being an index and a new node being appended.
  \<open>children\<close> is a \<open>dict\<close>; its order of insertion matters (\<open>update\<close> and \<open>_count_subtree\<close>
  iterate over it), so it is an association list with the newest key last.
\<close>

record ('c, 'v) node =
  children :: "('c \<times> nat) list"
  nvalue :: "'v slot"

type_synonym ('c, 'v) heap = "('c, 'v) node list"

text \<open>
  The fields of \<open>Trie\<close> (lines 57--60): \<open>_alphabet\<close>, \<open>_root\<close> (a reference into the store)
  and \<open>_count\<close> (a Python \<open>int\<close>, unbounded).  The sentinel is the constructor
  \<^const>\<open>Sentinel\<close>.
\<close>

record 'c trie =
  t_alphabet :: "'c list"
  t_root :: nat
  t_count :: int

text \<open>
  \<open>_Node({}, self._sentinel)\<close> and \<open>Trie.__init__\<close> (lines 49--60), which allocates the root.
\<close>

definition new_node :: "('c, 'v) node" where
  "new_node = \<lparr>children = [], nvalue = Sentinel\<rparr>"

definition Trie :: "('c, 'v) heap \<Rightarrow> 'c list \<Rightarrow> ('c, 'v) heap \<times> 'c trie" where
  "Trie h alphabet =
     (h @ [new_node], \<lparr>t_alphabet = alphabet, t_root = length h, t_count = 0\<rparr>)"

text \<open>
  \<open>__len__\<close> (lines 62--64).
\<close>

definition len :: "'c trie \<Rightarrow> int" where
  "len t = t_count t"

text \<open>
  \<open>_get_node\<close> (lines 363--370): the walk from a node along the key, \<open>None\<close> when a symbol has
  no child.
\<close>

fun get_node_from :: "('c, 'v) heap \<Rightarrow> nat \<Rightarrow> 'c list \<Rightarrow> nat option" where
  "get_node_from h node [] = Some node"
| "get_node_from h node (character # key) =
     (case map_of (children (h ! node)) character of
        None \<Rightarrow> None
      | Some child \<Rightarrow> get_node_from h child key)"

definition get_node :: "('c, 'v) heap \<Rightarrow> 'c trie \<Rightarrow> 'c list \<Rightarrow> nat option" where
  "get_node h t key = get_node_from h (t_root t) key"

text \<open>
  \<open>__contains__\<close>, \<open>__getitem__\<close> and \<open>get\<close> (lines 111--128).
\<close>

definition contains :: "('c, 'v) heap \<Rightarrow> 'c trie \<Rightarrow> 'c list \<Rightarrow> bool" where
  "contains h t key =
     (case get_node h t key of
        None \<Rightarrow> False
      | Some node \<Rightarrow> nvalue (h ! node) \<noteq> Sentinel)"

definition getitem :: "('c, 'v) heap \<Rightarrow> 'c trie \<Rightarrow> 'c list \<Rightarrow> error + 'v" where
  "getitem h t key =
     (case get_node h t key of
        None \<Rightarrow> Inl KeyError
      | Some node \<Rightarrow>
          (case nvalue (h ! node) of
             Sentinel \<Rightarrow> Inl KeyError
           | Stored v \<Rightarrow> Inr v))"

definition get :: "('c, 'v) heap \<Rightarrow> 'c trie \<Rightarrow> 'c list \<Rightarrow> 'v \<Rightarrow> 'v" where
  "get h t key dflt =
     (case get_node h t key of
        None \<Rightarrow> dflt
      | Some node \<Rightarrow>
          (case nvalue (h ! node) of
             Sentinel \<Rightarrow> dflt
           | Stored v \<Rightarrow> v))"

text \<open>
  \<open>insert\<close> (lines 195--205).  The loop creates the missing nodes of the path; a new node gets
  the next free reference \<open>length h\<close> and is entered last in the \<open>children\<close> of its parent.
\<close>

fun insert_walk :: "('c, 'v) heap \<Rightarrow> nat \<Rightarrow> 'c list \<Rightarrow> ('c, 'v) heap \<times> nat" where
  "insert_walk h node [] = (h, node)"
| "insert_walk h node (character # key) =
     (case map_of (children (h ! node)) character of
        None \<Rightarrow>
          insert_walk
            (h[node := (h ! node)\<lparr>children := children (h ! node) @ [(character, length h)]\<rparr>]
               @ [new_node])
            (length h) key
      | Some child \<Rightarrow> insert_walk h child key)"

definition insert_trie ::
  "('c, 'v) heap \<Rightarrow> 'c trie \<Rightarrow> 'c list \<Rightarrow> 'v \<Rightarrow> ('c, 'v) heap \<times> 'c trie" where
  "insert_trie h t key v =
     (case insert_walk h (t_root t) key of
        (h1, node) \<Rightarrow>
          (h1[node := (h1 ! node)\<lparr>nvalue := Stored v\<rparr>],
           if nvalue (h1 ! node) = Sentinel then t\<lparr>t_count := t_count t + 1\<rparr> else t))"

text \<open>
  \<open>remove\<close> (lines 211--237).  The loop returns the last node of the key and the cutoff: the
  pair of \<open>cutoff_node\<close> and \<open>cutoff_character\<close>, \<open>None\<close> as long as no symbol was read
  (\<open>not cutoff_node\<close> holds for \<open>None\<close> only, a \<open>_Node\<close> being truthy).  A missing child raises
  \<open>KeyError\<close> before anything is written, and so does an unoccupied last node.  The statement
  \<open>del cutoff_node.children[cutoff_character]\<close> raises \<open>KeyError\<close> too when the character has
  no entry; then the value has been reset already and the count has not been decremented.
\<close>

fun remove_walk ::
  "('c, 'v) heap \<Rightarrow> nat \<Rightarrow> (nat \<times> 'c) option \<Rightarrow> 'c list \<Rightarrow> (nat \<times> (nat \<times> 'c) option) option" where
  "remove_walk h node cutoff [] = Some (node, cutoff)"
| "remove_walk h node cutoff (character # key) =
     (case map_of (children (h ! node)) character of
        None \<Rightarrow> None
      | Some child \<Rightarrow>
          remove_walk h child
            (if cutoff = None \<or> nvalue (h ! node) \<noteq> Sentinel \<or> length (children (h ! node)) \<ge> 2
             then Some (node, character) else cutoff)
            key)"

definition remove_trie ::
  "('c, 'v) heap \<Rightarrow> 'c trie \<Rightarrow> 'c list \<Rightarrow> error option \<times> ('c, 'v) heap \<times> 'c trie" where
  "remove_trie h t key =
     (case remove_walk h (t_root t) None key of
        None \<Rightarrow> (Some KeyError, h, t)
      | Some (node, cutoff) \<Rightarrow>
          if nvalue (h ! node) = Sentinel then (Some KeyError, h, t)
          else
            (let h1 = h[node := (h ! node)\<lparr>nvalue := Sentinel\<rparr>] in
             case cutoff of
               None \<Rightarrow> (None, h1, t\<lparr>t_count := t_count t - 1\<rparr>)
             | Some (cutoff_node, cutoff_character) \<Rightarrow>
                 if children (h1 ! node) \<noteq> [] then (None, h1, t\<lparr>t_count := t_count t - 1\<rparr>)
                 else if map_of (children (h1 ! cutoff_node)) cutoff_character = None
                 then (Some KeyError, h1, t)
                 else
                   (None,
                    h1[cutoff_node := (h1 ! cutoff_node)
                         \<lparr>children := filter (\<lambda>e. fst e \<noteq> cutoff_character)
                                        (children (h1 ! cutoff_node))\<rparr>],
                    t\<lparr>t_count := t_count t - 1\<rparr>)))"

text \<open>
  \<open>update\<close> (lines 243--266).  \<open>to_visit\<close> is a stack (\<open>append\<close> and \<open>pop\<close> at the same end)
  of pairs of an own node and a node of \<open>other\<close>.  \<open>update_visit\<close> copies the value,
  \<open>update_children\<close> is the \<open>for\<close> loop over \<open>other_node.children.items()\<close>.  Both
  trees live in the same store, and \<open>other\<close> may be \<open>self\<close>.  The \<open>while\<close> loop is a partial
  function: that it ends is proved below.
\<close>

fun update_children ::
  "('c, 'v) heap \<Rightarrow> nat \<Rightarrow> ('c \<times> nat) list \<Rightarrow> (nat \<times> nat) list \<Rightarrow> ('c, 'v) heap \<times> (nat \<times> nat) list" where
  "update_children h own_node [] to_visit = (h, to_visit)"
| "update_children h own_node ((character, other_child) # items) to_visit =
     (case map_of (children (h ! own_node)) character of
        None \<Rightarrow>
          update_children
            (h[own_node := (h ! own_node)\<lparr>children := children (h ! own_node) @ [(character, length h)]\<rparr>]
               @ [new_node])
            own_node items ((length h, other_child) # to_visit)
      | Some own_child \<Rightarrow> update_children h own_node items ((own_child, other_child) # to_visit))"

definition update_visit ::
  "('c, 'v) heap \<Rightarrow> 'c trie \<Rightarrow> nat \<Rightarrow> nat \<Rightarrow> ('c, 'v) heap \<times> 'c trie" where
  "update_visit h t own_node other_node =
     (case nvalue (h ! other_node) of
        Sentinel \<Rightarrow> (h, t)
      | Stored v \<Rightarrow>
          (h[own_node := (h ! own_node)\<lparr>nvalue := Stored v\<rparr>],
           if nvalue (h ! own_node) = Sentinel then t\<lparr>t_count := t_count t + 1\<rparr> else t))"

partial_function (option) update_loop ::
  "('c, 'v) heap \<Rightarrow> 'c trie \<Rightarrow> (nat \<times> nat) list \<Rightarrow> (('c, 'v) heap \<times> 'c trie) option" where
  "update_loop h t to_visit =
     (case to_visit of
        [] \<Rightarrow> Some (h, t)
      | (own_node, other_node) # rest \<Rightarrow>
          (case update_visit h t own_node other_node of
             (h1, t1) \<Rightarrow>
               (case update_children h1 own_node (children (h1 ! other_node)) rest of
                  (h2, to_visit2) \<Rightarrow> update_loop h2 t1 to_visit2)))"

definition update_trie ::
  "('c, 'v) heap \<Rightarrow> 'c trie \<Rightarrow> 'c trie \<Rightarrow> (('c, 'v) heap \<times> 'c trie) option" where
  "update_trie h t other = update_loop h t [(t_root t, t_root other)]"

text \<open>
  \<open>_count_subtree\<close> and \<open>count\<close> (lines 66--73, 402--414).
\<close>

partial_function (option) count_subtree_loop ::
  "('c, 'v) heap \<Rightarrow> nat list \<Rightarrow> int \<Rightarrow> int option" where
  "count_subtree_loop h to_visit cnt =
     (case to_visit of
        [] \<Rightarrow> Some cnt
      | node # rest \<Rightarrow>
          count_subtree_loop h (rev (map snd (children (h ! node))) @ rest)
            (if nvalue (h ! node) \<noteq> Sentinel then cnt + 1 else cnt))"

definition count_subtree :: "('c, 'v) heap \<Rightarrow> nat \<Rightarrow> int option" where
  "count_subtree h node = count_subtree_loop h [node] 0"

definition count :: "('c, 'v) heap \<Rightarrow> 'c trie \<Rightarrow> int option" where
  "count h t = count_subtree h (t_root t)"

text \<open>
  \<open>_iterate_nodes\<close> (lines 372--389) is a generator.  Its state between two \<open>yield\<close>s is the
  stack \<open>to_visit\<close> and, when it is suspended at the \<open>yield\<close>, the node it has yielded: the
  children of that node are pushed only when the generator is resumed, and they are read from the
  store as it is then.  \<open>push_children\<close> is the loop over \<open>reversed(self._alphabet)\<close>;
  only children under a symbol of the alphabet are pushed.
  \<open>generator_next\<close> is \<open>next\<close>: it runs the generator up to the next \<open>yield\<close> (\<open>Some\<close>
  of the item and the new state) or to its end (\<open>Some None\<close>).
\<close>

fun push_children ::
  "('c, 'v) heap \<Rightarrow> nat \<Rightarrow> 'c list \<Rightarrow> 'c list \<Rightarrow> (nat \<times> 'c list) list \<Rightarrow> (nat \<times> 'c list) list" where
  "push_children h node prefix' [] to_visit = to_visit"
| "push_children h node prefix' (character # reversed_alphabet) to_visit =
     push_children h node prefix' reversed_alphabet
       (case map_of (children (h ! node)) character of
          None \<Rightarrow> to_visit
        | Some child \<Rightarrow> (child, prefix' @ [character]) # to_visit)"

datatype 'c generator =
  Generator (gen_suspended: "(nat \<times> 'c list) option") (gen_to_visit: "(nat \<times> 'c list) list")

definition iterate_nodes :: "nat option \<Rightarrow> 'c generator" where
  "iterate_nodes node =
     (case node of
        None \<Rightarrow> Generator None []
      | Some n \<Rightarrow> Generator None [(n, [])])"

partial_function (option) iterate_nodes_loop ::
  "('c, 'v) heap \<Rightarrow> 'c list \<Rightarrow> (nat \<times> 'c list) list
     \<Rightarrow> ((nat \<times> 'c list) \<times> 'c generator) option option" where
  "iterate_nodes_loop h alphabet to_visit =
     (case to_visit of
        [] \<Rightarrow> Some None
      | (node, prefix') # rest \<Rightarrow>
          if nvalue (h ! node) \<noteq> Sentinel
          then Some (Some ((node, prefix'), Generator (Some (node, prefix')) rest))
          else iterate_nodes_loop h alphabet (push_children h node prefix' (rev alphabet) rest))"

definition generator_next ::
  "('c, 'v) heap \<Rightarrow> 'c list \<Rightarrow> 'c generator \<Rightarrow> ((nat \<times> 'c list) \<times> 'c generator) option option" where
  "generator_next h alphabet g =
     iterate_nodes_loop h alphabet
       (case gen_suspended g of
          None \<Rightarrow> gen_to_visit g
        | Some (node, prefix') \<Rightarrow> push_children h node prefix' (rev alphabet) (gen_to_visit g))"

text \<open>
  A \<open>for\<close> loop that only collects the items (\<open>list(...)\<close>), and \<open>_iterate_keys\<close>,
  \<open>_iterate_values\<close>, \<open>_iterate_items\<close>, \<open>keys\<close>, \<open>values\<close>, \<open>items\<close> (lines 138--193,
  391--400); \<open>__iter__\<close> is \<open>keys\<close> with the empty prefix.  The store does not change while
  such a loop runs.  A value is read from the node, so it has the type of \<open>_Node.value\<close>.
\<close>

partial_function (option) iterate_all ::
  "('c, 'v) heap \<Rightarrow> 'c list \<Rightarrow> 'c generator \<Rightarrow> (nat \<times> 'c list) list option" where
  "iterate_all h alphabet g =
     (case generator_next h alphabet g of
        None \<Rightarrow> None
      | Some None \<Rightarrow> Some []
      | Some (Some (item, g')) \<Rightarrow>
          Option.bind (iterate_all h alphabet g') (\<lambda>items. Some (item # items)))"

definition iterate_keys :: "('c, 'v) heap \<Rightarrow> 'c list \<Rightarrow> nat option \<Rightarrow> 'c list list option" where
  "iterate_keys h alphabet node =
     map_option (map (\<lambda>(node, word). word)) (iterate_all h alphabet (iterate_nodes node))"

definition iterate_values :: "('c, 'v) heap \<Rightarrow> 'c list \<Rightarrow> nat option \<Rightarrow> 'v slot list option" where
  "iterate_values h alphabet node =
     map_option (map (\<lambda>(node, word). nvalue (h ! node))) (iterate_all h alphabet (iterate_nodes node))"

definition iterate_items ::
  "('c, 'v) heap \<Rightarrow> 'c list \<Rightarrow> nat option \<Rightarrow> ('c list \<times> 'v slot) list option" where
  "iterate_items h alphabet node =
     map_option (map (\<lambda>(node, word). (word, nvalue (h ! node))))
       (iterate_all h alphabet (iterate_nodes node))"

definition keys :: "('c, 'v) heap \<Rightarrow> 'c trie \<Rightarrow> 'c list \<Rightarrow> 'c list list option" where
  "keys h t prefix' = iterate_keys h (t_alphabet t) (get_node h t prefix')"

definition values_trie :: "('c, 'v) heap \<Rightarrow> 'c trie \<Rightarrow> 'c list \<Rightarrow> 'v slot list option" where
  "values_trie h t prefix' = iterate_values h (t_alphabet t) (get_node h t prefix')"

definition items :: "('c, 'v) heap \<Rightarrow> 'c trie \<Rightarrow> 'c list \<Rightarrow> ('c list \<times> 'v slot) list option" where
  "items h t prefix' = iterate_items h (t_alphabet t) (get_node h t prefix')"

text \<open>
  \<open>difference_update\<close> (lines 299--303): \<open>for key in other: if key in self: del self[key]\<close>.
  The generator runs over \<open>other\<close> with the alphabet of \<open>other\<close>, interleaved with the removals
  from \<open>self\<close>.
\<close>

partial_function (option) difference_update_loop ::
  "('c, 'v) heap \<Rightarrow> 'c trie \<Rightarrow> 'c list \<Rightarrow> 'c generator
     \<Rightarrow> (error option \<times> ('c, 'v) heap \<times> 'c trie) option" where
  "difference_update_loop h t alphabet g =
     (case generator_next h alphabet g of
        None \<Rightarrow> None
      | Some None \<Rightarrow> Some (None, h, t)
      | Some (Some ((node, key), g')) \<Rightarrow>
          if contains h t key
          then (case remove_trie h t key of
                  (Some e, h', t') \<Rightarrow> Some (Some e, h', t')
                | (None, h', t') \<Rightarrow> difference_update_loop h' t' alphabet g')
          else difference_update_loop h t alphabet g')"

definition difference_update ::
  "('c, 'v) heap \<Rightarrow> 'c trie \<Rightarrow> 'c trie \<Rightarrow> (error option \<times> ('c, 'v) heap \<times> 'c trie) option" where
  "difference_update h t other =
     difference_update_loop h t (t_alphabet other) (iterate_nodes (Some (t_root other)))"

text \<open>
  \<open>intersection_update\<close> (lines 331--337): \<open>for key in self: ...\<close> writes to \<open>self\<close> and
  removes from \<open>self\<close> while the generator runs over \<open>self\<close>.
\<close>

partial_function (option) intersection_update_loop ::
  "('c, 'v) heap \<Rightarrow> 'c trie \<Rightarrow> 'c trie \<Rightarrow> 'c generator
     \<Rightarrow> (error option \<times> ('c, 'v) heap \<times> 'c trie) option" where
  "intersection_update_loop h t other g =
     (case generator_next h (t_alphabet t) g of
        None \<Rightarrow> None
      | Some None \<Rightarrow> Some (None, h, t)
      | Some (Some ((node, key), g')) \<Rightarrow>
          if contains h other key
          then (case getitem h other key of
                  Inl e \<Rightarrow> Some (Some e, h, t)
                | Inr v \<Rightarrow>
                    (case insert_trie h t key v of
                       (h', t') \<Rightarrow> intersection_update_loop h' t' other g'))
          else (case remove_trie h t key of
                  (Some e, h', t') \<Rightarrow> Some (Some e, h', t')
                | (None, h', t') \<Rightarrow> intersection_update_loop h' t' other g'))"

definition intersection_update ::
  "('c, 'v) heap \<Rightarrow> 'c trie \<Rightarrow> 'c trie \<Rightarrow> (error option \<times> ('c, 'v) heap \<times> 'c trie) option" where
  "intersection_update h t other =
     intersection_update_loop h t other (iterate_nodes (Some (t_root t)))"

text \<open>
  \<open>union\<close>, \<open>difference\<close>, \<open>intersection\<close> (lines 280--289, 310--320, 344--353): a new tree
  with the alphabet of \<open>self\<close>, updated with \<open>self\<close> and then with \<open>other\<close>.
\<close>

definition union_trie ::
  "('c, 'v) heap \<Rightarrow> 'c trie \<Rightarrow> 'c trie \<Rightarrow> (('c, 'v) heap \<times> 'c trie) option" where
  "union_trie h t other =
     (case Trie h (t_alphabet t) of
        (h0, third) \<Rightarrow>
          (case update_trie h0 third t of
             None \<Rightarrow> None
           | Some (h1, third1) \<Rightarrow> update_trie h1 third1 other))"

definition difference ::
  "('c, 'v) heap \<Rightarrow> 'c trie \<Rightarrow> 'c trie \<Rightarrow> (error option \<times> ('c, 'v) heap \<times> 'c trie) option" where
  "difference h t other =
     (case Trie h (t_alphabet t) of
        (h0, third) \<Rightarrow>
          (case update_trie h0 third t of
             None \<Rightarrow> None
           | Some (h1, third1) \<Rightarrow> difference_update h1 third1 other))"

definition intersection ::
  "('c, 'v) heap \<Rightarrow> 'c trie \<Rightarrow> 'c trie \<Rightarrow> (error option \<times> ('c, 'v) heap \<times> 'c trie) option" where
  "intersection h t other =
     (case Trie h (t_alphabet t) of
        (h0, third) \<Rightarrow>
          (case update_trie h0 third t of
             None \<Rightarrow> None
           | Some (h1, third1) \<Rightarrow> intersection_update h1 third1 other))"

text \<open>
  The loops are evaluated by their defining equations.
\<close>

declare update_loop.simps [code]

declare count_subtree_loop.simps [code]

declare iterate_nodes_loop.simps [code]

declare iterate_all.simps [code]

declare difference_update_loop.simps [code]

declare intersection_update_loop.simps [code]

text \<open>
  The lexicographic order of keys that an alphabet defines: symbols are compared by the position
  of their first occurrence in the alphabet, a proper prefix comes first.
\<close>

definition position :: "'c list \<Rightarrow> 'c \<Rightarrow> nat" where
  "position alphabet c = length (takeWhile (\<lambda>x. x \<noteq> c) alphabet)"

fun lex_less :: "'c list \<Rightarrow> 'c list \<Rightarrow> 'c list \<Rightarrow> bool" where
  "lex_less alphabet [] [] = False"
| "lex_less alphabet [] (y # ys) = True"
| "lex_less alphabet (x # xs) [] = False"
| "lex_less alphabet (x # xs) (y # ys) =
     (position alphabet x < position alphabet y \<or> (x = y \<and> lex_less alphabet xs ys))"

text \<open>
  The two writes of a pruning \<open>remove\<close>: the node \<open>x\<close> of the key loses its value, the cutoff
  node \<open>n\<close> loses its child under the symbol \<open>c\<close>.
\<close>

definition cut_heap :: "('c, 'v) heap \<Rightarrow> nat \<Rightarrow> nat \<Rightarrow> 'c \<Rightarrow> ('c, 'v) heap" where
  "cut_heap h x n c =
     (let h1 = h[x := (h ! x)\<lparr>nvalue := Sentinel\<rparr>]
      in h1[n := (h1 ! n)\<lparr>children := filter (\<lambda>e. fst e \<noteq> c) (children (h1 ! n))\<rparr>])"

text \<open>
  A client program is a sequence of calls.  The trees made so far are numbered in the order of
  their creation; a call names its operands by these numbers, and the two operands of a binary
  operation may be the same tree.  \<^const>\<open>Trie\<close>, \<open>union\<close>, \<open>difference\<close> and \<open>intersection\<close>
  add a tree, the other calls replace the fields of their first operand.  A \<open>KeyError\<close> is caught
  by the client, which goes on with the store as the raising call left it.  \<open>exec\<close> is \<open>None\<close>
  when a loop of the call does not end, or when an operand does not exist
  (\<open>call_ok\<close> says that the operands exist).
\<close>

datatype ('c, 'v) call =
    Call_new "'c list"
  | Call_insert nat "'c list" 'v
  | Call_remove nat "'c list"
  | Call_update nat nat
  | Call_difference_update nat nat
  | Call_intersection_update nat nat
  | Call_union nat nat
  | Call_difference nat nat
  | Call_intersection nat nat

type_synonym ('c, 'v) state = "('c, 'v) heap \<times> 'c trie list"

fun exec :: "('c, 'v) call \<Rightarrow> ('c, 'v) state \<Rightarrow> ('c, 'v) state option" where
  "exec (Call_new alphabet) (h, ts) =
     (case Trie h alphabet of (h', t) \<Rightarrow> Some (h', ts @ [t]))"
| "exec (Call_insert i key v) (h, ts) =
     (if i < length ts
      then (case insert_trie h (ts ! i) key v of (h', t') \<Rightarrow> Some (h', ts[i := t']))
      else None)"
| "exec (Call_remove i key) (h, ts) =
     (if i < length ts
      then (case remove_trie h (ts ! i) key of (e, h', t') \<Rightarrow> Some (h', ts[i := t']))
      else None)"
| "exec (Call_update i j) (h, ts) =
     (if i < length ts \<and> j < length ts
      then (case update_trie h (ts ! i) (ts ! j) of
              None \<Rightarrow> None
            | Some (h', t') \<Rightarrow> Some (h', ts[i := t']))
      else None)"
| "exec (Call_difference_update i j) (h, ts) =
     (if i < length ts \<and> j < length ts
      then (case difference_update h (ts ! i) (ts ! j) of
              None \<Rightarrow> None
            | Some (e, h', t') \<Rightarrow> Some (h', ts[i := t']))
      else None)"
| "exec (Call_intersection_update i j) (h, ts) =
     (if i < length ts \<and> j < length ts
      then (case intersection_update h (ts ! i) (ts ! j) of
              None \<Rightarrow> None
            | Some (e, h', t') \<Rightarrow> Some (h', ts[i := t']))
      else None)"
| "exec (Call_union i j) (h, ts) =
     (if i < length ts \<and> j < length ts
      then (case union_trie h (ts ! i) (ts ! j) of
              None \<Rightarrow> None
            | Some (h', t') \<Rightarrow> Some (h', ts @ [t']))
      else None)"
| "exec (Call_difference i j) (h, ts) =
     (if i < length ts \<and> j < length ts
      then (case difference h (ts ! i) (ts ! j) of
              None \<Rightarrow> None
            | Some (e, h', t') \<Rightarrow> Some (h', ts @ [t']))
      else None)"
| "exec (Call_intersection i j) (h, ts) =
     (if i < length ts \<and> j < length ts
      then (case intersection h (ts ! i) (ts ! j) of
              None \<Rightarrow> None
            | Some (e, h', t') \<Rightarrow> Some (h', ts @ [t']))
      else None)"

fun run :: "('c, 'v) call list \<Rightarrow> ('c, 'v) state \<Rightarrow> ('c, 'v) state option" where
  "run [] s = Some s"
| "run (c # cs) s = (case exec c s of None \<Rightarrow> None | Some s' \<Rightarrow> run cs s')"

fun call_ok :: "('c, 'v) call \<Rightarrow> nat \<Rightarrow> bool" where
  "call_ok (Call_new alphabet) n = True"
| "call_ok (Call_insert i key v) n = (i < n)"
| "call_ok (Call_remove i key) n = (i < n)"
| "call_ok (Call_update i j) n = (i < n \<and> j < n)"
| "call_ok (Call_difference_update i j) n = (i < n \<and> j < n)"
| "call_ok (Call_intersection_update i j) n = (i < n \<and> j < n)"
| "call_ok (Call_union i j) n = (i < n \<and> j < n)"
| "call_ok (Call_difference i j) n = (i < n \<and> j < n)"
| "call_ok (Call_intersection i j) n = (i < n \<and> j < n)"

text \<open>
  The value of a key as the public interface shows it: \<open>__getitem__\<close> with \<open>KeyError\<close> read as
  ``no value''.
\<close>

definition lookup :: "('c, 'v) heap \<Rightarrow> 'c trie \<Rightarrow> 'c list \<Rightarrow> 'v option" where
  "lookup h t key = (case getitem h t key of Inl e \<Rightarrow> None | Inr v \<Rightarrow> Some v)"

text \<open>
  Python values that may be \<open>None\<close>.
\<close>

datatype 'a pyobject = PyNone | PyObject 'a

text \<open>
  A node that pruning must not leave behind: unoccupied and childless.
\<close>

definition prunable :: "('c, 'v) heap \<Rightarrow> nat \<Rightarrow> bool" where
  "prunable h n \<longleftrightarrow> nvalue (h ! n) = Sentinel \<and> children (h ! n) = []"

section \<open>Definitions for the proofs\<close>

text \<open>
  The rest of the definitions serves the proofs only.  A tree of the program is described by a
  term: a node with its reference, its children in the order of the \<open>dict\<close>, and its value.
  \<open>repr h T\<close> says that the store \<open>h\<close> holds \<open>T\<close> at the references of \<open>T\<close>; \<open>wf_tree T\<close> that
  no reference and no symbol of a \<open>dict\<close> occurs twice.  The \<open>a_\<close> functions compute on these
  terms what the program does in the store.
\<close>

datatype ('c, 'v) atree =
  ANode (a_addr: nat) (a_kids: "('c \<times> ('c, 'v) atree) list") (a_val: "'v slot")

fun addrs :: "('c, 'v) atree \<Rightarrow> nat list" where
  "addrs (ANode a ks v) = a # concat (map (\<lambda>x. addrs (snd x)) ks)"

fun repr :: "('c, 'v) heap \<Rightarrow> ('c, 'v) atree \<Rightarrow> bool" where
  "repr h (ANode a ks v) \<longleftrightarrow>
     a < length h \<and> children (h ! a) = map (\<lambda>x. (fst x, a_addr (snd x))) ks \<and> nvalue (h ! a) = v
     \<and> (\<forall>x \<in> set ks. repr h (snd x))"

fun distinct_keys :: "('c, 'v) atree \<Rightarrow> bool" where
  "distinct_keys (ANode a ks v) \<longleftrightarrow> distinct (map fst ks) \<and> (\<forall>x \<in> set ks. distinct_keys (snd x))"

fun a_sub :: "('c, 'v) atree \<Rightarrow> 'c list \<Rightarrow> ('c, 'v) atree option" where
  "a_sub T [] = Some T"
| "a_sub T (c # p) = (case map_of (a_kids T) c of None \<Rightarrow> None | Some S \<Rightarrow> a_sub S p)"

fun a_modify :: "(('c, 'v) atree \<Rightarrow> ('c, 'v) atree) \<Rightarrow> 'c list \<Rightarrow> ('c, 'v) atree \<Rightarrow> ('c, 'v) atree" where
  "a_modify f [] T = f T"
| "a_modify f (c # p) (ANode a ks v) =
     ANode a (map (\<lambda>x. (fst x, if fst x = c then a_modify f p (snd x) else snd x)) ks) v"

fun a_count :: "('c, 'v) atree \<Rightarrow> int" where
  "a_count (ANode a ks v) = (if v \<noteq> Sentinel then 1 else 0) + sum_list (map (\<lambda>x. a_count (snd x)) ks)"

definition a_slot :: "('c, 'v) atree \<Rightarrow> 'c list \<Rightarrow> 'v slot option" where
  "a_slot T p = map_option a_val (a_sub T p)"

definition alive :: "('c, 'v) atree \<Rightarrow> bool" where
  "alive T \<longleftrightarrow> a_val T \<noteq> Sentinel \<or> a_kids T \<noteq> []"

fun pruned :: "('c, 'v) atree \<Rightarrow> bool" where
  "pruned (ANode a ks v) \<longleftrightarrow> (\<forall>x \<in> set ks. alive (snd x) \<and> pruned (snd x))"

definition a_set_val :: "'v slot \<Rightarrow> ('c, 'v) atree \<Rightarrow> ('c, 'v) atree" where
  "a_set_val s T = ANode (a_addr T) (a_kids T) s"

definition a_del_kid :: "'c \<Rightarrow> ('c, 'v) atree \<Rightarrow> ('c, 'v) atree" where
  "a_del_kid c T = ANode (a_addr T) (filter (\<lambda>x. fst x \<noteq> c) (a_kids T)) (a_val T)"

fun a_path :: "nat \<Rightarrow> 'c list \<Rightarrow> ('c, 'v) atree \<Rightarrow> ('c, 'v) atree" where
  "a_path n [] T = T"
| "a_path n (c # key) (ANode a ks v) =
     (case map_of ks c of
        None \<Rightarrow> ANode a (ks @ [(c, a_path (Suc n) key (ANode n [] Sentinel))]) v
      | Some S \<Rightarrow>
          ANode a (map (\<lambda>x. (fst x, if fst x = c then a_path n key (snd x) else snd x)) ks) v)"

definition a_insert :: "nat \<Rightarrow> 'c list \<Rightarrow> 'v \<Rightarrow> ('c, 'v) atree \<Rightarrow> ('c, 'v) atree" where
  "a_insert n key v T = a_modify (a_set_val (Stored v)) key (a_path n key T)"

definition a_lookup :: "('c, 'v) atree \<Rightarrow> 'c list \<Rightarrow> 'v option" where
  "a_lookup T p = (case a_slot T p of Some (Stored v) \<Rightarrow> Some v | _ \<Rightarrow> None)"

definition elig :: "('c, 'v) atree \<Rightarrow> bool" where
  "elig T \<longleftrightarrow> a_val T \<noteq> Sentinel \<or> length (a_kids T) \<ge> 2"

fun a_cutoff ::
  "('c, 'v) atree \<Rightarrow> 'c list \<Rightarrow> ('c list \<times> 'c) option \<Rightarrow> 'c list \<Rightarrow> ('c list \<times> 'c) option" where
  "a_cutoff T pre gcut [] = gcut"
| "a_cutoff T pre gcut (c # key) =
     (case map_of (a_kids T) c of
        None \<Rightarrow> None
      | Some S \<Rightarrow>
          a_cutoff S (pre @ [c]) (if gcut = None \<or> elig T then Some (pre, c) else gcut) key)"

definition cut_addr :: "('c, 'v) atree \<Rightarrow> ('c list \<times> 'c) option \<Rightarrow> (nat \<times> 'c) option" where
  "cut_addr R gcut = map_option (\<lambda>(p, c). (a_addr (the (a_sub R p)), c)) gcut"

definition a_remove :: "('c, 'v) atree \<Rightarrow> 'c list \<Rightarrow> ('c, 'v) atree" where
  "a_remove T key =
     (case a_sub T key of
        None \<Rightarrow> T
      | Some S \<Rightarrow>
          if a_kids S \<noteq> [] then a_modify (a_set_val Sentinel) key T
          else (case a_cutoff T [] None key of
                  None \<Rightarrow> a_modify (a_set_val Sentinel) key T
                | Some (p, c) \<Rightarrow> a_modify (a_del_kid c) p T))"

definition wf_tree :: "('c, 'v) atree \<Rightarrow> bool" where
  "wf_tree T \<longleftrightarrow> distinct (addrs T) \<and> distinct_keys T"

fun a_items :: "'c list \<Rightarrow> ('c, 'v) atree \<Rightarrow> ('c list \<times> nat) list" where
  "a_items alph (ANode a ks v) =
     (if v \<noteq> Sentinel then [([], a)] else []) @
     concat (map (\<lambda>c. concat (map (\<lambda>x. if fst x = c
                                          then map (\<lambda>qb. (c # fst qb, snd qb)) (a_items alph (snd x))
                                          else []) ks)) alph)"

fun a_work :: "'c list \<Rightarrow> ('c, 'v) atree \<Rightarrow> nat" where
  "a_work alph (ANode a ks v) =
     Suc (sum_list (map (\<lambda>c. sum_list (map (\<lambda>x. if fst x = c then a_work alph (snd x) else 0) ks)) alph))"

definition merge_slot :: "'v slot option \<Rightarrow> 'v slot option \<Rightarrow> 'v slot option" where
  "merge_slot own other =
     (case other of
        None \<Rightarrow> own
      | Some Sentinel \<Rightarrow> (case own of None \<Rightarrow> Some Sentinel | Some s \<Rightarrow> Some s)
      | Some (Stored v) \<Rightarrow> Some (Stored v))"

definition upd_ok :: "('c, 'v) atree \<Rightarrow> bool" where
  "upd_ok U \<longleftrightarrow>
     (\<forall>h S. repr h S \<and> wf_tree S \<and> repr h U \<and> set (addrs S) \<inter> set (addrs U) = {} \<longrightarrow>
        (\<exists>h' S'.
            (\<forall>rest t. update_loop h t ((a_addr S, a_addr U) # rest)
                = update_loop h' (t\<lparr>t_count := t_count t + (a_count S' - a_count S)\<rparr>) rest)
          \<and> repr h' S' \<and> wf_tree S' \<and> a_addr S' = a_addr S \<and> length h \<le> length h'
          \<and> (\<forall>x < length h. x \<notin> set (addrs S) \<longrightarrow> h' ! x = h ! x)
          \<and> set (addrs S') \<subseteq> set (addrs S) \<union> {length h ..< length h'}
          \<and> (\<forall>q. a_slot S' q = merge_slot (a_slot S q) (a_slot U q))))"

definition kids_forest :: "'c list \<Rightarrow> ('c, 'v) atree \<Rightarrow> 'c list \<Rightarrow> (('c, 'v) atree \<times> 'c list) list" where
  "kids_forest alph X q =
     concat (map (\<lambda>c. case map_of (a_kids X) c of None \<Rightarrow> [] | Some K \<Rightarrow> [(K, q @ [c])]) alph)"

definition f_items :: "'c list \<Rightarrow> (('c, 'v) atree \<times> 'c list) list \<Rightarrow> (nat \<times> 'c list) list" where
  "f_items alph Ks = concat (map (\<lambda>Kp. map (\<lambda>qb. (snd qb, snd Kp @ fst qb)) (a_items alph (fst Kp))) Ks)"

definition f_work :: "'c list \<Rightarrow> (('c, 'v) atree \<times> 'c list) list \<Rightarrow> nat" where
  "f_work alph Ks = sum_list (map (\<lambda>Kp. a_work alph (fst Kp)) Ks)"

definition stack_of :: "(('c, 'v) atree \<times> 'c list) list \<Rightarrow> (nat \<times> 'c list) list" where
  "stack_of Ks = map (\<lambda>Kp. (a_addr (fst Kp), snd Kp)) Ks"

definition forest_ok :: "('c, 'v) heap \<Rightarrow> (('c, 'v) atree \<times> 'c list) list \<Rightarrow> bool" where
  "forest_ok h Ks \<longleftrightarrow> (\<forall>Kp \<in> set Ks. repr h (fst Kp) \<and> distinct_keys (fst Kp))"

definition below ::
  "'c list \<Rightarrow> (('c, 'v) atree \<times> 'c list) list \<Rightarrow> ('c, 'v) atree \<times> 'c list \<Rightarrow> bool" where
  "below alph Ks Kp' \<longleftrightarrow>
     (\<exists>Kp \<in> set Ks. \<exists>r. set r \<subseteq> set alph \<and> snd Kp' = snd Kp @ r \<and> a_sub (fst Kp) r = Some (fst Kp'))"

definition tree_ok :: "('c, 'v) heap \<Rightarrow> 'c trie \<Rightarrow> ('c, 'v) atree \<Rightarrow> bool" where
  "tree_ok h t T \<longleftrightarrow>
     repr h T \<and> wf_tree T \<and> pruned T \<and> a_addr T = t_root t \<and> t_count t = a_count T"

definition evolves :: "('c, 'v) heap \<Rightarrow> ('c, 'v) atree \<Rightarrow> ('c, 'v) heap \<Rightarrow> ('c, 'v) atree \<Rightarrow> bool" where
  "evolves h T h' T' \<longleftrightarrow>
     length h \<le> length h'
     \<and> (\<forall>x < length h. x \<notin> set (addrs T) \<longrightarrow> h' ! x = h ! x)
     \<and> set (addrs T') \<subseteq> set (addrs T) \<union> {length h ..< length h'}
     \<and> a_addr T' = a_addr T"

definition forest_apart :: "(('c, 'v) atree \<times> 'c list) list \<Rightarrow> ('c, 'v) atree \<Rightarrow> bool" where
  "forest_apart Ks T \<longleftrightarrow> (\<forall>Kp \<in> set Ks. set (addrs (fst Kp)) \<inter> set (addrs T) = {})"

fun unocc :: "('c, 'v) atree \<Rightarrow> bool" where
  "unocc (ANode a ks v) \<longleftrightarrow> v = Sentinel \<and> (\<forall>x \<in> set ks. unocc (snd x))"

definition entry_ok ::
  "('c, 'v) heap \<Rightarrow> ('c, 'v) atree \<Rightarrow> ('c, 'v) atree \<times> 'c list \<Rightarrow> bool" where
  "entry_ok h T Kp \<longleftrightarrow>
     repr h (fst Kp) \<and> distinct_keys (fst Kp)
     \<and> (a_sub T (snd Kp) = Some (fst Kp)
        \<or> (unocc (fst Kp) \<and> set (addrs (fst Kp)) \<inter> set (addrs T) = {}))"

definition upd_rel ::
  "'c list \<Rightarrow> ('c, 'v) heap \<Rightarrow> ('c, 'v) atree \<Rightarrow> 'c list
     \<Rightarrow> ('c, 'v) atree \<times> 'c list \<Rightarrow> ('c, 'v) atree \<times> 'c list \<Rightarrow> bool" where
  "upd_rel alph h' T' q Kp Kp' \<longleftrightarrow>
     snd Kp' = snd Kp \<and> a_addr (fst Kp') = a_addr (fst Kp) \<and> entry_ok h' T' Kp'
     \<and> a_work alph (fst Kp') \<le> a_work alph (fst Kp)
     \<and> (\<forall>r. snd Kp @ r \<noteq> q \<longrightarrow> a_lookup (fst Kp) r \<noteq> None \<longrightarrow> a_lookup (fst Kp') r \<noteq> None)"

definition inter_target ::
  "'c list \<Rightarrow> ('c, 'v) atree \<Rightarrow> ('c, 'v) atree \<Rightarrow> 'c list \<Rightarrow> 'v option" where
  "inter_target alph T0 U q =
     (if set q \<subseteq> set alph \<and> a_lookup T0 q \<noteq> None then a_lookup U q else a_lookup T0 q)"

definition fresh :: "('c, 'v) heap \<Rightarrow> ('c, 'v) atree" where
  "fresh h = ANode (length h) [] Sentinel"

definition state_ok :: "('c, 'v) heap \<Rightarrow> 'c trie list \<Rightarrow> ('c, 'v) atree list \<Rightarrow> bool" where
  "state_ok h ts Ts \<longleftrightarrow>
     length Ts = length ts
     \<and> (\<forall>i < length ts. tree_ok h (ts ! i) (Ts ! i))
     \<and> (\<forall>i < length ts. \<forall>j < length ts. i \<noteq> j \<longrightarrow> set (addrs (Ts ! i)) \<inter> set (addrs (Ts ! j)) = {})"

section \<open>Lemmas\<close>

lemma map_of_kid_addrs:
  "map_of (map (\<lambda>x. (fst x, a_addr (snd x))) ks) c = map_option a_addr (map_of ks c)"
  by (induction ks) auto

lemma a_addr_in_addrs [simp]: "a_addr T \<in> set (addrs T)"
  by (cases T) simp

lemma kid_addrs_subset:
  "x \<in> set ks \<Longrightarrow> set (addrs (snd x)) \<subseteq> set (addrs (ANode a ks v))"
  by auto

lemma repr_addrs_lt: "repr h T \<Longrightarrow> a \<in> set (addrs T) \<Longrightarrow> a < length h"
proof (induction T)
  case (ANode b ks v)
  then show ?case by (auto simp: snds.simps)
qed

lemma repr_frame:
  "repr h T \<Longrightarrow> (\<And>a. a \<in> set (addrs T) \<Longrightarrow> h' ! a = h ! a) \<Longrightarrow> length h \<le> length h' \<Longrightarrow> repr h' T"
proof (induction T)
  case (ANode b ks v)
  have "repr h' (snd x)" if "x \<in> set ks" for x
  proof -
    from that ANode.prems(1) have "repr h (snd x)" by simp
    moreover have "\<And>a. a \<in> set (addrs (snd x)) \<Longrightarrow> h' ! a = h ! a"
      using ANode.prems(2) that by auto
    ultimately show ?thesis
      using ANode.IH[of x "snd x"] that ANode.prems(3) by (cases x) (auto simp: snds.simps)
  qed
  moreover have "h' ! b = h ! b" using ANode.prems(2) by simp
  ultimately show ?case using ANode.prems(1,3) by auto
qed

lemma get_node_from_repr:
  "repr h T \<Longrightarrow> get_node_from h (a_addr T) p = map_option a_addr (a_sub T p)"
proof (induction p arbitrary: T)
  case Nil
  then show ?case by simp
next
  case (Cons c p)
  obtain a ks v where T: "T = ANode a ks v" by (cases T)
  show ?case
  proof (cases "map_of ks c")
    case None
    then show ?thesis using Cons.prems T by (simp add: map_of_kid_addrs)
  next
    case (Some S)
    then have "(c, S) \<in> set ks" by (rule map_of_SomeD)
    then have "repr h S" using Cons.prems T by auto
    then show ?thesis using Cons.IH[of S] Cons.prems T Some by (simp add: map_of_kid_addrs)
  qed
qed

lemma a_sub_repr: "a_sub T p = Some S \<Longrightarrow> repr h T \<Longrightarrow> repr h S"
proof (induction p arbitrary: T)
  case Nil
  then show ?case by simp
next
  case (Cons c p)
  obtain a ks v where T: "T = ANode a ks v" by (cases T)
  from Cons.prems(1) T obtain S' where S': "map_of ks c = Some S'" "a_sub S' p = Some S"
    by (auto split: option.splits)
  then have "(c, S') \<in> set ks" by (auto dest: map_of_SomeD)
  then have "repr h S'" using Cons.prems(2) T by auto
  then show ?case using Cons.IH S'(2) by blast
qed

lemma a_sub_addrs: "a_sub T p = Some S \<Longrightarrow> set (addrs S) \<subseteq> set (addrs T)"
proof (induction p arbitrary: T)
  case Nil
  then show ?case by simp
next
  case (Cons c p)
  obtain a ks v where T: "T = ANode a ks v" by (cases T)
  from Cons.prems(1) T obtain S' where S': "map_of ks c = Some S'" "a_sub S' p = Some S"
    by (auto split: option.splits)
  then have "(c, S') \<in> set ks" by (auto dest: map_of_SomeD)
  then have "set (addrs S') \<subseteq> set (addrs T)" using T by force
  then show ?case using Cons.IH[OF S'(2)] by blast
qed

lemma distinct_concat_kid:
  "distinct (concat (map (\<lambda>x. addrs (snd x)) ks)) \<Longrightarrow> x \<in> set ks \<Longrightarrow> distinct (addrs (snd x))"
  by (induction ks) auto

lemma a_sub_wf: "a_sub T p = Some S \<Longrightarrow> wf_tree T \<Longrightarrow> wf_tree S"
proof (induction p arbitrary: T)
  case Nil
  then show ?case by simp
next
  case (Cons c p)
  obtain a ks v where T: "T = ANode a ks v" by (cases T)
  from Cons.prems(1) T obtain S' where S': "map_of ks c = Some S'" "a_sub S' p = Some S"
    by (auto split: option.splits)
  then have in_ks: "(c, S') \<in> set ks" by (auto dest: map_of_SomeD)
  have "wf_tree S'"
    using Cons.prems(2) T in_ks distinct_concat_kid[of ks "(c, S')"]
    by (auto simp: wf_tree_def)
  then show ?case using Cons.IH[OF S'(2)] by blast
qed

lemma map_of_upd_kids:
  "map_of (map (\<lambda>x. (fst x, g (fst x) (snd x))) ks) c = map_option (g c) (map_of ks c)"
  by (induction ks) auto

lemma a_modify_addr:
  "a_sub T p = Some S \<Longrightarrow> a_addr (f S) = a_addr S \<Longrightarrow> a_addr (a_modify f p T) = a_addr T"
  by (cases p; cases T) auto

lemma a_modify_val:
  "p \<noteq> [] \<Longrightarrow> a_val (a_modify f p T) = a_val T"
  by (cases p; cases T) auto

lemma a_modify_kids_map_of:
  "map_of (a_kids (a_modify f (c # p) T)) c' =
     map_option (\<lambda>X. if c' = c then a_modify f p X else X) (map_of (a_kids T) c')"
proof (cases T)
  case (ANode a ks v)
  show ?thesis
    using map_of_upd_kids[of "\<lambda>k X. if k = c then a_modify f p X else X" ks c']
    by (simp add: ANode)
qed

lemma a_sub_modify_same:
  "a_sub T p = Some S \<Longrightarrow> a_sub (a_modify f p T) (p @ r) = a_sub (f S) r"
proof (induction p arbitrary: T)
  case Nil
  then show ?case by simp
next
  case (Cons c p)
  from Cons.prems obtain S' where S': "map_of (a_kids T) c = Some S'" "a_sub S' p = Some S"
    by (auto split: option.splits)
  show ?case
    using Cons.IH[OF S'(2)] S'(1) by (simp add: a_modify_kids_map_of)
qed

lemma a_slot_modify_other:
  "a_sub T p = Some S \<Longrightarrow> \<not> prefix p q \<Longrightarrow> a_slot (a_modify f p T) q = a_slot T q"
proof (induction p arbitrary: T q)
  case Nil
  then show ?case by simp
next
  case (Cons c p)
  from Cons.prems obtain S' where S': "map_of (a_kids T) c = Some S'" "a_sub S' p = Some S"
    by (auto split: option.splits)
  show ?case
  proof (cases q)
    case Nil
    then show ?thesis by (simp add: a_slot_def a_modify_val)
  next
    case (Cons c' q')
    show ?thesis
    proof (cases "c' = c")
      case True
      with Cons Cons.prems(2) have "\<not> prefix p q'" by simp
      from Cons.IH[OF S'(2) this] show ?thesis
        using S'(1) True Cons by (simp add: a_slot_def a_modify_kids_map_of)
    next
      case False
      then show ?thesis
        using Cons by (simp add: a_slot_def a_modify_kids_map_of option.map_ident split: option.splits)
    qed
  qed
qed

lemma distinct_keys_kid_unique:
  "distinct (map fst ks) \<Longrightarrow> map_of ks c = Some S \<Longrightarrow> x \<in> set ks \<Longrightarrow> fst x = c \<Longrightarrow> x = (c, S)"
  by (metis map_of_SomeD map_of_is_SomeI option.inject prod.collapse)

lemma kid_addrs_disjoint:
  "distinct (concat (map (\<lambda>x. addrs (snd x)) ks)) \<Longrightarrow> x \<in> set ks \<Longrightarrow> y \<in> set ks \<Longrightarrow> x \<noteq> y
     \<Longrightarrow> set (addrs (snd x)) \<inter> set (addrs (snd y)) = {}"
proof (induction ks)
  case Nil
  then show ?case by simp
next
  case (Cons k ks)
  then show ?case by (auto 0 3)
qed

lemma a_modify_repr:
  assumes "repr h T" and "wf_tree T" and "a_sub T p = Some S"
    and "repr h' (f S)" and "a_addr (f S) = a_addr S"
    and "\<And>a. a \<in> set (addrs T) \<Longrightarrow> a \<notin> set (addrs S) \<Longrightarrow> h' ! a = h ! a"
    and "length h \<le> length h'"
  shows "repr h' (a_modify f p T)"
  using assms
proof (induction p arbitrary: T)
  case Nil
  then show ?case by simp
next
  case (Cons c p)
  obtain a ks v where T: "T = ANode a ks v" by (cases T)
  from Cons.prems(3) T obtain S0 where S0: "map_of ks c = Some S0" "a_sub S0 p = Some S"
    by (auto split: option.splits)
  have in_ks: "(c, S0) \<in> set ks" using S0(1) by (rule map_of_SomeD)
  have dk: "distinct (map fst ks)" and dks: "\<forall>x\<in>set ks. distinct_keys (snd x)"
    and da: "a \<notin> set (concat (map (\<lambda>x. addrs (snd x)) ks))"
    and dc: "distinct (concat (map (\<lambda>x. addrs (snd x)) ks))"
    using Cons.prems(2) T by (auto simp: wf_tree_def)
  have sub: "set (addrs S) \<subseteq> set (addrs S0)" using a_sub_addrs[OF S0(2)] .
  have a_notin: "a \<notin> set (addrs S)" using da in_ks sub by fastforce
  have cell: "h' ! a = h ! a" using Cons.prems(6)[of a] a_notin T by simp
  have wfS0: "wf_tree S0"
    using dks in_ks distinct_concat_kid[OF dc in_ks] by (auto simp: wf_tree_def)
  have reprS0: "repr h S0" using Cons.prems(1) T in_ks by auto
  have IH: "repr h' (a_modify f p S0)"
  proof (rule Cons.IH[OF reprS0 wfS0 S0(2) Cons.prems(4) Cons.prems(5) _ Cons.prems(7)])
    fix b assume "b \<in> set (addrs S0)" "b \<notin> set (addrs S)"
    then show "h' ! b = h ! b" using Cons.prems(6)[of b] T in_ks by force
  qed
  have addr_eq: "a_addr (a_modify f p S0) = a_addr S0"
    using a_modify_addr[of S0 p S f] S0(2) Cons.prems(5) by simp
  have kids: "repr h' (if fst x = c then a_modify f p (snd x) else snd x)
      \<and> a_addr (if fst x = c then a_modify f p (snd x) else snd x) = a_addr (snd x)"
    if x: "x \<in> set ks" for x
  proof (cases "fst x = c")
    case True
    then have "x = (c, S0)" using distinct_keys_kid_unique[OF dk S0(1) x] by simp
    then show ?thesis using IH addr_eq by simp
  next
    case False
    then have ne: "x \<noteq> (c, S0)" by auto
    have disj: "set (addrs (snd x)) \<inter> set (addrs S0) = {}"
      using kid_addrs_disjoint[OF dc x in_ks ne] by simp
    have "repr h (snd x)" using Cons.prems(1) T x by auto
    moreover have "\<And>b. b \<in> set (addrs (snd x)) \<Longrightarrow> h' ! b = h ! b"
    proof -
      fix b assume b: "b \<in> set (addrs (snd x))"
      then have "b \<in> set (addrs T)" using T x by auto
      moreover have "b \<notin> set (addrs S)" using b disj sub by auto
      ultimately show "h' ! b = h ! b" by (rule Cons.prems(6))
    qed
    ultimately have "repr h' (snd x)" using Cons.prems(7) by (rule repr_frame)
    then show ?thesis using False by simp
  qed
  have "a < length h'" using Cons.prems(1,7) T by simp
  moreover have "children (h' ! a) =
      map (\<lambda>x. (fst x, a_addr (snd x)))
        (map (\<lambda>x. (fst x, if fst x = c then a_modify f p (snd x) else snd x)) ks)"
    using cell Cons.prems(1) T kids by (auto simp: comp_def)
  moreover have "nvalue (h' ! a) = v" using cell Cons.prems(1) T by simp
  ultimately show ?case using kids T by auto
qed

lemma upd_kids_cases:
  assumes "distinct (map fst ks)" and "map_of ks c = Some S0" and "x \<in> set ks"
  shows "(x = (c, S0) \<and> (if fst x = c then g (snd x) else snd x) = g S0)
       \<or> (x \<noteq> (c, S0) \<and> fst x \<noteq> c \<and> (if fst x = c then g (snd x) else snd x) = snd x)"
  using distinct_keys_kid_unique[OF assms(1,2,3)] by (cases "fst x = c") auto

lemma wf_tree_kid:
  "wf_tree (ANode a ks v) \<Longrightarrow> x \<in> set ks \<Longrightarrow> wf_tree (snd x)"
  using distinct_concat_kid[of ks x] by (auto simp: wf_tree_def)

lemma a_modify_addrs_sub:
  "a_sub T p = Some S \<Longrightarrow> wf_tree T
     \<Longrightarrow> set (addrs (a_modify f p T)) \<subseteq> set (addrs T) \<union> set (addrs (f S))"
proof (induction p arbitrary: T)
  case Nil
  then show ?case by simp
next
  case (Cons c p)
  obtain a ks v where T: "T = ANode a ks v" by (cases T)
  from Cons.prems T obtain S0 where S0: "map_of ks c = Some S0" "a_sub S0 p = Some S"
    by (auto split: option.splits)
  have in_ks: "(c, S0) \<in> set ks" using S0(1) by (rule map_of_SomeD)
  have dk: "distinct (map fst ks)" using Cons.prems(2) T by (simp add: wf_tree_def)
  have wfS0: "wf_tree S0" using wf_tree_kid[of a ks v "(c, S0)"] Cons.prems(2) T in_ks by simp
  have IH: "set (addrs (a_modify f p S0)) \<subseteq> set (addrs S0) \<union> set (addrs (f S))"
    using Cons.IH[OF S0(2) wfS0] .
  have "set (addrs (if fst x = c then a_modify f p (snd x) else snd x))
           \<subseteq> set (addrs T) \<union> set (addrs (f S))" if x: "x \<in> set ks" for x
    using upd_kids_cases[OF dk S0(1) x, of "a_modify f p"] IH in_ks x T by force
  then show ?case using T by auto
qed

lemma distinct_concat_upd:
  assumes "distinct (map fst ks)" and "map_of ks c = Some S0"
    and "distinct (concat (map (\<lambda>x. addrs (snd x)) ks))"
    and "distinct (addrs S0')"
    and "\<And>x. x \<in> set ks \<Longrightarrow> x \<noteq> (c, S0) \<Longrightarrow> set (addrs (snd x)) \<inter> set (addrs S0') = {}"
  shows "distinct (concat (map (\<lambda>x. addrs (if fst x = c then S0' else snd x)) ks))"
  using assms
proof (induction ks)
  case Nil
  then show ?case by simp
next
  case (Cons k ks)
  show ?case
  proof (cases "fst k = c")
    case True
    then have k: "k = (c, S0)" using Cons.prems(2) by (cases k) auto
    have notin: "\<forall>x\<in>set ks. fst x \<noteq> c" using Cons.prems(1) True by (auto simp: image_iff)
    then have same: "map (\<lambda>x. addrs (if fst x = c then S0' else snd x)) ks
        = map (\<lambda>x. addrs (snd x)) ks" by (simp cong: map_cong)
    have "set (addrs S0') \<inter> set (concat (map (\<lambda>x. addrs (snd x)) ks)) = {}"
    proof -
      have "set (addrs (snd x)) \<inter> set (addrs S0') = {}" if "x \<in> set ks" for x
      proof -
        from that notin have "x \<noteq> (c, S0)" by auto
        moreover from that have "x \<in> set (k # ks)" by simp
        ultimately show ?thesis using Cons.prems(5) by blast
      qed
      then show ?thesis by auto
    qed
    then show ?thesis using True Cons.prems(3,4) by (simp add: same)
  next
    case False
    then have mo: "map_of ks c = Some S0" using Cons.prems(2) by (cases k) auto
    have IH: "distinct (concat (map (\<lambda>x. addrs (if fst x = c then S0' else snd x)) ks))"
      using Cons.IH[OF _ mo _ Cons.prems(4)] Cons.prems(1,3,5) by auto
    have kne: "k \<noteq> (c, S0)" using False by auto
    have d1: "set (addrs (snd k)) \<inter> set (addrs S0') = {}"
      using Cons.prems(5)[of k] kne by simp
    have "set (addrs (snd k)) \<inter> set (addrs (if fst x = c then S0' else snd x)) = {}"
      if "x \<in> set ks" for x
      using d1 Cons.prems(3) that by auto
    then have "set (addrs (snd k)) \<inter>
        set (concat (map (\<lambda>x. addrs (if fst x = c then S0' else snd x)) ks)) = {}"
      by auto
    then show ?thesis using False IH Cons.prems(3) by simp
  qed
qed

lemma a_modify_wf:
  assumes "wf_tree T" and "a_sub T p = Some S" and "wf_tree (f S)"
    and "set (addrs (f S)) \<inter> set (addrs T) \<subseteq> set (addrs S)"
  shows "wf_tree (a_modify f p T)"
  using assms
proof (induction p arbitrary: T)
  case Nil
  then show ?case by simp
next
  case (Cons c p)
  obtain a ks v where T: "T = ANode a ks v" by (cases T)
  from Cons.prems(2) T obtain S0 where S0: "map_of ks c = Some S0" "a_sub S0 p = Some S"
    by (auto split: option.splits)
  have in_ks: "(c, S0) \<in> set ks" using S0(1) by (rule map_of_SomeD)
  have dk: "distinct (map fst ks)" and dks: "\<forall>x\<in>set ks. distinct_keys (snd x)"
    and da: "a \<notin> set (concat (map (\<lambda>x. addrs (snd x)) ks))"
    and dc: "distinct (concat (map (\<lambda>x. addrs (snd x)) ks))"
    using Cons.prems(1) T by (auto simp: wf_tree_def)
  have wfS0: "wf_tree S0" using wf_tree_kid[of a ks v "(c, S0)"] Cons.prems(1) T in_ks by simp
  have sub: "set (addrs S) \<subseteq> set (addrs S0)" using a_sub_addrs[OF S0(2)] .
  have subT: "set (addrs S0) \<subseteq> set (addrs T)" using in_ks T by force
  have IH: "wf_tree (a_modify f p S0)"
    using Cons.IH[OF wfS0 S0(2) Cons.prems(3)] Cons.prems(4) subT by auto
  define S0' where "S0' = a_modify f p S0"
  have addrs': "set (addrs S0') \<subseteq> set (addrs S0) \<union> set (addrs (f S))"
    unfolding S0'_def using a_modify_addrs_sub[OF S0(2) wfS0] .
  have kids_eq: "map (\<lambda>x. (fst x, if fst x = c then a_modify f p (snd x) else snd x)) ks
      = map (\<lambda>x. (fst x, if fst x = c then S0' else snd x)) ks"
  proof (rule map_cong[OF refl])
    fix x assume "x \<in> set ks"
    from upd_kids_cases[OF dk S0(1) this, of "a_modify f p"]
    show "(fst x, if fst x = c then a_modify f p (snd x) else snd x)
        = (fst x, if fst x = c then S0' else snd x)"
      by (auto simp: S0'_def)
  qed
  have a_notin_fS: "a \<notin> set (addrs (f S))"
  proof
    assume "a \<in> set (addrs (f S))"
    then have "a \<in> set (addrs S)" using Cons.prems(4) T by auto
    then show False using sub in_ks da by fastforce
  qed
  have other_disj: "set (addrs (snd x)) \<inter> set (addrs S0') = {}"
    if x: "x \<in> set ks" and ne: "x \<noteq> (c, S0)" for x
  proof -
    have d0: "set (addrs (snd x)) \<inter> set (addrs S0) = {}"
      using kid_addrs_disjoint[OF dc x in_ks ne] by simp
    have "set (addrs (snd x)) \<inter> set (addrs (f S)) = {}"
    proof (rule ccontr)
      assume "set (addrs (snd x)) \<inter> set (addrs (f S)) \<noteq> {}"
      then obtain b where b: "b \<in> set (addrs (snd x))" "b \<in> set (addrs (f S))" by auto
      then have "b \<in> set (addrs T)" using x T by auto
      then have "b \<in> set (addrs S)" using b(2) Cons.prems(4) by auto
      then show False using d0 b(1) sub by auto
    qed
    then show ?thesis using d0 addrs' by auto
  qed
  have dist: "distinct (concat (map (\<lambda>x. addrs (if fst x = c then S0' else snd x)) ks))"
    using distinct_concat_upd[OF dk S0(1) dc _ other_disj] IH
    by (simp add: S0'_def wf_tree_def)
  have a_notin: "a \<notin> set (addrs (if fst x = c then S0' else snd x))" if x: "x \<in> set ks" for x
  proof (cases "fst x = c")
    case True
    have "a \<notin> set (addrs S0)" using da in_ks by fastforce
    then show ?thesis using True addrs' a_notin_fS by auto
  next
    case False
    then show ?thesis using da x by auto
  qed
  have dkeys: "distinct_keys (if fst x = c then S0' else snd x)" if x: "x \<in> set ks" for x
    using IH dks x by (auto simp: S0'_def wf_tree_def)
  show ?case
    unfolding T a_modify.simps kids_eq
    using dist a_notin dkeys dk by (auto simp: wf_tree_def comp_def)
qed

lemma a_path_addr [simp]: "a_addr (a_path n key T) = a_addr T"
  by (cases key; cases T) (auto split: option.splits)

lemma a_path_Some_modify:
  "map_of ks c = Some S \<Longrightarrow> a_path n (c # key) (ANode a ks v) = a_modify (a_path n key) [c] (ANode a ks v)"
  by simp

lemma insert_walk_sim:
  assumes "repr h T" and "wf_tree T"
  shows "case insert_walk h (a_addr T) key of
           (h', b) \<Rightarrow>
             repr h' (a_path (length h) key T)
           \<and> map_option a_addr (a_sub (a_path (length h) key T) key) = Some b
           \<and> length h \<le> length h'
           \<and> (\<forall>x < length h. x \<notin> set (addrs T) \<longrightarrow> h' ! x = h ! x)
           \<and> set (addrs (a_path (length h) key T)) \<subseteq> set (addrs T) \<union> {length h ..< length h'}
           \<and> wf_tree (a_path (length h) key T)"
  using assms
proof (induction key arbitrary: h T)
  case Nil
  then show ?case by simp
next
  case (Cons c key)
  obtain a ks v where T: "T = ANode a ks v" by (cases T)
  have a_lt: "a < length h" and cell: "children (h ! a) = map (\<lambda>x. (fst x, a_addr (snd x))) ks"
    and cellv: "nvalue (h ! a) = v"
    using Cons.prems(1) T by auto
  have lt: "\<And>x. x \<in> set (addrs T) \<Longrightarrow> x < length h" using repr_addrs_lt[OF Cons.prems(1)] .
  show ?case
  proof (cases "map_of ks c")
    case None
    define h1 where "h1 = h[a := (h ! a)\<lparr>children := children (h ! a) @ [(c, length h)]\<rparr>] @ [new_node]"
    define L :: "('a, 'b) atree" where "L = ANode (length h) [] Sentinel"
    obtain h' b where res: "insert_walk h1 (length h) key = (h', b)" by (cases "insert_walk h1 (length h) key")
    have walk: "insert_walk h (a_addr T) (c # key) = (h', b)"
      using None T cell res by (simp add: map_of_kid_addrs h1_def)
    have len1: "length h1 = Suc (length h)" by (simp add: h1_def)
    have reprL: "repr h1 L" by (simp add: L_def h1_def new_node_def nth_append)
    have wfL: "wf_tree L" by (simp add: L_def wf_tree_def)
    from Cons.IH[OF reprL wfL] res len1
    have IH: "repr h' (a_path (Suc (length h)) key L)"
      "map_option a_addr (a_sub (a_path (Suc (length h)) key L) key) = Some b"
      "Suc (length h) \<le> length h'"
      "\<forall>x < Suc (length h). x \<noteq> length h \<longrightarrow> h' ! x = h1 ! x"
      "set (addrs (a_path (Suc (length h)) key L)) \<subseteq> {length h} \<union> {Suc (length h) ..< length h'}"
      "wf_tree (a_path (Suc (length h)) key L)"
      by (auto simp: L_def)
    define P where "P = a_path (Suc (length h)) key L"
    have path: "a_path (length h) (c # key) T = ANode a (ks @ [(c, P)]) v"
      using None T by (simp add: P_def L_def)
    have agree: "h' ! x = h ! x" if "x < length h" "x \<noteq> a" for x
      using IH(4) that by (simp add: h1_def nth_append)
    have cell': "h' ! a = (h ! a)\<lparr>children := children (h ! a) @ [(c, length h)]\<rparr>"
      using IH(4) a_lt by (simp add: h1_def nth_append)
    have a_notin_kids: "a \<notin> set (addrs (snd x))" if "x \<in> set ks" for x
      using Cons.prems(2) T that by (auto simp: wf_tree_def)
    have old: "repr h' (snd x)" if x: "x \<in> set ks" for x
    proof (rule repr_frame[of h])
      show "repr h (snd x)" using Cons.prems(1) T x by auto
      show "length h \<le> length h'" using IH(3) by simp
      fix y assume y: "y \<in> set (addrs (snd x))"
      then have "y \<in> set (addrs T)" using x T by auto
      then have "y < length h" by (rule lt)
      moreover have "y \<noteq> a" using a_notin_kids[OF x] y by auto
      ultimately show "h' ! y = h ! y" by (rule agree)
    qed
    have Paddr: "a_addr P = length h" by (simp add: P_def L_def)
    have repr': "repr h' (ANode a (ks @ [(c, P)]) v)"
      using cell' cell cellv a_lt IH(1,3) old Paddr by (auto simp: P_def)
    have sub': "a_sub (ANode a (ks @ [(c, P)]) v) (c # key) = a_sub P key"
      using None by (simp add: map_of_append map_add_def)
    have addrsP: "set (addrs P) \<subseteq> {length h ..< length h'}"
      using IH(5) IH(3) by (fastforce simp: P_def)
    have fresh: "set (addrs P) \<inter> set (addrs T) = {}"
      using addrsP lt by fastforce
    have cnotin: "c \<notin> fst ` set ks" using None by (simp add: map_of_eq_None_iff)
    have wf': "wf_tree (ANode a (ks @ [(c, P)]) v)"
      using Cons.prems(2) T IH(6) fresh cnotin by (auto simp: wf_tree_def P_def)
    have frame: "\<forall>x < length h. x \<notin> set (addrs T) \<longrightarrow> h' ! x = h ! x"
      using agree T by auto
    show ?thesis
      unfolding walk path sub'
      using repr' IH(2,3) addrsP wf' frame T by (auto simp: P_def)
  next
    case (Some S0)
    have in_ks: "(c, S0) \<in> set ks" using Some by (rule map_of_SomeD)
    obtain h' b where res: "insert_walk h (a_addr S0) key = (h', b)" by (cases "insert_walk h (a_addr S0) key")
    have walk: "insert_walk h (a_addr T) (c # key) = (h', b)"
      using Some T cell res by (simp add: map_of_kid_addrs)
    have reprS0: "repr h S0" using Cons.prems(1) T in_ks by auto
    have wfS0: "wf_tree S0" using wf_tree_kid[of a ks v "(c, S0)"] Cons.prems(2) T in_ks by simp
    from Cons.IH[OF reprS0 wfS0] res
    have IH: "repr h' (a_path (length h) key S0)"
      "map_option a_addr (a_sub (a_path (length h) key S0) key) = Some b"
      "length h \<le> length h'"
      "\<forall>x < length h. x \<notin> set (addrs S0) \<longrightarrow> h' ! x = h ! x"
      "set (addrs (a_path (length h) key S0)) \<subseteq> set (addrs S0) \<union> {length h ..< length h'}"
      "wf_tree (a_path (length h) key S0)"
      by auto
    have path: "a_path (length h) (c # key) T = a_modify (a_path (length h) key) [c] T"
      using Some T by simp
    have subT: "a_sub T [c] = Some S0" using Some T by simp
    have repr': "repr h' (a_modify (a_path (length h) key) [c] T)"
    proof (rule a_modify_repr[where f = "a_path (length h) key" and S = S0 and h = h])
      show "a_addr (a_path (length h) key S0) = a_addr S0" by simp
      show "\<And>x. x \<in> set (addrs T) \<Longrightarrow> x \<notin> set (addrs S0) \<Longrightarrow> h' ! x = h ! x"
        using IH(4) lt by auto
    qed (use Cons.prems subT IH in auto)
    have inter: "set (addrs (a_path (length h) key S0)) \<inter> set (addrs T) \<subseteq> set (addrs S0)"
      using IH(5) lt by fastforce
    have wf': "wf_tree (a_modify (a_path (length h) key) [c] T)"
      using a_modify_wf[where f = "a_path (length h) key" and S = S0, OF Cons.prems(2) subT IH(6) inter] .
    have sub': "a_sub (a_modify (a_path (length h) key) [c] T) (c # key) = a_sub (a_path (length h) key S0) key"
      using a_sub_modify_same[where f = "a_path (length h) key" and r = key, OF subT] by simp
    have addrs': "set (addrs (a_modify (a_path (length h) key) [c] T)) \<subseteq> set (addrs T) \<union> {length h ..< length h'}"
    proof -
      have "set (addrs S0) \<subseteq> set (addrs T)" using kid_addrs_subset[OF in_ks, of a v] T by simp
      then show ?thesis
        using a_modify_addrs_sub[where f = "a_path (length h) key", OF subT Cons.prems(2)] IH(5) by blast
    qed
    have "set (addrs S0) \<subseteq> set (addrs T)" using kid_addrs_subset[OF in_ks, of a v] T by simp
    then have frame: "\<forall>x < length h. x \<notin> set (addrs T) \<longrightarrow> h' ! x = h ! x"
      using IH(4) by blast
    show ?thesis
      unfolding walk path sub'
      using repr' IH(2,3) addrs' wf' frame by simp
  qed
qed

lemma a_sub_append:
  "a_sub T (p @ r) = (case a_sub T p of None \<Rightarrow> None | Some S \<Rightarrow> a_sub S r)"
  by (induction p arbitrary: T) (auto split: option.splits)

lemma a_slot_Nil [simp]: "a_slot T [] = Some (a_val T)"
  by (simp add: a_slot_def)

lemma a_slot_Cons:
  "a_slot T (c # q) = (case map_of (a_kids T) c of None \<Rightarrow> None | Some S \<Rightarrow> a_slot S q)"
  by (simp add: a_slot_def split: option.splits)

lemma a_slot_path:
  fixes T :: "('c, 'v) atree"
  shows "a_slot (a_path n key T) q =
     (case a_slot T q of Some s \<Rightarrow> Some s | None \<Rightarrow> if prefix q key then Some Sentinel else None)"
proof (induction key arbitrary: T q n)
  case Nil
  then show ?case by (cases q) (auto split: option.splits)
next
  case (Cons c key)
  obtain a ks v where T: "T = ANode a ks v" by (cases T)
  show ?case
  proof (cases q)
    case Nil
    then show ?thesis using T by (simp split: option.splits)
  next
    case q: (Cons c' q')
    show ?thesis
    proof (cases "map_of ks c")
      case None
      define L :: "('c, 'v) atree" where "L = ANode n [] Sentinel"
      have P: "a_slot (a_path (Suc n) key L) q' =
          (if q' = [] then Some Sentinel else if prefix q' key then Some Sentinel else None)"
        unfolding Cons.IH by (cases q') (auto simp: L_def a_slot_Cons)
      show ?thesis
      proof (cases "c' = c")
        case True
        then show ?thesis using None T q P
          by (simp add: a_slot_Cons map_of_append map_add_def L_def)
      next
        case False
        then show ?thesis using None T q
          by (auto simp: a_slot_Cons map_of_append map_add_def split: option.splits)
      qed
    next
      case (Some S0)
      have kids: "map_of (a_kids (a_path n (c # key) T)) c' =
          map_option (\<lambda>X. if c' = c then a_path n key X else X) (map_of ks c')"
        using Some T map_of_upd_kids[of "\<lambda>k X. if k = c then a_path n key X else X" ks c']
        by simp
      show ?thesis
      proof (cases "c' = c")
        case True
        then show ?thesis using Some T q kids Cons.IH[of n S0 q']
          by (simp add: a_slot_Cons)
      next
        case False
        then show ?thesis using T q kids
          by (auto simp: a_slot_Cons option.map_ident split: option.splits)
      qed
    qed
  qed
qed

lemma a_lookup_path: "a_lookup (a_path n key T) q = a_lookup T q"
  by (auto simp: a_lookup_def a_slot_path split: option.splits slot.splits)

lemma a_count_path: "a_count (a_path n key T) = a_count T"
proof (induction key arbitrary: T n)
  case Nil
  then show ?case by simp
next
  case (Cons c key)
  obtain a ks v where T: "T = ANode a ks v" by (cases T)
  show ?case
  proof (cases "map_of ks c")
    case None
    then show ?thesis using T Cons.IH[of "Suc n" "ANode n [] Sentinel"] by simp
  next
    case (Some S0)
    have same: "map (\<lambda>x. a_count (if fst x = c then a_path n key (snd x) else snd x)) ks
        = map (\<lambda>x. a_count (snd x)) ks"
      using Cons.IH by (auto intro: map_cong)
    show ?thesis using Some T by (simp add: comp_def same)
  qed
qed

lemma a_sub_set_val:
  "r \<noteq> [] \<Longrightarrow> a_sub (a_set_val s S) r = a_sub S r"
  by (cases r) (auto simp: a_set_val_def)

lemma a_slot_set_val:
  assumes "a_sub T p = Some S"
  shows "a_slot (a_modify (a_set_val s) p T) q = (if q = p then Some s else a_slot T q)"
proof (cases "prefix p q")
  case True
  then obtain r where q: "q = p @ r" by (auto simp: prefix_def)
  show ?thesis
  proof (cases "r = []")
    case True
    then show ?thesis
      using a_sub_modify_same[where f = "a_set_val s" and r = "[]", OF assms] q
      by (simp add: a_slot_def a_set_val_def)
  next
    case False
    then show ?thesis
      using a_sub_modify_same[where f = "a_set_val s" and r = r, OF assms] q assms
      by (simp add: a_slot_def a_sub_set_val a_sub_append)
  qed
next
  case False
  then have "q \<noteq> p" by auto
  then show ?thesis using a_slot_modify_other[OF assms False] by simp
qed

lemma sum_list_upd_kid:
  fixes g :: "('c, 'v) atree \<Rightarrow> int"
  assumes "distinct (map fst ks)" and "map_of ks c = Some S0"
  shows "sum_list (map (\<lambda>x. g (if fst x = c then S0' else snd x)) ks)
       = sum_list (map (\<lambda>x. g (snd x)) ks) - g S0 + g S0'"
  using assms
proof (induction ks)
  case Nil
  then show ?case by simp
next
  case (Cons k ks)
  show ?case
  proof (cases "fst k = c")
    case True
    then have k: "snd k = S0" using Cons.prems(2) by (cases k) auto
    have notin: "\<forall>x\<in>set ks. fst x \<noteq> c" using Cons.prems(1) True by (auto simp: image_iff)
    then have same: "map (\<lambda>x. g (if fst x = c then S0' else snd x)) ks = map (\<lambda>x. g (snd x)) ks"
      by (simp cong: map_cong)
    show ?thesis using True k by (simp add: same)
  next
    case False
    then have mo: "map_of ks c = Some S0" using Cons.prems(2) by (cases k) auto
    show ?thesis using Cons.IH[OF _ mo] Cons.prems(1) False by simp
  qed
qed

lemma upd_kids_eq:
  assumes "distinct (map fst ks)" and "map_of ks c = Some S0"
  shows "map (\<lambda>x. (fst x, if fst x = c then g (snd x) else snd x)) ks
       = map (\<lambda>x. (fst x, if fst x = c then g S0 else snd x)) ks"
proof (rule map_cong[OF refl])
  fix x assume "x \<in> set ks"
  from upd_kids_cases[OF assms this, of g]
  show "(fst x, if fst x = c then g (snd x) else snd x) = (fst x, if fst x = c then g S0 else snd x)"
    by auto
qed

lemma a_count_modify:
  assumes "wf_tree T" and "a_sub T p = Some S"
  shows "a_count (a_modify f p T) = a_count T - a_count S + a_count (f S)"
  using assms
proof (induction p arbitrary: T)
  case Nil
  then show ?case by simp
next
  case (Cons c p)
  obtain a ks v where T: "T = ANode a ks v" by (cases T)
  from Cons.prems(2) T obtain S0 where S0: "map_of ks c = Some S0" "a_sub S0 p = Some S"
    by (auto split: option.splits)
  have in_ks: "(c, S0) \<in> set ks" using S0(1) by (rule map_of_SomeD)
  have dk: "distinct (map fst ks)" using Cons.prems(1) T by (simp add: wf_tree_def)
  have wfS0: "wf_tree S0" using wf_tree_kid[of a ks v "(c, S0)"] Cons.prems(1) T in_ks by simp
  have IH: "a_count (a_modify f p S0) = a_count S0 - a_count S + a_count (f S)"
    using Cons.IH[OF wfS0 S0(2)] .
  show ?case
    unfolding T a_modify.simps upd_kids_eq[OF dk S0(1)]
    using sum_list_upd_kid[OF dk S0(1), of a_count "a_modify f p S0"] IH
    by (simp add: comp_def)
qed

lemma pruned_modify:
  assumes "wf_tree T" and "pruned T" and "a_sub T p = Some S" and "pruned (f S)"
    and "p \<noteq> [] \<Longrightarrow> alive (f S)"
  shows "pruned (a_modify f p T)"
  using assms
proof (induction p arbitrary: T)
  case Nil
  then show ?case by simp
next
  case (Cons c p)
  obtain a ks v where T: "T = ANode a ks v" by (cases T)
  from Cons.prems(3) T obtain S0 where S0: "map_of ks c = Some S0" "a_sub S0 p = Some S"
    by (auto split: option.splits)
  have in_ks: "(c, S0) \<in> set ks" using S0(1) by (rule map_of_SomeD)
  have dk: "distinct (map fst ks)" using Cons.prems(1) T by (simp add: wf_tree_def)
  have wfS0: "wf_tree S0" using wf_tree_kid[of a ks v "(c, S0)"] Cons.prems(1) T in_ks by simp
  have prS0: "pruned S0" and alS0: "alive S0" using Cons.prems(2) T in_ks by auto
  have IH: "pruned (a_modify f p S0)"
  proof (rule Cons.IH[OF wfS0 prS0 S0(2) Cons.prems(4)])
    show "alive (f S)" using Cons.prems(5) by simp
  qed
  have al: "alive (a_modify f p S0)"
  proof (cases p)
    case Nil
    then show ?thesis using S0(2) Cons.prems(5) by simp
  next
    case (Cons c' p')
    obtain a0 ks0 v0 where S0eq: "S0 = ANode a0 ks0 v0" by (cases S0)
    have "ks0 \<noteq> []" using S0(2) Cons S0eq by (auto split: option.splits)
    then show ?thesis using Cons S0eq by (simp add: alive_def)
  qed
  have "alive (if fst x = c then a_modify f p S0 else snd x)
      \<and> pruned (if fst x = c then a_modify f p S0 else snd x)" if "x \<in> set ks" for x
    using IH al Cons.prems(2) T that by auto
  then show ?case
    unfolding T a_modify.simps upd_kids_eq[OF dk S0(1)] by auto
qed

lemma a_sub_path_key: "\<exists>S. a_sub (a_path n key T) key = Some S"
proof -
  have "a_slot (a_path n key T) key \<noteq> None"
    by (simp add: a_slot_path split: option.splits)
  then show ?thesis by (auto simp: a_slot_def)
qed

lemma a_insert_Nil: "a_insert n [] v T = a_set_val (Stored v) T"
  by (simp add: a_insert_def)

lemma a_insert_Cons:
  "a_insert n (c # key) v (ANode a ks w) =
     (case map_of ks c of
        None \<Rightarrow> ANode a (ks @ [(c, a_insert (Suc n) key v (ANode n [] Sentinel))]) w
      | Some S0 \<Rightarrow>
          ANode a (map (\<lambda>x. (fst x, if fst x = c then a_insert n key v (snd x) else snd x)) ks) w)"
proof (cases "map_of ks c")
  case None
  then have "\<forall>x\<in>set ks. fst x \<noteq> c" by (auto simp: map_of_eq_None_iff image_iff)
  then have "map (\<lambda>x. (fst x, if fst x = c then a_modify (a_set_val (Stored v)) key (snd x) else snd x)) ks = ks"
    by (simp add: map_idI)
  then show ?thesis using None by (simp add: a_insert_def)
next
  case (Some S0)
  then show ?thesis by (simp add: a_insert_def comp_def)
qed

lemma alive_a_insert: "alive (a_insert n key v T)"
proof (cases key)
  case Nil
  then show ?thesis by (simp add: a_insert_Nil a_set_val_def alive_def)
next
  case (Cons c key')
  obtain a ks w where T: "T = ANode a ks w" by (cases T)
  show ?thesis
  proof (cases "map_of ks c")
    case None
    then show ?thesis using Cons T by (simp add: a_insert_Cons alive_def)
  next
    case (Some S0)
    then have "ks \<noteq> []" by auto
    then show ?thesis using Cons T Some by (simp add: a_insert_Cons alive_def)
  qed
qed

lemma pruned_a_insert: "pruned T \<Longrightarrow> pruned (a_insert n key v T)"
proof (induction key arbitrary: T n)
  case Nil
  then show ?case by (cases T) (simp add: a_insert_Nil a_set_val_def)
next
  case (Cons c key)
  obtain a ks w where T: "T = ANode a ks w" by (cases T)
  show ?case
  proof (cases "map_of ks c")
    case None
    have "pruned (a_insert (Suc n) key v (ANode n [] Sentinel))"
      by (rule Cons.IH) simp
    then show ?thesis using None T Cons.prems by (simp add: a_insert_Cons alive_a_insert)
  next
    case (Some S0)
    have "alive (if fst x = c then a_insert n key v (snd x) else snd x)
        \<and> pruned (if fst x = c then a_insert n key v (snd x) else snd x)" if "x \<in> set ks" for x
      using Cons.IH[of "snd x" n] Cons.prems T that by (auto simp: alive_a_insert)
    then show ?thesis using Some T by (simp add: a_insert_Cons)
  qed
qed

lemma a_lookup_a_insert:
  "a_lookup (a_insert n key v T) q = (if q = key then Some v else a_lookup T q)"
proof -
  obtain S where S: "a_sub (a_path n key T) key = Some S" using a_sub_path_key by blast
  show ?thesis
    unfolding a_insert_def a_lookup_def a_slot_set_val[OF S]
    using a_lookup_path[of n key T q] by (simp add: a_lookup_def)
qed

lemma a_slot_path_key:
  "a_slot (a_path n key T) key = Some (case a_slot T key of Some s \<Rightarrow> s | None \<Rightarrow> Sentinel)"
  by (simp add: a_slot_path split: option.splits)

lemma a_lookup_None_iff:
  "a_lookup T key = None \<longleftrightarrow> (case a_slot T key of Some s \<Rightarrow> s | None \<Rightarrow> Sentinel) = Sentinel"
  by (auto simp: a_lookup_def split: option.splits slot.splits)

lemma insert_trie_sim:
  fixes T :: "('c, 'v) atree"
  assumes "repr h T" and "wf_tree T" and "a_addr T = t_root t"
    and "insert_trie h t key v = (h', t')"
  shows "repr h' (a_insert (length h) key v T)"
    and "wf_tree (a_insert (length h) key v T)"
    and "a_addr (a_insert (length h) key v T) = t_root t'"
    and "length h \<le> length h'"
    and "\<forall>x < length h. x \<notin> set (addrs T) \<longrightarrow> h' ! x = h ! x"
    and "set (addrs (a_insert (length h) key v T)) \<subseteq> set (addrs T) \<union> {length h ..< length h'}"
    and "t' = t\<lparr>t_count := t_count t + (if a_lookup T key = None then 1 else 0)\<rparr>"
proof -
  define T1 where "T1 = a_path (length h) key T"
  obtain h1 b where walk: "insert_walk h (a_addr T) key = (h1, b)"
    by (cases "insert_walk h (a_addr T) key")
  from insert_walk_sim[OF assms(1,2), of key] walk
  have W: "repr h1 T1" "map_option a_addr (a_sub T1 key) = Some b" "length h \<le> length h1"
    "\<forall>x < length h. x \<notin> set (addrs T) \<longrightarrow> h1 ! x = h ! x"
    "set (addrs T1) \<subseteq> set (addrs T) \<union> {length h ..< length h1}" "wf_tree T1"
    by (auto simp: T1_def)
  from W(2) obtain S1 where S1: "a_sub T1 key = Some S1" "a_addr S1 = b" by auto
  have h': "h' = h1[b := (h1 ! b)\<lparr>nvalue := Stored v\<rparr>]"
    and t': "t' = (if nvalue (h1 ! b) = Sentinel then t\<lparr>t_count := t_count t + 1\<rparr> else t)"
    using assms(3,4) walk by (auto simp: insert_trie_def)
  have reprS1: "repr h1 S1" using a_sub_repr[OF S1(1) W(1)] .
  have wfS1: "wf_tree S1" using a_sub_wf[OF S1(1) W(6)] .
  obtain a1 ks1 v1 where S1eq: "S1 = ANode a1 ks1 v1" by (cases S1)
  have b_lt: "b < length h1" using reprS1 S1(2) S1eq by simp
  have len: "length h' = length h1" by (simp add: h')
  have kid_notb: "b \<notin> set (addrs (snd x))" if "x \<in> set ks1" for x
    using wfS1 S1eq S1(2) that by (auto simp: wf_tree_def)
  have repr_set: "repr h' (a_set_val (Stored v) S1)"
  proof -
    have "repr h' (snd x)" if x: "x \<in> set ks1" for x
    proof (rule repr_frame[of h1])
      show "repr h1 (snd x)" using reprS1 S1eq x by auto
      show "length h1 \<le> length h'" using len by simp
      fix y assume "y \<in> set (addrs (snd x))"
      then have "y \<noteq> b" using kid_notb[OF x] by auto
      then show "h' ! y = h1 ! y" by (simp add: h')
    qed
    then show ?thesis using reprS1 S1eq S1(2) b_lt by (simp add: a_set_val_def h')
  qed
  show R: "repr h' (a_insert (length h) key v T)"
    unfolding a_insert_def T1_def[symmetric]
  proof (rule a_modify_repr[where f = "a_set_val (Stored v)" and S = S1 and h = h1])
    show "h' ! a = h1 ! a" if "a \<in> set (addrs T1)" "a \<notin> set (addrs S1)" for a
    proof -
      have "a \<noteq> b" using that(2) S1(2) a_addr_in_addrs[of S1] by auto
      then show ?thesis by (simp add: h')
    qed
  qed (use W S1 repr_set len in \<open>auto simp: a_set_val_def\<close>)
  have addrs_set: "addrs (a_set_val (Stored v) S1) = addrs S1"
    using S1eq by (simp add: a_set_val_def)
  have wf_set: "wf_tree (a_set_val (Stored v) S1)"
    using wfS1 S1eq by (simp add: a_set_val_def wf_tree_def)
  show "wf_tree (a_insert (length h) key v T)"
    unfolding a_insert_def T1_def[symmetric]
    by (rule a_modify_wf[where f = "a_set_val (Stored v)" and S = S1])
       (use W S1 wf_set addrs_set in auto)
  have "a_addr (a_modify (a_set_val (Stored v)) key T1) = a_addr T1"
    by (rule a_modify_addr[where S = S1]) (use S1 in \<open>auto simp: a_set_val_def\<close>)
  then show "a_addr (a_insert (length h) key v T) = t_root t'"
    using assms(3) t' by (simp add: a_insert_def T1_def)
  show "length h \<le> length h'" using W(3) len by simp
  have b_cases: "b \<in> set (addrs T1)" using a_sub_addrs[OF S1(1)] S1(2) a_addr_in_addrs[of S1] by auto
  show "\<forall>x < length h. x \<notin> set (addrs T) \<longrightarrow> h' ! x = h ! x"
  proof (intro allI impI)
    fix x assume x: "x < length h" "x \<notin> set (addrs T)"
    then have "x \<notin> set (addrs T1)" using W(5) by auto
    then have "x \<noteq> b" using b_cases by auto
    then show "h' ! x = h ! x" using W(4) x by (simp add: h')
  qed
  have "set (addrs (a_modify (a_set_val (Stored v)) key T1)) \<subseteq> set (addrs T1) \<union> set (addrs S1)"
    using a_modify_addrs_sub[where f = "a_set_val (Stored v)", OF S1(1) W(6)] addrs_set by simp
  moreover have "set (addrs S1) \<subseteq> set (addrs T1)" using a_sub_addrs[OF S1(1)] .
  ultimately show "set (addrs (a_insert (length h) key v T)) \<subseteq> set (addrs T) \<union> {length h ..< length h'}"
    using W(5) len by (auto simp: a_insert_def T1_def)
  have "nvalue (h1 ! b) = a_val S1" using reprS1 S1eq S1(2) by simp
  moreover have "a_slot T1 key = Some (a_val S1)" using S1(1) by (simp add: a_slot_def)
  ultimately have "nvalue (h1 ! b) = Sentinel \<longleftrightarrow> a_lookup T key = None"
    using a_slot_path_key[of "length h" key T] by (simp add: T1_def a_lookup_None_iff)
  then show "t' = t\<lparr>t_count := t_count t + (if a_lookup T key = None then 1 else 0)\<rparr>"
    using t' by simp
qed

lemma a_count_a_insert:
  assumes "wf_tree (a_path n key T)"
  shows "a_count (a_insert n key v T) = a_count T + (if a_lookup T key = None then 1 else 0)"
proof -
  obtain S where S: "a_sub (a_path n key T) key = Some S" using a_sub_path_key by blast
  have "a_slot (a_path n key T) key = Some (a_val S)" using S by (simp add: a_slot_def)
  then have v: "a_val S = Sentinel \<longleftrightarrow> a_lookup T key = None"
    using a_slot_path_key[of n key T] by (simp add: a_lookup_None_iff)
  obtain a ks w where Seq: "S = ANode a ks w" by (cases S)
  have "a_count (a_set_val (Stored v) S) = a_count S + (if a_val S = Sentinel then 1 else 0)"
    using Seq by (simp add: a_set_val_def)
  then show ?thesis
    unfolding a_insert_def a_count_modify[OF assms S] using v by (simp add: a_count_path)
qed

lemma repr_nvalue: "repr h S \<Longrightarrow> nvalue (h ! a_addr S) = a_val S"
  by (cases S) simp

lemma repr_children: "repr h S \<Longrightarrow> children (h ! a_addr S) = map (\<lambda>x. (fst x, a_addr (snd x))) (a_kids S)"
  by (cases S) simp

lemma get_node_repr:
  "repr h T \<Longrightarrow> a_addr T = t_root t \<Longrightarrow> get_node h t k = map_option a_addr (a_sub T k)"
  using get_node_from_repr[of h T k] by (simp add: get_node_def)

lemma contains_repr:
  assumes "repr h T" and "a_addr T = t_root t"
  shows "contains h t k \<longleftrightarrow> a_lookup T k \<noteq> None"
proof (cases "a_sub T k")
  case None
  then show ?thesis using get_node_repr[OF assms, of k]
    by (simp add: contains_def a_lookup_def a_slot_def)
next
  case (Some S)
  have "nvalue (h ! a_addr S) = a_val S" using repr_nvalue[OF a_sub_repr[OF Some assms(1)]] .
  then show ?thesis using get_node_repr[OF assms, of k] Some
    by (auto simp: contains_def a_lookup_def a_slot_def split: slot.splits)
qed

lemma getitem_repr:
  assumes "repr h T" and "a_addr T = t_root t"
  shows "getitem h t k = (case a_lookup T k of None \<Rightarrow> Inl KeyError | Some v \<Rightarrow> Inr v)"
proof (cases "a_sub T k")
  case None
  then show ?thesis using get_node_repr[OF assms, of k]
    by (simp add: getitem_def a_lookup_def a_slot_def)
next
  case (Some S)
  have "nvalue (h ! a_addr S) = a_val S" using repr_nvalue[OF a_sub_repr[OF Some assms(1)]] .
  then show ?thesis using get_node_repr[OF assms, of k] Some
    by (auto simp: getitem_def a_lookup_def a_slot_def split: slot.splits)
qed

lemma get_repr:
  assumes "repr h T" and "a_addr T = t_root t"
  shows "get h t k d = (case a_lookup T k of None \<Rightarrow> d | Some v \<Rightarrow> v)"
proof (cases "a_sub T k")
  case None
  then show ?thesis using get_node_repr[OF assms, of k]
    by (simp add: get_def a_lookup_def a_slot_def)
next
  case (Some S)
  have "nvalue (h ! a_addr S) = a_val S" using repr_nvalue[OF a_sub_repr[OF Some assms(1)]] .
  then show ?thesis using get_node_repr[OF assms, of k] Some
    by (auto simp: get_def a_lookup_def a_slot_def split: slot.splits)
qed

lemma remove_walk_sim:
  fixes R :: "('c, 'v) atree"
  assumes "repr h R"
  shows "a_sub R pre = Some T \<Longrightarrow>
     remove_walk h (a_addr T) (cut_addr R gcut) key =
       map_option (\<lambda>S. (a_addr S, cut_addr R (a_cutoff T pre gcut key))) (a_sub T key)"
proof (induction key arbitrary: T pre gcut)
  case Nil
  then show ?case by simp
next
  case (Cons c key)
  have reprT: "repr h T" using a_sub_repr[OF Cons.prems assms] .
  have val: "nvalue (h ! a_addr T) = a_val T" using repr_nvalue[OF reprT] .
  have ch: "children (h ! a_addr T) = map (\<lambda>x. (fst x, a_addr (snd x))) (a_kids T)"
    using repr_children[OF reprT] .
  show ?case
  proof (cases "map_of (a_kids T) c")
    case None
    then show ?thesis by (simp add: ch map_of_kid_addrs)
  next
    case (Some S0)
    have sub: "a_sub R (pre @ [c]) = Some S0"
      using Cons.prems Some by (simp add: a_sub_append)
    define g' where "g' = (if gcut = None \<or> elig T then Some (pre, c) else gcut)"
    have cut': "(if cut_addr R gcut = None \<or> nvalue (h ! a_addr T) \<noteq> Sentinel
                    \<or> length (children (h ! a_addr T)) \<ge> 2
                 then Some (a_addr T, c) else cut_addr R gcut) = cut_addr R g'"
      using Cons.prems by (auto simp: g'_def cut_addr_def elig_def val ch)
    have step: "remove_walk h (a_addr T) (cut_addr R gcut) (c # key) =
        remove_walk h (a_addr S0)
          (if cut_addr R gcut = None \<or> nvalue (h ! a_addr T) \<noteq> Sentinel
                    \<or> length (children (h ! a_addr T)) \<ge> 2
           then Some (a_addr T, c) else cut_addr R gcut) key"
      using Some by (simp add: ch map_of_kid_addrs)
    have rhs: "a_cutoff T pre gcut (c # key) = a_cutoff S0 (pre @ [c]) g' key"
      using Some by (simp add: g'_def)
    have rhs2: "a_sub T (c # key) = a_sub S0 key" using Some by simp
    show ?thesis unfolding step cut' rhs rhs2 by (rule Cons.IH[OF sub])
  qed
qed

lemma a_cutoff_cases:
  fixes T :: "('c, 'v) atree"
  assumes "a_sub T key = Some S"
  shows "(a_cutoff T pre gcut key = gcut
            \<and> (\<forall>k1 N. strict_prefix k1 key \<longrightarrow> a_sub T k1 = Some N \<longrightarrow> \<not> elig N)
            \<and> (key \<noteq> [] \<longrightarrow> gcut \<noteq> None))
       \<or> (\<exists>k1 c k2 N. key = k1 @ c # k2 \<and> a_cutoff T pre gcut key = Some (pre @ k1, c)
            \<and> a_sub T k1 = Some N \<and> (elig N \<or> (k1 = [] \<and> gcut = None))
            \<and> (\<forall>j N'. strict_prefix k1 j \<longrightarrow> strict_prefix j key \<longrightarrow> a_sub T j = Some N' \<longrightarrow> \<not> elig N'))"
  using assms
proof (induction key arbitrary: T pre gcut)
  case Nil
  then show ?case by simp
next
  case (Cons c key)
  from Cons.prems obtain S0 where S0: "map_of (a_kids T) c = Some S0" "a_sub S0 key = Some S"
    by (auto split: option.splits)
  define g' where "g' = (if gcut = None \<or> elig T then Some (pre, c) else gcut)"
  have unfold: "a_cutoff T pre gcut (c # key) = a_cutoff S0 (pre @ [c]) g' key"
    using S0(1) by (simp add: g'_def)
  have subT: "a_sub T (c # j) = a_sub S0 j" for j using S0(1) by simp
  from Cons.IH[OF S0(2), of "pre @ [c]" g']
  consider (same) "a_cutoff S0 (pre @ [c]) g' key = g'"
      "\<forall>k1 N. strict_prefix k1 key \<longrightarrow> a_sub S0 k1 = Some N \<longrightarrow> \<not> elig N"
    | (inner) k1 c' k2 N where "key = k1 @ c' # k2"
      "a_cutoff S0 (pre @ [c]) g' key = Some ((pre @ [c]) @ k1, c')"
      "a_sub S0 k1 = Some N" "elig N \<or> (k1 = [] \<and> g' = None)"
      "\<forall>j N'. strict_prefix k1 j \<longrightarrow> strict_prefix j key \<longrightarrow> a_sub S0 j = Some N' \<longrightarrow> \<not> elig N'"
    by blast
  then show ?case
  proof cases
    case same
    show ?thesis
    proof (cases "gcut = None \<or> elig T")
      case True
      then have g': "g' = Some (pre, c)" by (simp add: g'_def)
      have inter: "\<not> elig N'" if "strict_prefix [] j" "strict_prefix j (c # key)" "a_sub T j = Some N'" for j N'
      proof -
        from that(1,2) obtain j' where j: "j = c # j'" "strict_prefix j' key"
          by (cases j) (auto simp: strict_prefix_def)
        then show ?thesis using same(2) that(3) subT by auto
      qed
      have "c # key = [] @ c # key \<and> a_cutoff T pre gcut (c # key) = Some (pre @ [], c)
          \<and> a_sub T [] = Some T \<and> (elig T \<or> ([] = [] \<and> gcut = None))"
        using unfold same(1) g' True by auto
      then show ?thesis using inter by blast
    next
      case False
      then have g': "g' = gcut" by (simp add: g'_def)
      have "\<not> elig N" if "strict_prefix k1 (c # key)" "a_sub T k1 = Some N" for k1 N
      proof (cases k1)
        case Nil
        then show ?thesis using that(2) False by simp
      next
        case (Cons c1 k1')
        then have "c1 = c" "strict_prefix k1' key" using that(1) by (auto simp: strict_prefix_def)
        then show ?thesis using same(2) that(2) Cons subT by auto
      qed
      then show ?thesis using unfold same(1) g' False by auto
    qed
  next
    case inner
    have inter: "\<not> elig N'" if "strict_prefix (c # k1) j" "strict_prefix j (c # key)" "a_sub T j = Some N'" for j N'
    proof -
      from that(1,2) obtain j' where j: "j = c # j'" "strict_prefix k1 j'" "strict_prefix j' key"
        by (cases j) (auto simp: strict_prefix_def)
      then show ?thesis using inner(5) that(3) subT by auto
    qed
    have g'ne: "g' \<noteq> None" by (simp add: g'_def)
    have "c # key = (c # k1) @ c' # k2 \<and> a_cutoff T pre gcut (c # key) = Some (pre @ (c # k1), c')
        \<and> a_sub T (c # k1) = Some N \<and> elig N"
      using unfold inner(1,2,3,4) subT g'ne by auto
    then show ?thesis using inter by blast
  qed
qed

lemma single_kid:
  assumes "length ks < 2" and "map_of ks d = Some B"
  shows "ks = [(d, B)]"
proof -
  from assms(2) have "(d, B) \<in> set ks" by (rule map_of_SomeD)
  with assms(1) show ?thesis
    by (cases ks) (auto simp: length_Suc_conv)
qed

lemma chain_paths:
  fixes B :: "('c, 'v) atree"
  assumes "a_sub B k2 = Some S" and "a_kids S = []"
    and "\<And>j N'. strict_prefix j k2 \<Longrightarrow> a_sub B j = Some N' \<Longrightarrow> \<not> elig N'"
  shows "(\<forall>q X. a_sub B q = Some X \<longrightarrow> prefix q k2)
       \<and> a_count B = (if a_val S \<noteq> Sentinel then 1 else 0)"
  using assms
proof (induction k2 arbitrary: B)
  case Nil
  then have BS: "B = S" by simp
  have "q = []" if "a_sub B q = Some X" for q X
    using that Nil.prems(2) BS by (cases q) auto
  moreover have "a_count B = (if a_val S \<noteq> Sentinel then 1 else 0)"
    using Nil.prems(2) BS by (cases S) auto
  ultimately show ?case by auto
next
  case (Cons d k2)
  from Cons.prems(1) obtain B' where B': "map_of (a_kids B) d = Some B'" "a_sub B' k2 = Some S"
    by (auto split: option.splits)
  have ne: "\<not> elig B" using Cons.prems(3)[of "[]" B] by simp
  then have val: "a_val B = Sentinel" and len: "length (a_kids B) < 2"
    by (auto simp: elig_def)
  have kids: "a_kids B = [(d, B')]" using single_kid[OF len B'(1)] .
  have inner: "\<not> elig N'" if "strict_prefix j k2" "a_sub B' j = Some N'" for j N'
    using Cons.prems(3)[of "d # j" N'] that B'(1) by simp
  from Cons.IH[OF B'(2) Cons.prems(2) inner]
  have IH: "\<forall>q X. a_sub B' q = Some X \<longrightarrow> prefix q k2"
    "a_count B' = (if a_val S \<noteq> Sentinel then 1 else 0)" by auto
  have "prefix q (d # k2)" if "a_sub B q = Some X" for q X
  proof (cases q)
    case Nil
    then show ?thesis by simp
  next
    case (Cons d' q')
    then have "d' = d" "a_sub B' q' = Some X" using that kids by (auto split: if_splits)
    then show ?thesis using IH(1) Cons by auto
  qed
  moreover have "a_count B = (if a_val S \<noteq> Sentinel then 1 else 0)"
    using kids val IH(2) by (cases B) auto
  ultimately show ?case by auto
qed

lemma a_remove_cases:
  fixes T :: "('c, 'v) atree"
  assumes "a_sub T key = Some S"
  shows "((a_kids S \<noteq> [] \<or> key = []) \<and> a_remove T key = a_modify (a_set_val Sentinel) key T
          \<and> (a_kids S = [] \<longrightarrow> a_cutoff T [] None key = None))
       \<or> (a_kids S = [] \<and> (\<exists>k1 c k2 N B. key = k1 @ c # k2 \<and> a_sub T k1 = Some N
              \<and> map_of (a_kids N) c = Some B \<and> a_sub B k2 = Some S \<and> (k1 = [] \<or> elig N)
              \<and> (\<forall>q X. a_sub B q = Some X \<longrightarrow> prefix q k2)
              \<and> (\<forall>q X. strict_prefix q k2 \<longrightarrow> a_sub B q = Some X \<longrightarrow> \<not> elig X)
              \<and> a_count B = (if a_val S \<noteq> Sentinel then 1 else 0)
              \<and> a_cutoff T [] None key = Some (k1, c)
              \<and> a_remove T key = a_modify (a_del_kid c) k1 T))"
proof (cases "a_kids S \<noteq> []")
  case True
  then show ?thesis using assms by (simp add: a_remove_def)
next
  case nokids: False
  show ?thesis
  proof (cases "key = []")
    case True
    then show ?thesis using assms nokids by (simp add: a_remove_def)
  next
    case False
    from a_cutoff_cases[OF assms, of "[]" None] False
    obtain k1 c k2 N where C: "key = k1 @ c # k2" "a_cutoff T [] None key = Some (k1, c)"
      "a_sub T k1 = Some N" "elig N \<or> k1 = []"
      "\<forall>j N'. strict_prefix k1 j \<longrightarrow> strict_prefix j key \<longrightarrow> a_sub T j = Some N' \<longrightarrow> \<not> elig N'"
      by auto
    have "a_sub T (k1 @ [c] @ k2) = Some S" using assms C(1) by simp
    then obtain B where B: "map_of (a_kids N) c = Some B" "a_sub B k2 = Some S"
      using C(3) by (auto simp: a_sub_append split: option.splits)
    have subB: "a_sub T (k1 @ c # j) = a_sub B j" for j
      using C(3) B(1) by (simp add: a_sub_append)
    have inner: "\<not> elig N'" if "strict_prefix j k2" "a_sub B j = Some N'" for j N'
    proof -
      have "strict_prefix k1 (k1 @ c # j)" by (simp add: strict_prefix_def)
      moreover have "strict_prefix (k1 @ c # j) key" using that(1) C(1) by (auto simp: strict_prefix_def)
      moreover have "a_sub T (k1 @ c # j) = Some N'" using that(2) subB[of j] by simp
      ultimately show ?thesis using C(5) by blast
    qed
    from chain_paths[OF B(2) _ inner] nokids
    have ch: "\<forall>q X. a_sub B q = Some X \<longrightarrow> prefix q k2"
      "a_count B = (if a_val S \<noteq> Sentinel then 1 else 0)" by auto
    have rm: "a_remove T key = a_modify (a_del_kid c) k1 T"
      using assms nokids C(2) by (simp add: a_remove_def)
    show ?thesis using nokids C(1,2,3,4) B ch inner rm by blast
  qed
qed

lemma map_of_filter_key:
  "map_of (filter (\<lambda>x. fst x \<noteq> c) ks) c' = (if c' = c then None else map_of ks c')"
  by (induction ks) auto

lemma a_sub_del_kid_Cons:
  "a_sub (a_del_kid c N) (c' # r) = (if c' = c then None else a_sub N (c' # r))"
  by (simp add: a_del_kid_def map_of_filter_key)

lemma a_slot_del_kid:
  assumes "a_sub T k1 = Some N"
  shows "a_slot (a_modify (a_del_kid c) k1 T) q
       = (if prefix (k1 @ [c]) q then None else a_slot T q)"
proof (cases "prefix k1 q")
  case True
  then obtain r where q: "q = k1 @ r" by (auto simp: prefix_def)
  have sub: "a_sub (a_modify (a_del_kid c) k1 T) q = a_sub (a_del_kid c N) r"
    using a_sub_modify_same[where f = "a_del_kid c" and r = r, OF assms] q by simp
  have subT: "a_sub T q = a_sub N r" using assms q by (simp add: a_sub_append)
  show ?thesis
  proof (cases r)
    case Nil
    then show ?thesis using sub subT q by (simp add: a_slot_def a_del_kid_def)
  next
    case (Cons c' r')
    have "a_sub (a_del_kid c N) r = (if c' = c then None else a_sub N r)"
      unfolding Cons by (rule a_sub_del_kid_Cons)
    then show ?thesis using sub subT q Cons by (simp add: a_slot_def del: a_sub.simps)
  qed
next
  case False
  then have "\<not> prefix (k1 @ [c]) q" by (auto simp: prefix_def)
  then show ?thesis using a_slot_modify_other[OF assms False] by simp
qed

lemma a_lookup_a_remove:
  fixes T :: "('c, 'v) atree"
  shows "a_lookup (a_remove T key) q = (if q = key then None else a_lookup T q)"
proof (cases "a_sub T key")
  case None
  then show ?thesis by (simp add: a_remove_def a_lookup_def a_slot_def)
next
  case (Some S)
  from a_remove_cases[OF Some]
  consider (setv) "a_remove T key = a_modify (a_set_val Sentinel) key T"
    | (del) k1 c k2 N B where "key = k1 @ c # k2" "a_sub T k1 = Some N"
        "map_of (a_kids N) c = Some B" "a_sub B k2 = Some S"
        "\<forall>q X. a_sub B q = Some X \<longrightarrow> prefix q k2"
        "\<forall>q X. strict_prefix q k2 \<longrightarrow> a_sub B q = Some X \<longrightarrow> \<not> elig X"
        "a_remove T key = a_modify (a_del_kid c) k1 T"
    by blast
  then show ?thesis
  proof cases
    case setv
    then show ?thesis using a_slot_set_val[OF Some, of Sentinel q] by (simp add: a_lookup_def)
  next
    case del
    have slot: "a_slot (a_remove T key) q = (if prefix (k1 @ [c]) q then None else a_slot T q)"
      using a_slot_del_kid[OF del(2)] del(7) by simp
    show ?thesis
    proof (cases "prefix (k1 @ [c]) q")
      case True
      then obtain r where q: "q = k1 @ c # r" by (auto simp: prefix_def)
      have subq: "a_sub T q = a_sub B r" using del(2,3) q by (simp add: a_sub_append)
      have "a_lookup T q = None" if "q \<noteq> key"
      proof (cases "a_sub B r")
        case None
        then show ?thesis using subq by (simp add: a_lookup_def a_slot_def)
      next
        case (Some X)
        then have "prefix r k2" using del(5) by blast
        moreover have "r \<noteq> k2" using that q del(1) by auto
        ultimately have "strict_prefix r k2" by (simp add: strict_prefix_def)
        then have "\<not> elig X" using del(6) Some by blast
        then have "a_val X = Sentinel" by (simp add: elig_def)
        then show ?thesis using subq Some by (simp add: a_lookup_def a_slot_def)
      qed
      then show ?thesis using slot True by (auto simp: a_lookup_def)
    next
      case False
      have "q \<noteq> key" using False del(1) by auto
      then show ?thesis using slot False by (simp add: a_lookup_def)
    qed
  qed
qed

lemma a_count_del_kid:
  fixes N :: "('c, 'v) atree"
  assumes "distinct (map fst (a_kids N))" and "map_of (a_kids N) c = Some B"
  shows "a_count (a_del_kid c N) = a_count N - a_count B"
proof -
  have "sum_list (map (\<lambda>x. a_count (snd x)) (filter (\<lambda>x. fst x \<noteq> c) ks))
      = sum_list (map (\<lambda>x. a_count (snd x)) ks) - a_count B"
    if "distinct (map fst ks)" "map_of ks c = Some B" for ks :: "('c \<times> ('c, 'v) atree) list"
    using that
  proof (induction ks)
    case Nil
    then show ?case by simp
  next
    case (Cons k ks)
    show ?case
    proof (cases "fst k = c")
      case True
      then have k: "snd k = B" using Cons.prems(2) by (cases k) auto
      have "\<forall>x\<in>set ks. fst x \<noteq> c" using Cons.prems(1) True by (auto simp: image_iff)
      then have "filter (\<lambda>x. fst x \<noteq> c) ks = ks" by simp
      then show ?thesis using True k by simp
    next
      case False
      then have "map_of ks c = Some B" using Cons.prems(2) by (cases k) auto
      then show ?thesis using Cons.IH Cons.prems(1) False by simp
    qed
  qed
  from this[OF assms] show ?thesis by (cases N) (simp add: a_del_kid_def)
qed

lemma a_count_a_remove:
  fixes T :: "('c, 'v) atree"
  assumes "wf_tree T"
  shows "a_count (a_remove T key) = a_count T - (if a_lookup T key = None then 0 else 1)"
proof (cases "a_sub T key")
  case None
  then show ?thesis by (simp add: a_remove_def a_lookup_def a_slot_def)
next
  case (Some S)
  have lk: "a_lookup T key = None \<longleftrightarrow> a_val S = Sentinel"
    using Some by (auto simp: a_lookup_def a_slot_def split: slot.splits)
  from a_remove_cases[OF Some]
  consider (setv) "a_remove T key = a_modify (a_set_val Sentinel) key T"
    | (del) k1 c N B where "a_sub T k1 = Some N"
        "map_of (a_kids N) c = Some B"
        "a_count B = (if a_val S \<noteq> Sentinel then 1 else 0)"
        "a_remove T key = a_modify (a_del_kid c) k1 T"
    by blast
  then show ?thesis
  proof cases
    case setv
    have "a_count (a_set_val Sentinel S) = a_count S - (if a_val S = Sentinel then 0 else 1)"
      by (cases S) (simp add: a_set_val_def)
    then show ?thesis
      unfolding setv a_count_modify[OF assms Some] using lk by simp
  next
    case del
    have "distinct (map fst (a_kids N))"
      using a_sub_wf[OF del(1) assms] by (cases N) (simp add: wf_tree_def)
    from a_count_del_kid[OF this del(2)] show ?thesis
      unfolding del(4) a_count_modify[OF assms del(1)] using lk del(3) by simp
  qed
qed

lemma a_set_val_simps [simp]:
  "a_addr (a_set_val s S) = a_addr S" "a_kids (a_set_val s S) = a_kids S"
  "a_val (a_set_val s S) = s" "addrs (a_set_val s S) = addrs S"
  by (cases S; simp add: a_set_val_def)+

lemma a_del_kid_simps [simp]:
  "a_addr (a_del_kid c S) = a_addr S" "a_kids (a_del_kid c S) = filter (\<lambda>x. fst x \<noteq> c) (a_kids S)"
  "a_val (a_del_kid c S) = a_val S"
  by (simp_all add: a_del_kid_def)

lemma wf_tree_set_val: "wf_tree S \<Longrightarrow> wf_tree (a_set_val s S)"
  by (cases S) (simp add: a_set_val_def wf_tree_def)

lemma pruned_set_val: "pruned S \<Longrightarrow> pruned (a_set_val s S)"
  by (cases S) (simp add: a_set_val_def)

lemma distinct_concat_filter:
  "distinct (concat (map f ks)) \<Longrightarrow> distinct (concat (map f (filter P ks)))"
  by (induction ks) auto

lemma addrs_del_kid: "set (addrs (a_del_kid c S)) \<subseteq> set (addrs S)"
  by (cases S) (auto simp: a_del_kid_def)

lemma wf_tree_del_kid: "wf_tree S \<Longrightarrow> wf_tree (a_del_kid c S)"
  by (cases S) (auto simp: a_del_kid_def wf_tree_def distinct_concat_filter distinct_map_filter)

lemma pruned_del_kid: "pruned S \<Longrightarrow> pruned (a_del_kid c S)"
  by (cases S) (simp add: a_del_kid_def)

lemma filter_key_length:
  "distinct (map fst ks) \<Longrightarrow> length ks \<le> Suc (length (filter (\<lambda>x. fst x \<noteq> c) ks))"
proof (induction ks)
  case Nil
  then show ?case by simp
next
  case (Cons k ks)
  show ?case
  proof (cases "fst k = c")
    case True
    then have "\<forall>x\<in>set ks. fst x \<noteq> c" using Cons.prems by (auto simp: image_iff)
    then have "filter (\<lambda>x. fst x \<noteq> c) ks = ks" by simp
    then show ?thesis using True by simp
  next
    case False
    then show ?thesis using Cons by simp
  qed
qed

lemma alive_del_kid:
  assumes "elig N" and "distinct (map fst (a_kids N))"
  shows "alive (a_del_kid c N)"
proof (cases "a_val N = Sentinel")
  case True
  then have "2 \<le> length (a_kids N)" using assms(1) by (simp add: elig_def)
  then have "1 \<le> length (filter (\<lambda>x. fst x \<noteq> c) (a_kids N))"
    using filter_key_length[OF assms(2), of c] by simp
  then show ?thesis by (auto simp: alive_def)
next
  case False
  then show ?thesis by (simp add: alive_def)
qed

lemma a_remove_shape:
  fixes T :: "('c, 'v) atree"
  assumes "wf_tree T"
  shows "wf_tree (a_remove T key)" and "set (addrs (a_remove T key)) \<subseteq> set (addrs T)"
    and "a_addr (a_remove T key) = a_addr T"
proof -
  have "wf_tree (a_remove T key) \<and> set (addrs (a_remove T key)) \<subseteq> set (addrs T)
      \<and> a_addr (a_remove T key) = a_addr T"
  proof (cases "a_sub T key")
    case None
    then show ?thesis using assms by (simp add: a_remove_def)
  next
    case (Some S)
    from a_remove_cases[OF Some]
    consider (setv) "a_remove T key = a_modify (a_set_val Sentinel) key T"
      | (del) k1 c N where "a_sub T k1 = Some N" "a_remove T key = a_modify (a_del_kid c) k1 T"
      by blast
    then show ?thesis
    proof cases
      case setv
      have wfS: "wf_tree S" using a_sub_wf[OF Some assms] .
      have "wf_tree (a_modify (a_set_val Sentinel) key T)"
        by (rule a_modify_wf[where S = S]) (use assms Some wf_tree_set_val[OF wfS] in auto)
      moreover have "set (addrs (a_modify (a_set_val Sentinel) key T)) \<subseteq> set (addrs T)"
        using a_modify_addrs_sub[where f = "a_set_val Sentinel", OF Some assms] a_sub_addrs[OF Some]
        by auto
      moreover have "a_addr (a_modify (a_set_val Sentinel) key T) = a_addr T"
        by (rule a_modify_addr[where S = S]) (use Some in auto)
      ultimately show ?thesis using setv by simp
    next
      case del
      have wfN: "wf_tree N" using a_sub_wf[OF del(1) assms] .
      have "wf_tree (a_modify (a_del_kid c) k1 T)"
        by (rule a_modify_wf[where S = N])
           (use assms del(1) wf_tree_del_kid[OF wfN] addrs_del_kid[of c N] in auto)
      moreover have "set (addrs (a_modify (a_del_kid c) k1 T)) \<subseteq> set (addrs T)"
        using a_modify_addrs_sub[where f = "a_del_kid c", OF del(1) assms] a_sub_addrs[OF del(1)]
          addrs_del_kid[of c N] by auto
      moreover have "a_addr (a_modify (a_del_kid c) k1 T) = a_addr T"
        by (rule a_modify_addr[where S = N]) (use del(1) in auto)
      ultimately show ?thesis using del(2) by simp
    qed
  qed
  then show "wf_tree (a_remove T key)" and "set (addrs (a_remove T key)) \<subseteq> set (addrs T)"
    and "a_addr (a_remove T key) = a_addr T" by auto
qed

lemma pruned_a_remove:
  fixes T :: "('c, 'v) atree"
  assumes "wf_tree T" and "pruned T"
  shows "pruned (a_remove T key)"
proof (cases "a_sub T key")
  case None
  then show ?thesis using assms by (simp add: a_remove_def)
next
  case (Some S)
  have prS: "pruned R" if "a_sub T p = Some R" for p R
    using that assms(2)
  proof (induction p arbitrary: T)
    case Nil
    then show ?case by simp
  next
    case (Cons c p)
    obtain a ks v where T: "T = ANode a ks v" by (cases T)
    from Cons.prems(1) T obtain S' where S': "map_of ks c = Some S'" "a_sub S' p = Some R"
      by (auto split: option.splits)
    then have "(c, S') \<in> set ks" by (auto dest: map_of_SomeD)
    then have "pruned S'" using Cons.prems(2) T by auto
    then show ?case using Cons.IH[OF S'(2)] by simp
  qed
  from a_remove_cases[OF Some]
  consider (setv) "a_kids S \<noteq> [] \<or> key = []" "a_remove T key = a_modify (a_set_val Sentinel) key T"
    | (del) k1 c N where "a_sub T k1 = Some N" "k1 = [] \<or> elig N"
        "a_remove T key = a_modify (a_del_kid c) k1 T"
    by blast
  then show ?thesis
  proof cases
    case setv
    show ?thesis unfolding setv(2)
    proof (rule pruned_modify[OF assms Some])
      show "pruned (a_set_val Sentinel S)" using pruned_set_val[OF prS[OF Some]] .
      show "alive (a_set_val Sentinel S)" if "key \<noteq> []"
        using that setv(1) by (simp add: alive_def)
    qed
  next
    case del
    have dk: "distinct (map fst (a_kids N))"
      using a_sub_wf[OF del(1) assms(1)] by (cases N) (simp add: wf_tree_def)
    show ?thesis unfolding del(3)
    proof (rule pruned_modify[OF assms del(1)])
      show "pruned (a_del_kid c N)" using pruned_del_kid[OF prS[OF del(1)]] .
      show "alive (a_del_kid c N)" if "k1 \<noteq> []"
        using that del(2) alive_del_kid[OF _ dk] by simp
    qed
  qed
qed

lemma wf_tree_root_notin_kids:
  "wf_tree S \<Longrightarrow> x \<in> set (a_kids S) \<Longrightarrow> a_addr S \<notin> set (addrs (snd x))"
  by (cases S) (auto simp: wf_tree_def)

lemma repr_kid: "repr h S \<Longrightarrow> x \<in> set (a_kids S) \<Longrightarrow> repr h (snd x)"
  by (cases S) auto

lemma heap_set_val_repr:
  fixes T :: "('c, 'v) atree"
  assumes "repr h T" and "wf_tree T" and "a_sub T key = Some S"
  shows "repr (h[a_addr S := (h ! a_addr S)\<lparr>nvalue := s\<rparr>]) (a_modify (a_set_val s) key T)"
proof -
  define h' where "h' = h[a_addr S := (h ! a_addr S)\<lparr>nvalue := s\<rparr>]"
  have reprS: "repr h S" using a_sub_repr[OF assms(3,1)] .
  have wfS: "wf_tree S" using a_sub_wf[OF assms(3,2)] .
  have lt: "a_addr S < length h" using repr_addrs_lt[OF reprS, of "a_addr S"] by simp
  have "repr h' (snd x)" if x: "x \<in> set (a_kids S)" for x
  proof (rule repr_frame[of h])
    show "repr h (snd x)" using repr_kid[OF reprS x] .
    show "length h \<le> length h'" by (simp add: h'_def)
    fix y assume "y \<in> set (addrs (snd x))"
    then have "y \<noteq> a_addr S" using wf_tree_root_notin_kids[OF wfS x] by auto
    then show "h' ! y = h ! y" by (simp add: h'_def)
  qed
  then have repr_set: "repr h' (a_set_val s S)"
    using reprS lt by (cases S) (simp add: a_set_val_def h'_def)
  have "repr h' (a_modify (a_set_val s) key T)"
  proof (rule a_modify_repr[where f = "a_set_val s" and S = S and h = h])
    show "h' ! a = h ! a" if "a \<in> set (addrs T)" "a \<notin> set (addrs S)" for a
    proof -
      have "a \<noteq> a_addr S" using that(2) a_addr_in_addrs[of S] by auto
      then show ?thesis by (simp add: h'_def)
    qed
  qed (use assms repr_set in \<open>auto simp: h'_def\<close>)
  then show ?thesis by (simp add: h'_def)
qed

lemma heap_del_kid_repr:
  fixes T :: "('c, 'v) atree"
  assumes "repr h T" and "wf_tree T" and "a_sub T k1 = Some N" and "map_of (a_kids N) c = Some B"
    and "\<And>x. x \<notin> set (addrs B) \<Longrightarrow> h1 ! x = h ! x" and "length h1 = length h"
  shows "repr (h1[a_addr N := (h1 ! a_addr N)
                  \<lparr>children := filter (\<lambda>e. fst e \<noteq> c) (children (h1 ! a_addr N))\<rparr>])
              (a_modify (a_del_kid c) k1 T)"
proof -
  define h' where "h' = h1[a_addr N := (h1 ! a_addr N)
                  \<lparr>children := filter (\<lambda>e. fst e \<noteq> c) (children (h1 ! a_addr N))\<rparr>]"
  have reprN: "repr h N" using a_sub_repr[OF assms(3,1)] .
  have wfN: "wf_tree N" using a_sub_wf[OF assms(3,2)] .
  have lt: "a_addr N < length h" using repr_addrs_lt[OF reprN, of "a_addr N"] by simp
  have inB: "(c, B) \<in> set (a_kids N)" using assms(4) by (rule map_of_SomeD)
  have N_notin_B: "a_addr N \<notin> set (addrs B)" using wf_tree_root_notin_kids[OF wfN inB] by simp
  have cellN: "h1 ! a_addr N = h ! a_addr N" using assms(5)[OF N_notin_B] .
  have dc: "distinct (concat (map (\<lambda>x. addrs (snd x)) (a_kids N)))"
    using wfN by (cases N) (simp add: wf_tree_def)
  have "repr h' (snd x)" if x: "x \<in> set (a_kids N)" and ne: "fst x \<noteq> c" for x
  proof (rule repr_frame[of h])
    show "repr h (snd x)" using repr_kid[OF reprN x] .
    show "length h \<le> length h'" by (simp add: h'_def assms(6))
    fix y assume y: "y \<in> set (addrs (snd x))"
    then have "y \<noteq> a_addr N" using wf_tree_root_notin_kids[OF wfN x] by auto
    moreover have "y \<notin> set (addrs B)"
    proof -
      have "x \<noteq> (c, B)" using ne by auto
      from kid_addrs_disjoint[OF dc x inB this] y show ?thesis by auto
    qed
    ultimately show "h' ! y = h ! y" using assms(5) by (simp add: h'_def)
  qed
  moreover have "children (h ! a_addr N) = map (\<lambda>x. (fst x, a_addr (snd x))) (a_kids N)"
    using repr_children[OF reprN] .
  moreover have "nvalue (h ! a_addr N) = a_val N" using repr_nvalue[OF reprN] .
  ultimately have repr_del: "repr h' (a_del_kid c N)"
    using lt cellN by (simp add: a_del_kid_def h'_def assms(6) filter_map comp_def)
  have "repr h' (a_modify (a_del_kid c) k1 T)"
  proof (rule a_modify_repr[where f = "a_del_kid c" and S = N and h = h])
    show "h' ! a = h ! a" if "a \<in> set (addrs T)" "a \<notin> set (addrs N)" for a
    proof -
      have "a \<noteq> a_addr N" using that(2) a_addr_in_addrs[of N] by auto
      moreover have "a \<notin> set (addrs B)" using that(2) inB by (cases N) force
      ultimately show ?thesis using assms(5) by (simp add: h'_def)
    qed
  qed (use assms repr_del in \<open>auto simp: h'_def\<close>)
  then show ?thesis by (simp add: h'_def)
qed

lemma remove_trie_absent:
  fixes T :: "('c, 'v) atree"
  assumes "repr h T" and "a_addr T = t_root t" and "a_lookup T key = None"
  shows "remove_trie h t key = (Some KeyError, h, t)"
proof -
  have walk: "remove_walk h (t_root t) None key =
      map_option (\<lambda>S. (a_addr S, cut_addr T (a_cutoff T [] None key))) (a_sub T key)"
    using remove_walk_sim[OF assms(1), of "[]" T None key] assms(2) by (simp add: cut_addr_def)
  show ?thesis
  proof (cases "a_sub T key")
    case None
    then show ?thesis using walk by (simp add: remove_trie_def)
  next
    case (Some S)
    have "nvalue (h ! a_addr S) = a_val S" using repr_nvalue[OF a_sub_repr[OF Some assms(1)]] .
    moreover have "a_val S = Sentinel"
      using assms(3) Some by (auto simp: a_lookup_def a_slot_def split: slot.splits)
    ultimately show ?thesis using walk Some by (simp add: remove_trie_def)
  qed
qed

lemma remove_trie_present:
  fixes T :: "('c, 'v) atree"
  assumes "repr h T" and "wf_tree T" and "a_addr T = t_root t" and "a_lookup T key \<noteq> None"
  shows "\<exists>h'. remove_trie h t key = (None, h', t\<lparr>t_count := t_count t - 1\<rparr>)
            \<and> repr h' (a_remove T key) \<and> length h' = length h
            \<and> (\<forall>x. x \<notin> set (addrs T) \<longrightarrow> h' ! x = h ! x)"
proof -
  from assms(4) obtain S where S: "a_sub T key = Some S" and occ: "a_val S \<noteq> Sentinel"
    by (auto simp: a_lookup_def a_slot_def split: option.splits slot.splits)
  have walk: "remove_walk h (t_root t) None key =
      Some (a_addr S, cut_addr T (a_cutoff T [] None key))"
    using remove_walk_sim[OF assms(1), of "[]" T None key] assms(3) S by (simp add: cut_addr_def)
  have reprS: "repr h S" using a_sub_repr[OF S assms(1)] .
  have val: "nvalue (h ! a_addr S) \<noteq> Sentinel" using repr_nvalue[OF reprS] occ by simp
  have ltS: "a_addr S < length h" using repr_addrs_lt[OF reprS, of "a_addr S"] by simp
  define h1 where "h1 = h[a_addr S := (h ! a_addr S)\<lparr>nvalue := Sentinel\<rparr>]"
  have ch1: "children (h1 ! a_addr S) = map (\<lambda>x. (fst x, a_addr (snd x))) (a_kids S)"
    using repr_children[OF reprS] ltS by (simp add: h1_def)
  have kids_iff: "children (h1 ! a_addr S) \<noteq> [] \<longleftrightarrow> a_kids S \<noteq> []" using ch1 by simp
  have S_in_T: "a_addr S \<in> set (addrs T)" using a_sub_addrs[OF S] a_addr_in_addrs[of S] by auto
  have frame1: "h1 ! x = h ! x" if "x \<notin> set (addrs T)" for x
  proof -
    have "x \<noteq> a_addr S" using that S_in_T by auto
    then show ?thesis by (simp add: h1_def)
  qed
  from a_remove_cases[OF S]
  consider (setv) "a_kids S \<noteq> [] \<or> key = []" "a_remove T key = a_modify (a_set_val Sentinel) key T"
      "a_kids S = [] \<longrightarrow> a_cutoff T [] None key = None"
    | (del) k1 c k2 N B where "a_kids S = []" "key = k1 @ c # k2" "a_sub T k1 = Some N"
        "map_of (a_kids N) c = Some B" "a_sub B k2 = Some S"
        "a_cutoff T [] None key = Some (k1, c)"
        "a_remove T key = a_modify (a_del_kid c) k1 T"
    by blast
  then show ?thesis
  proof cases
    case setv
    have res: "remove_trie h t key = (None, h1, t\<lparr>t_count := t_count t - 1\<rparr>)"
    proof (cases "a_cutoff T [] None key")
      case None
      then show ?thesis using walk val by (simp add: remove_trie_def cut_addr_def h1_def)
    next
      case (Some pc)
      then have "a_kids S \<noteq> []" using setv(3) by auto
      then have "children (h1 ! a_addr S) \<noteq> []" using kids_iff by simp
      then show ?thesis using walk val Some
        by (cases pc) (simp add: remove_trie_def cut_addr_def h1_def[symmetric] Let_def)
    qed
    have "repr h1 (a_remove T key)"
      unfolding setv(2) h1_def by (rule heap_set_val_repr[OF assms(1,2) S])
    then show ?thesis using res frame1 by (auto simp: h1_def)
  next
    case del
    have reprN: "repr h N" using a_sub_repr[OF del(3) assms(1)] .
    have wfN: "wf_tree N" using a_sub_wf[OF del(3) assms(2)] .
    have inB: "(c, B) \<in> set (a_kids N)" using del(4) by (rule map_of_SomeD)
    have S_in_B: "a_addr S \<in> set (addrs B)" using a_sub_addrs[OF del(5)] a_addr_in_addrs[of S] by auto
    have N_notin_B: "a_addr N \<notin> set (addrs B)" using wf_tree_root_notin_kids[OF wfN inB] by simp
    then have neq: "a_addr N \<noteq> a_addr S" using S_in_B by auto
    have cellN: "h1 ! a_addr N = h ! a_addr N" using neq by (simp add: h1_def)
    have chN: "children (h1 ! a_addr N) = map (\<lambda>x. (fst x, a_addr (snd x))) (a_kids N)"
      using repr_children[OF reprN] cellN by simp
    have present: "map_of (children (h1 ! a_addr N)) c \<noteq> None"
      using chN del(4) by (simp add: map_of_kid_addrs)
    define h2 where "h2 = h1[a_addr N := (h1 ! a_addr N)
                  \<lparr>children := filter (\<lambda>e. fst e \<noteq> c) (children (h1 ! a_addr N))\<rparr>]"
    have cut: "cut_addr T (a_cutoff T [] None key) = Some (a_addr N, c)"
      using del(6,3) by (simp add: cut_addr_def)
    have nokids: "children (h1 ! a_addr S) = []" using kids_iff del(1) by simp
    have res: "remove_trie h t key = (None, h2, t\<lparr>t_count := t_count t - 1\<rparr>)"
      using walk val cut nokids present
      by (simp add: remove_trie_def h1_def[symmetric] h2_def[symmetric] Let_def)
    have "repr h2 (a_remove T key)"
      unfolding del(7) h2_def
    proof (rule heap_del_kid_repr[OF assms(1,2) del(3,4)])
      show "h1 ! x = h ! x" if "x \<notin> set (addrs B)" for x
      proof -
        have "x \<noteq> a_addr S" using that S_in_B by auto
        then show ?thesis by (simp add: h1_def)
      qed
      show "length h1 = length h" by (simp add: h1_def)
    qed
    moreover have "h2 ! x = h ! x" if "x \<notin> set (addrs T)" for x
    proof -
      have "a_addr N \<in> set (addrs T)" using a_sub_addrs[OF del(3)] a_addr_in_addrs[of N] by auto
      then have "x \<noteq> a_addr N" using that by auto
      then show ?thesis using frame1[OF that] by (simp add: h2_def)
    qed
    ultimately show ?thesis using res by (auto simp: h2_def h1_def)
  qed
qed

lemma count_subtree_loop_tree:
  fixes T :: "('c, 'v) atree"
  shows "repr h T \<Longrightarrow>
    count_subtree_loop h (a_addr T # rest) cnt = count_subtree_loop h rest (cnt + a_count T)"
proof (induction T arbitrary: rest cnt)
  case (ANode a ks v)
  have kids: "count_subtree_loop h (rev (map (\<lambda>x. a_addr (snd x)) xs) @ rest') n
      = count_subtree_loop h rest' (n + sum_list (map (\<lambda>x. a_count (snd x)) xs))"
    if "set xs \<subseteq> set ks" for xs rest' n
    using that
  proof (induction xs arbitrary: rest' n)
    case Nil
    then show ?case by simp
  next
    case (Cons x xs)
    have x: "x \<in> set ks" using Cons.prems by simp
    then have rx: "repr h (snd x)" using ANode.prems by auto
    have "count_subtree_loop h (rev (map (\<lambda>x. a_addr (snd x)) (x # xs)) @ rest') n
        = count_subtree_loop h (rev (map (\<lambda>x. a_addr (snd x)) xs) @ (a_addr (snd x) # rest')) n"
      by simp
    also have "\<dots> = count_subtree_loop h (a_addr (snd x) # rest')
        (n + sum_list (map (\<lambda>x. a_count (snd x)) xs))"
      using Cons.IH Cons.prems by simp
    also have "\<dots> = count_subtree_loop h rest'
        (n + sum_list (map (\<lambda>x. a_count (snd x)) xs) + a_count (snd x))"
      using ANode.IH[of x "snd x", OF x _ rx] by (cases x) (simp add: snds.simps)
    finally show ?case by (simp add: add.commute add.left_commute)
  qed
  have "count_subtree_loop h (a # rest) cnt
      = count_subtree_loop h (rev (map snd (children (h ! a))) @ rest)
          (if nvalue (h ! a) \<noteq> Sentinel then cnt + 1 else cnt)"
    by (subst count_subtree_loop.simps) simp
  also have "\<dots> = count_subtree_loop h (rev (map (\<lambda>x. a_addr (snd x)) ks) @ rest)
          (if v \<noteq> Sentinel then cnt + 1 else cnt)"
    using ANode.prems by (simp add: comp_def)
  also have "\<dots> = count_subtree_loop h rest
          ((if v \<noteq> Sentinel then cnt + 1 else cnt) + sum_list (map (\<lambda>x. a_count (snd x)) ks))"
    using kids[of ks] by simp
  finally show ?case by (simp add: add.assoc)
qed

lemma count_repr:
  fixes T :: "('c, 'v) atree"
  assumes "repr h T" and "a_addr T = t_root t"
  shows "count h t = Some (a_count T)"
proof -
  have "count_subtree_loop h [a_addr T] 0 = count_subtree_loop h [] (0 + a_count T)"
    using count_subtree_loop_tree[OF assms(1)] .
  also have "\<dots> = Some (a_count T)" by (subst count_subtree_loop.simps) simp
  finally show ?thesis using assms(2) by (simp add: count_def count_subtree_def)
qed

lemma map_of_rev_distinct:
  "distinct (map fst xs) \<Longrightarrow> map_of (rev xs) = map_of xs"
  by (rule iffD2[OF map_of_inject_set]) (simp_all add: rev_map[symmetric])

lemma heap_add_leaf:
  fixes ks :: "('c \<times> ('c, 'v) atree) list"
  assumes "repr h (ANode a ks v)" and "wf_tree (ANode a ks v)" and "map_of ks c = None"
  defines "h1 \<equiv> h[a := (h ! a)\<lparr>children := children (h ! a) @ [(c, length h)]\<rparr>] @ [new_node]"
  shows "repr h1 (ANode a (ks @ [(c, ANode (length h) [] Sentinel)]) v)"
    and "wf_tree (ANode a (ks @ [(c, ANode (length h) [] Sentinel)]) v)"
proof -
  have a_lt: "a < length h" and cell: "children (h ! a) = map (\<lambda>x. (fst x, a_addr (snd x))) ks"
    and cellv: "nvalue (h ! a) = v"
    using assms(1) by auto
  have lt: "\<And>x. x \<in> set (addrs (ANode a ks v)) \<Longrightarrow> x < length h"
    using repr_addrs_lt[OF assms(1)] .
  have old: "repr h1 (snd x)" if x: "x \<in> set ks" for x
  proof (rule repr_frame[of h])
    show "repr h (snd x)" using assms(1) x by auto
    show "length h \<le> length h1" by (simp add: h1_def)
    fix y assume y: "y \<in> set (addrs (snd x))"
    then have "y \<in> set (addrs (ANode a ks v))" using x by auto
    then have "y < length h" by (rule lt)
    moreover have "y \<noteq> a" using assms(2) x y by (auto simp: wf_tree_def)
    ultimately show "h1 ! y = h ! y" by (simp add: h1_def nth_append)
  qed
  show "repr h1 (ANode a (ks @ [(c, ANode (length h) [] Sentinel)]) v)"
    using a_lt cell cellv old by (auto simp: h1_def nth_append new_node_def)
  have cnotin: "c \<notin> fst ` set ks" using assms(3) by (simp add: map_of_eq_None_iff)
  have "length h \<notin> set (addrs (ANode a ks v))" using lt by blast
  then show "wf_tree (ANode a (ks @ [(c, ANode (length h) [] Sentinel)]) v)"
    using assms(2) cnotin by (auto simp: wf_tree_def)
qed

lemma update_children_sim:
  fixes ks :: "('c \<times> ('c, 'v) atree) list"
  assumes "repr h (ANode a ks v)" and "wf_tree (ANode a ks v)"
  shows "\<exists>h' ks' pairs.
      update_children h a its stk = (h', rev pairs @ stk)
    \<and> list_all2 (\<lambda>it pr. snd pr = snd it \<and> (\<exists>K. map_of ks' (fst it) = Some K \<and> a_addr K = fst pr)) its pairs
    \<and> repr h' (ANode a ks' v) \<and> wf_tree (ANode a ks' v) \<and> length h \<le> length h'
    \<and> (\<forall>x < length h. x \<noteq> a \<longrightarrow> h' ! x = h ! x)
    \<and> set (addrs (ANode a ks' v)) \<subseteq> set (addrs (ANode a ks v)) \<union> {length h ..< length h'}
    \<and> (\<forall>c K. map_of ks' c = Some K \<longrightarrow>
          map_of ks c = Some K \<or> (map_of ks c = None \<and> c \<in> fst ` set its \<and> (\<exists>n. K = ANode n [] Sentinel)))
    \<and> (\<forall>c K. map_of ks c = Some K \<longrightarrow> map_of ks' c = Some K)
    \<and> a_count (ANode a ks' v) = a_count (ANode a ks v)"
  using assms
proof (induction its arbitrary: h ks stk)
  case Nil
  show ?case
    by (rule exI[of _ h], rule exI[of _ ks], rule exI[of _ "[]"]) (use Nil in auto)
next
  case (Cons it its)
  obtain c b where it: "it = (c, b)" by (cases it)
  have cell: "children (h ! a) = map (\<lambda>x. (fst x, a_addr (snd x))) ks" using Cons.prems(1) by simp
  have a_lt: "a < length h" using Cons.prems(1) by simp
  show ?case
  proof (cases "map_of ks c")
    case None
    define h1 where "h1 = h[a := (h ! a)\<lparr>children := children (h ! a) @ [(c, length h)]\<rparr>] @ [new_node]"
    define ks1 where "ks1 = ks @ [(c, ANode (length h) [] Sentinel :: ('c, 'v) atree)]"
    have r1: "repr h1 (ANode a ks1 v)" and w1: "wf_tree (ANode a ks1 v)"
      using heap_add_leaf[OF Cons.prems None] by (simp_all add: h1_def ks1_def)
    from Cons.IH[OF r1 w1, of "(length h, b) # stk"]
    obtain h' ks' pairs where IH:
      "update_children h1 a its ((length h, b) # stk) = (h', rev pairs @ (length h, b) # stk)"
      "list_all2 (\<lambda>it pr. snd pr = snd it \<and> (\<exists>K. map_of ks' (fst it) = Some K \<and> a_addr K = fst pr)) its pairs"
      "repr h' (ANode a ks' v)" "wf_tree (ANode a ks' v)" "length h1 \<le> length h'"
      "\<forall>x < length h1. x \<noteq> a \<longrightarrow> h' ! x = h1 ! x"
      "set (addrs (ANode a ks' v)) \<subseteq> set (addrs (ANode a ks1 v)) \<union> {length h1 ..< length h'}"
      "\<forall>c K. map_of ks' c = Some K \<longrightarrow>
          map_of ks1 c = Some K \<or> (map_of ks1 c = None \<and> c \<in> fst ` set its \<and> (\<exists>n. K = ANode n [] Sentinel))"
      "\<forall>c K. map_of ks1 c = Some K \<longrightarrow> map_of ks' c = Some K"
      "a_count (ANode a ks' v) = a_count (ANode a ks1 v)"
      by blast
    have len1: "length h1 = Suc (length h)" by (simp add: h1_def)
    have step: "update_children h a (it # its) stk = update_children h1 a its ((length h, b) # stk)"
      using None it cell by (simp add: map_of_kid_addrs h1_def)
    have mo1: "map_of ks1 c' = (if c' = c then Some (ANode (length h) [] Sentinel) else map_of ks c')" for c'
      using None by (auto simp: ks1_def map_add_def split: option.splits)
    have head: "\<exists>K. map_of ks' c = Some K \<and> a_addr K = length h"
      using IH(9) mo1[of c] by auto
    have "update_children h a (it # its) stk = (h', rev ((length h, b) # pairs) @ stk)"
      using step IH(1) by simp
    moreover have "list_all2 (\<lambda>it pr. snd pr = snd it \<and> (\<exists>K. map_of ks' (fst it) = Some K \<and> a_addr K = fst pr))
        (it # its) ((length h, b) # pairs)"
      using IH(2) head it by simp
    moreover have "length h \<le> length h'" using IH(5) len1 by simp
    moreover have "\<forall>x < length h. x \<noteq> a \<longrightarrow> h' ! x = h ! x"
      using IH(6) len1 by (auto simp: h1_def nth_append)
    moreover have "set (addrs (ANode a ks' v)) \<subseteq> set (addrs (ANode a ks v)) \<union> {length h ..< length h'}"
      using IH(7) IH(5) len1 by (auto simp: ks1_def)
    moreover have "\<forall>c' K. map_of ks' c' = Some K \<longrightarrow>
          map_of ks c' = Some K \<or> (map_of ks c' = None \<and> c' \<in> fst ` set (it # its) \<and> (\<exists>n. K = ANode n [] Sentinel))"
    proof (intro allI impI)
      fix c' K assume "map_of ks' c' = Some K"
      with IH(8) have "map_of ks1 c' = Some K \<or> (map_of ks1 c' = None \<and> c' \<in> fst ` set its \<and> (\<exists>n. K = ANode n [] Sentinel))"
        by blast
      then show "map_of ks c' = Some K \<or> (map_of ks c' = None \<and> c' \<in> fst ` set (it # its) \<and> (\<exists>n. K = ANode n [] Sentinel))"
        using mo1[of c'] None it by (auto split: if_splits)
    qed
    moreover have "\<forall>c' K. map_of ks c' = Some K \<longrightarrow> map_of ks' c' = Some K"
    proof (intro allI impI)
      fix c' K assume K: "map_of ks c' = Some K"
      then have "c' \<noteq> c" using None by auto
      then have "map_of ks1 c' = Some K" using mo1[of c'] K by simp
      then show "map_of ks' c' = Some K" using IH(9) by blast
    qed
    moreover have "a_count (ANode a ks' v) = a_count (ANode a ks v)"
      using IH(10) by (simp add: ks1_def)
    ultimately show ?thesis using IH(3,4) by blast
  next
    case (Some K0)
    from Cons.IH[OF Cons.prems, of "(a_addr K0, b) # stk"]
    obtain h' ks' pairs where IH:
      "update_children h a its ((a_addr K0, b) # stk) = (h', rev pairs @ (a_addr K0, b) # stk)"
      "list_all2 (\<lambda>it pr. snd pr = snd it \<and> (\<exists>K. map_of ks' (fst it) = Some K \<and> a_addr K = fst pr)) its pairs"
      "repr h' (ANode a ks' v)" "wf_tree (ANode a ks' v)" "length h \<le> length h'"
      "\<forall>x < length h. x \<noteq> a \<longrightarrow> h' ! x = h ! x"
      "set (addrs (ANode a ks' v)) \<subseteq> set (addrs (ANode a ks v)) \<union> {length h ..< length h'}"
      "\<forall>c K. map_of ks' c = Some K \<longrightarrow>
          map_of ks c = Some K \<or> (map_of ks c = None \<and> c \<in> fst ` set its \<and> (\<exists>n. K = ANode n [] Sentinel))"
      "\<forall>c K. map_of ks c = Some K \<longrightarrow> map_of ks' c = Some K"
      "a_count (ANode a ks' v) = a_count (ANode a ks v)"
      by blast
    have step: "update_children h a (it # its) stk = update_children h a its ((a_addr K0, b) # stk)"
      using Some it cell by (simp add: map_of_kid_addrs)
    have "update_children h a (it # its) stk = (h', rev ((a_addr K0, b) # pairs) @ stk)"
      using step IH(1) by simp
    moreover have "list_all2 (\<lambda>it pr. snd pr = snd it \<and> (\<exists>K. map_of ks' (fst it) = Some K \<and> a_addr K = fst pr))
        (it # its) ((a_addr K0, b) # pairs)"
      using IH(2,9) Some it by simp
    moreover have "\<forall>c' K. map_of ks' c' = Some K \<longrightarrow>
          map_of ks c' = Some K \<or> (map_of ks c' = None \<and> c' \<in> fst ` set (it # its) \<and> (\<exists>n. K = ANode n [] Sentinel))"
      using IH(8) by auto
    ultimately show ?thesis using IH(3,4,5,6,7,9,10) by blast
  qed
qed

lemma trie_count_update_same [simp]: "t\<lparr>t_count := t_count t\<rparr> = t"
  by simp

lemma upd_okD:
  assumes "upd_ok U" and "repr h S" and "wf_tree S" and "repr h U"
    and "set (addrs S) \<inter> set (addrs U) = {}"
  shows "\<exists>h' S'.
            (\<forall>rest t. update_loop h t ((a_addr S, a_addr U) # rest)
                = update_loop h' (t\<lparr>t_count := t_count t + (a_count S' - a_count S)\<rparr>) rest)
          \<and> repr h' S' \<and> wf_tree S' \<and> a_addr S' = a_addr S \<and> length h \<le> length h'
          \<and> (\<forall>x < length h. x \<notin> set (addrs S) \<longrightarrow> h' ! x = h ! x)
          \<and> set (addrs S') \<subseteq> set (addrs S) \<union> {length h ..< length h'}
          \<and> (\<forall>q. a_slot S' q = merge_slot (a_slot S q) (a_slot U q))"
proof -
  from assms(1) have "repr h S \<and> wf_tree S \<and> repr h U \<and> set (addrs S) \<inter> set (addrs U) = {} \<longrightarrow>
        (\<exists>h' S'.
            (\<forall>rest t. update_loop h t ((a_addr S, a_addr U) # rest)
                = update_loop h' (t\<lparr>t_count := t_count t + (a_count S' - a_count S)\<rparr>) rest)
          \<and> repr h' S' \<and> wf_tree S' \<and> a_addr S' = a_addr S \<and> length h \<le> length h'
          \<and> (\<forall>x < length h. x \<notin> set (addrs S) \<longrightarrow> h' ! x = h ! x)
          \<and> set (addrs S') \<subseteq> set (addrs S) \<union> {length h ..< length h'}
          \<and> (\<forall>q. a_slot S' q = merge_slot (a_slot S q) (a_slot U q)))"
    unfolding upd_ok_def by (elim allE[of _ h] allE[of _ S])
  with assms(2-5) show ?thesis by (elim impE) (intro conjI, assumption+)
qed

lemma update_forest:
  fixes ks :: "('c \<times> ('c, 'v) atree) list" and os :: "('c \<times> ('c, 'v) atree) list"
  assumes "\<forall>x \<in> set os. upd_ok (snd x)"
    and "repr h (ANode a ks v)" and "wf_tree (ANode a ks v)"
    and "\<forall>x \<in> set os. repr h (snd x) \<and> set (addrs (snd x)) \<inter> set (addrs (ANode a ks v)) = {}"
    and "distinct (map fst os)"
    and "list_all2 (\<lambda>x pr. snd pr = a_addr (snd x) \<and> (\<exists>K. map_of ks (fst x) = Some K \<and> a_addr K = fst pr)) os prs"
  shows "\<exists>h' ks'.
      (\<forall>rest t. update_loop h t (prs @ rest)
          = update_loop h' (t\<lparr>t_count := t_count t + (a_count (ANode a ks' v) - a_count (ANode a ks v))\<rparr>) rest)
    \<and> repr h' (ANode a ks' v) \<and> wf_tree (ANode a ks' v) \<and> length h \<le> length h'
    \<and> (\<forall>x < length h. x \<notin> set (addrs (ANode a ks v)) \<longrightarrow> h' ! x = h ! x)
    \<and> set (addrs (ANode a ks' v)) \<subseteq> set (addrs (ANode a ks v)) \<union> {length h ..< length h'}
    \<and> (\<forall>c. map_of ks' c = None \<longleftrightarrow> map_of ks c = None)
    \<and> (\<forall>c K. map_of ks c = Some K \<longrightarrow> (\<exists>K'. map_of ks' c = Some K' \<and>
          (\<forall>q. a_slot K' q = (case map_of os c of None \<Rightarrow> a_slot K q
                                | Some Uc \<Rightarrow> merge_slot (a_slot K q) (a_slot Uc q)))))"
  using assms
proof (induction os arbitrary: h ks prs)
  case Nil
  then have "prs = []" by simp
  show ?case
    by (rule exI[of _ h], rule exI[of _ ks]) (use Nil \<open>prs = []\<close> in auto)
next
  case (Cons x os)
  obtain c Uc where x: "x = (c, Uc)" by (cases x)
  from Cons.prems(6) obtain pr prs' where prs: "prs = pr # prs'"
    and hd: "snd pr = a_addr Uc" "\<exists>K. map_of ks c = Some K \<and> a_addr K = fst pr"
    and tl: "list_all2 (\<lambda>x pr. snd pr = a_addr (snd x) \<and> (\<exists>K. map_of ks (fst x) = Some K \<and> a_addr K = fst pr)) os prs'"
    using x by (auto simp: list_all2_Cons1)
  from hd(2) obtain K where K: "map_of ks c = Some K" "a_addr K = fst pr" by blast
  define node :: "('c, 'v) atree" where "node = ANode a ks v"
  have in_ks: "(c, K) \<in> set ks" using K(1) by (rule map_of_SomeD)
  have subK: "a_sub node [c] = Some K" using K(1) by (simp add: node_def)
  have reprK: "repr h K" using Cons.prems(2) in_ks by auto
  have wfK: "wf_tree K" using wf_tree_kid[OF Cons.prems(3) in_ks] by simp
  have KsubN: "set (addrs K) \<subseteq> set (addrs node)" using in_ks by (force simp: node_def)
  have reprU: "repr h Uc" and disjU: "set (addrs Uc) \<inter> set (addrs node) = {}"
    using Cons.prems(4) x by (auto simp: node_def)
  have ltN: "\<And>y. y \<in> set (addrs node) \<Longrightarrow> y < length h"
    using repr_addrs_lt[OF Cons.prems(2)] by (simp add: node_def)
  have "upd_ok Uc" using Cons.prems(1) x by simp
  have disjKU: "set (addrs K) \<inter> set (addrs Uc) = {}" using disjU KsubN by auto
  from upd_okD[OF \<open>upd_ok Uc\<close> reprK wfK reprU disjKU]
  obtain h1 K' where U:
    "\<forall>rest t. update_loop h t ((a_addr K, a_addr Uc) # rest)
        = update_loop h1 (t\<lparr>t_count := t_count t + (a_count K' - a_count K)\<rparr>) rest"
    "repr h1 K'" "wf_tree K'" "a_addr K' = a_addr K" "length h \<le> length h1"
    "\<forall>x < length h. x \<notin> set (addrs K) \<longrightarrow> h1 ! x = h ! x"
    "set (addrs K') \<subseteq> set (addrs K) \<union> {length h ..< length h1}"
    "\<forall>q. a_slot K' q = merge_slot (a_slot K q) (a_slot Uc q)"
    by (elim exE conjE)
  define ks1 where "ks1 = map (\<lambda>y. (fst y, if fst y = c then K' else snd y)) ks"
  have mod: "a_modify (\<lambda>_. K') [c] node = ANode a ks1 v" by (simp add: node_def ks1_def)
  have r1: "repr h1 (ANode a ks1 v)"
    unfolding mod[symmetric]
  proof (rule a_modify_repr[where f = "\<lambda>_. K'" and S = K and h = h])
    show "h1 ! y = h ! y" if "y \<in> set (addrs node)" "y \<notin> set (addrs K)" for y
      using U(6) ltN[OF that(1)] that(2) by simp
  qed (use Cons.prems(2,3) subK U in \<open>auto simp: node_def\<close>)
  have inter: "set (addrs K') \<inter> set (addrs node) \<subseteq> set (addrs K)"
    using U(7) ltN by fastforce
  have w1: "wf_tree (ANode a ks1 v)"
    unfolding mod[symmetric]
    by (rule a_modify_wf[where f = "\<lambda>_. K'" and S = K])
       (use Cons.prems(3) subK U(3) inter in \<open>auto simp: node_def\<close>)
  have addrs1: "set (addrs (ANode a ks1 v)) \<subseteq> set (addrs node) \<union> {length h ..< length h1}"
    using a_modify_addrs_sub[where f = "\<lambda>_. K'", OF subK] Cons.prems(3) U(7) KsubN
    unfolding mod by (auto simp: node_def)
  have mo1: "map_of ks1 d = (if d = c then Some K' else map_of ks d)" for d
    using map_of_upd_kids[of "\<lambda>k X. if k = c then K' else X" ks d] K(1)
    by (auto simp: ks1_def option.map_ident)
  have cnt1: "a_count (ANode a ks1 v) = a_count node - a_count K + a_count K'"
    unfolding mod[symmetric]
    by (rule a_count_modify[where f = "\<lambda>_. K'"]) (use Cons.prems(3) subK in \<open>auto simp: node_def\<close>)
  have notc: "fst y \<noteq> c" if "y \<in> set os" for y
    using Cons.prems(5) x that by (auto simp: image_iff)
  have others: "\<forall>y \<in> set os. repr h1 (snd y) \<and> set (addrs (snd y)) \<inter> set (addrs (ANode a ks1 v)) = {}"
  proof
    fix y assume y: "y \<in> set os"
    have ry: "repr h (snd y)" and dy: "set (addrs (snd y)) \<inter> set (addrs node) = {}"
      using Cons.prems(4) y by (auto simp: node_def)
    have lty: "\<And>z. z \<in> set (addrs (snd y)) \<Longrightarrow> z < length h" using repr_addrs_lt[OF ry] .
    have "repr h1 (snd y)"
    proof (rule repr_frame[OF ry _ U(5)])
      fix z assume z: "z \<in> set (addrs (snd y))"
      then have "z \<notin> set (addrs K)" using dy KsubN by auto
      then show "h1 ! z = h ! z" using U(6) lty[OF z] by simp
    qed
    moreover have "set (addrs (snd y)) \<inter> set (addrs (ANode a ks1 v)) = {}"
      using addrs1 dy lty by fastforce
    ultimately show "repr h1 (snd y) \<and> set (addrs (snd y)) \<inter> set (addrs (ANode a ks1 v)) = {}" ..
  qed
  have tl1: "list_all2 (\<lambda>x pr. snd pr = a_addr (snd x) \<and> (\<exists>K. map_of ks1 (fst x) = Some K \<and> a_addr K = fst pr)) os prs'"
    using tl
  proof (rule list.rel_mono_strong)
    fix y pr assume "y \<in> set os"
      and "snd pr = a_addr (snd y) \<and> (\<exists>K. map_of ks (fst y) = Some K \<and> a_addr K = fst pr)"
    then show "snd pr = a_addr (snd y) \<and> (\<exists>K. map_of ks1 (fst y) = Some K \<and> a_addr K = fst pr)"
      using notc mo1 by auto
  qed
  have IHprem1: "\<forall>x \<in> set os. upd_ok (snd x)" using Cons.prems(1) by simp
  have IHprem5: "distinct (map fst os)" using Cons.prems(5) by simp
  from Cons.IH[OF IHprem1 r1 w1 others IHprem5 tl1]
  obtain h' ks' where IH:
    "\<forall>rest t. update_loop h1 t (prs' @ rest)
        = update_loop h' (t\<lparr>t_count := t_count t + (a_count (ANode a ks' v) - a_count (ANode a ks1 v))\<rparr>) rest"
    "repr h' (ANode a ks' v)" "wf_tree (ANode a ks' v)" "length h1 \<le> length h'"
    "\<forall>x < length h1. x \<notin> set (addrs (ANode a ks1 v)) \<longrightarrow> h' ! x = h1 ! x"
    "set (addrs (ANode a ks' v)) \<subseteq> set (addrs (ANode a ks1 v)) \<union> {length h1 ..< length h'}"
    "\<forall>c. map_of ks' c = None \<longleftrightarrow> map_of ks1 c = None"
    "\<forall>c K. map_of ks1 c = Some K \<longrightarrow> (\<exists>K'. map_of ks' c = Some K' \<and>
          (\<forall>q. a_slot K' q = (case map_of os c of None \<Rightarrow> a_slot K q
                                | Some Uc \<Rightarrow> merge_slot (a_slot K q) (a_slot Uc q))))"
    by blast
  have pr_eq: "pr = (a_addr K, a_addr Uc)" using hd(1) K(2) by (cases pr) simp
  have loop: "update_loop h t (prs @ rest)
      = update_loop h' (t\<lparr>t_count := t_count t + (a_count (ANode a ks' v) - a_count (ANode a ks v))\<rparr>) rest"
    for rest t
  proof -
    have "update_loop h t (prs @ rest) = update_loop h t ((a_addr K, a_addr Uc) # (prs' @ rest))"
      by (simp add: prs pr_eq)
    also have "\<dots> = update_loop h1 (t\<lparr>t_count := t_count t + (a_count K' - a_count K)\<rparr>) (prs' @ rest)"
      using U(1) by blast
    also have "\<dots> = update_loop h'
        (t\<lparr>t_count := t_count t + (a_count K' - a_count K)
              + (a_count (ANode a ks' v) - a_count (ANode a ks1 v))\<rparr>) rest"
      using IH(1) by simp
    also have "t_count t + (a_count K' - a_count K) + (a_count (ANode a ks' v) - a_count (ANode a ks1 v))
        = t_count t + (a_count (ANode a ks' v) - a_count (ANode a ks v))"
      using cnt1 by (simp add: node_def)
    finally show ?thesis .
  qed
  have len: "length h \<le> length h'" using U(5) IH(4) by simp
  have frame: "\<forall>y < length h. y \<notin> set (addrs (ANode a ks v)) \<longrightarrow> h' ! y = h ! y"
  proof (intro allI impI)
    fix y assume y: "y < length h" "y \<notin> set (addrs (ANode a ks v))"
    have "y \<notin> set (addrs (ANode a ks1 v))" using addrs1 y by (auto simp: node_def)
    then have "h' ! y = h1 ! y" using IH(5) y(1) U(5) by simp
    moreover have "y \<notin> set (addrs K)" using y(2) KsubN by (auto simp: node_def)
    ultimately show "h' ! y = h ! y" using U(6) y(1) by simp
  qed
  have addrs': "set (addrs (ANode a ks' v)) \<subseteq> set (addrs (ANode a ks v)) \<union> {length h ..< length h'}"
    using IH(6) addrs1 U(5) IH(4) by (fastforce simp: node_def)
  have none: "\<forall>d. map_of ks' d = None \<longleftrightarrow> map_of ks d = None"
    using IH(7) mo1 K(1) by auto
  have slots: "\<forall>d Kd. map_of ks d = Some Kd \<longrightarrow> (\<exists>K''. map_of ks' d = Some K'' \<and>
          (\<forall>q. a_slot K'' q = (case map_of (x # os) d of None \<Rightarrow> a_slot Kd q
                                | Some Ud \<Rightarrow> merge_slot (a_slot Kd q) (a_slot Ud q))))"
  proof (intro allI impI)
    fix d Kd assume Kd: "map_of ks d = Some Kd"
    show "\<exists>K''. map_of ks' d = Some K'' \<and>
          (\<forall>q. a_slot K'' q = (case map_of (x # os) d of None \<Rightarrow> a_slot Kd q
                                | Some Ud \<Rightarrow> merge_slot (a_slot Kd q) (a_slot Ud q)))"
    proof (cases "d = c")
      case True
      then have "Kd = K" using Kd K(1) by simp
      have "map_of os c = None" using notc by (auto simp: map_of_eq_None_iff image_iff)
      moreover have "map_of ks1 c = Some K'" using mo1[of c] by simp
      with IH(8) obtain K'' where "map_of ks' c = Some K''"
        "\<forall>q. a_slot K'' q = (case map_of os c of None \<Rightarrow> a_slot K' q
                                | Some Uc \<Rightarrow> merge_slot (a_slot K' q) (a_slot Uc q))"
        by blast
      ultimately show ?thesis using U(8) True \<open>Kd = K\<close> x by auto
    next
      case False
      then have "map_of ks1 d = Some Kd" using mo1[of d] Kd by simp
      with IH(8) obtain K'' where "map_of ks' d = Some K''"
        "\<forall>q. a_slot K'' q = (case map_of os d of None \<Rightarrow> a_slot Kd q
                                | Some Uc \<Rightarrow> merge_slot (a_slot Kd q) (a_slot Uc q))"
        by blast
      then show ?thesis using False x by auto
    qed
  qed
  show ?case
  proof (intro exI conjI)
    show "\<forall>rest t. update_loop h t (prs @ rest)
      = update_loop h' (t\<lparr>t_count := t_count t + (a_count (ANode a ks' v) - a_count (ANode a ks v))\<rparr>) rest"
      using loop by blast
  qed (rule IH(2) IH(3) len frame addrs' none slots)+
qed

lemma merge_slot_root:
  "merge_slot (Some v) (Some w) = Some (case w of Sentinel \<Rightarrow> v | Stored x \<Rightarrow> Stored x)"
  by (simp add: merge_slot_def split: slot.splits)

lemma merge_slot_None [simp]: "merge_slot a None = a"
  by (simp add: merge_slot_def)

lemma merge_slot_leaf:
  "merge_slot (a_slot (ANode n [] Sentinel) q) (a_slot U q) = merge_slot None (a_slot U q)"
  by (cases q) (auto simp: merge_slot_def a_slot_Cons split: option.splits slot.splits)

lemma update_visit_eq:
  assumes "nvalue (h ! a) = v" and "nvalue (h ! b) = w" and "a < length h"
  shows "update_visit h t a b =
     (h[a := (h ! a)\<lparr>nvalue := (case w of Sentinel \<Rightarrow> v | Stored x \<Rightarrow> Stored x)\<rparr>],
      t\<lparr>t_count := t_count t + (if v = Sentinel \<and> w \<noteq> Sentinel then 1 else 0)\<rparr>)"
proof (cases w)
  case Sentinel
  have "h[a := (h ! a)\<lparr>nvalue := v\<rparr>] = h" by (simp add: assms(1)[symmetric])
  then show ?thesis using assms(2) Sentinel by (simp add: update_visit_def)
next
  case (Stored x)
  then show ?thesis using assms by (simp add: update_visit_def)
qed

lemma update_children_append:
  "update_children h a its (s1 @ s2) =
     (case update_children h a its s1 of (h', st) \<Rightarrow> (h', st @ s2))"
proof (induction its arbitrary: h s1)
  case Nil
  then show ?case by simp
next
  case (Cons it its)
  obtain c b where it: "it = (c, b)" by (cases it)
  show ?case
  proof (cases "map_of (children (h ! a)) c")
    case None
    then show ?thesis using it Cons.IH[of _ "(length h, b) # s1"] by simp
  next
    case (Some k)
    then show ?thesis using it Cons.IH[of h "(k, b) # s1"] by simp
  qed
qed

lemma in_keys_map_of: "c \<in> fst ` set xs \<Longrightarrow> \<exists>y. map_of xs c = Some y"
  by (cases "map_of xs c") (auto simp: map_of_eq_None_iff)

lemma upd_ok_all:
  fixes U :: "('c, 'v) atree"
  shows "wf_tree U \<Longrightarrow> upd_ok U"
proof (induction U)
  case (ANode b os w)
  have kids_ok: "\<forall>x \<in> set os. upd_ok (snd x)"
  proof
    fix x assume x: "x \<in> set os"
    have "wf_tree (snd x)" using wf_tree_kid[OF ANode.prems x] .
    then show "upd_ok (snd x)" using ANode.IH[of x "snd x"] x by (cases x) (simp add: snds.simps)
  qed
  have dko: "distinct (map fst os)" using ANode.prems by (simp add: wf_tree_def)
  show ?case
    unfolding upd_ok_def
  proof (intro allI impI, elim conjE)
    fix h and S :: "('c, 'v) atree"
    assume reprS: "repr h S" and wfS: "wf_tree S" and reprU: "repr h (ANode b os w)"
      and disj: "set (addrs S) \<inter> set (addrs (ANode b os w)) = {}"
    obtain a ks v where S: "S = ANode a ks v" by (cases S)
    have a_lt: "a < length h" using reprS S by simp
    have ab: "a \<noteq> b" using disj S by auto
    define v1 where "v1 = (case w of Sentinel \<Rightarrow> v | Stored x \<Rightarrow> Stored x)"
    define d0 :: int where "d0 = (if v = Sentinel \<and> w \<noteq> Sentinel then 1 else 0)"
    define h1 where "h1 = h[a := (h ! a)\<lparr>nvalue := v1\<rparr>]"
    have visit: "update_visit h t a b = (h1, t\<lparr>t_count := t_count t + d0\<rparr>)" for t
      using update_visit_eq[of h a v b w t] reprS reprU S a_lt
      by (simp add: v1_def d0_def h1_def)
    have r1: "repr h1 (ANode a ks v1)"
    proof -
      have "repr (h[a_addr S := (h ! a_addr S)\<lparr>nvalue := v1\<rparr>]) (a_modify (a_set_val v1) [] S)"
        by (rule heap_set_val_repr[OF reprS wfS]) simp
      then show ?thesis unfolding h1_def S by (simp add: a_set_val_def del: repr.simps)
    qed
    have w1: "wf_tree (ANode a ks v1)" using wfS S by (simp add: wf_tree_def)
    have ltU: "\<And>y. y \<in> set (addrs (ANode b os w)) \<Longrightarrow> y < length h"
      using repr_addrs_lt[OF reprU] .
    have ltS: "\<And>y. y \<in> set (addrs S) \<Longrightarrow> y < length h"
      using repr_addrs_lt[OF reprS] .
    have a_notin_U: "a \<notin> set (addrs (ANode b os w))" using disj S by auto
    have reprU1: "repr h1 (ANode b os w)"
    proof (rule repr_frame[OF reprU])
      show "length h \<le> length h1" by (simp add: h1_def)
      fix y assume "y \<in> set (addrs (ANode b os w))"
      then have "y \<noteq> a" using a_notin_U by auto
      then show "h1 ! y = h ! y" by (simp add: h1_def)
    qed
    have its: "children (h1 ! b) = map (\<lambda>x. (fst x, a_addr (snd x))) os"
      using reprU1 by simp
    from update_children_sim[OF r1 w1, of "children (h1 ! b)"]
    have "\<forall>stk. \<exists>h2 ks2 pairs.
        update_children h1 a (children (h1 ! b)) stk = (h2, rev pairs @ stk)
      \<and> list_all2 (\<lambda>it pr. snd pr = snd it \<and> (\<exists>K. map_of ks2 (fst it) = Some K \<and> a_addr K = fst pr))
           (children (h1 ! b)) pairs
      \<and> repr h2 (ANode a ks2 v1) \<and> wf_tree (ANode a ks2 v1) \<and> length h1 \<le> length h2
      \<and> (\<forall>x < length h1. x \<noteq> a \<longrightarrow> h2 ! x = h1 ! x)
      \<and> set (addrs (ANode a ks2 v1)) \<subseteq> set (addrs (ANode a ks v1)) \<union> {length h1 ..< length h2}
      \<and> (\<forall>c K. map_of ks2 c = Some K \<longrightarrow>
            map_of ks c = Some K \<or> (map_of ks c = None \<and> c \<in> fst ` set (children (h1 ! b)) \<and> (\<exists>n. K = ANode n [] Sentinel)))
      \<and> (\<forall>c K. map_of ks c = Some K \<longrightarrow> map_of ks2 c = Some K)
      \<and> a_count (ANode a ks2 v1) = a_count (ANode a ks v1)"
      by blast
    then obtain h2 ks2 pairs where B:
      "update_children h1 a (children (h1 ! b)) [] = (h2, rev pairs @ [])"
      "list_all2 (\<lambda>it pr. snd pr = snd it \<and> (\<exists>K. map_of ks2 (fst it) = Some K \<and> a_addr K = fst pr))
           (children (h1 ! b)) pairs"
      "repr h2 (ANode a ks2 v1)" "wf_tree (ANode a ks2 v1)" "length h1 \<le> length h2"
      "\<forall>x < length h1. x \<noteq> a \<longrightarrow> h2 ! x = h1 ! x"
      "set (addrs (ANode a ks2 v1)) \<subseteq> set (addrs (ANode a ks v1)) \<union> {length h1 ..< length h2}"
      "\<forall>c K. map_of ks2 c = Some K \<longrightarrow>
            map_of ks c = Some K \<or> (map_of ks c = None \<and> c \<in> fst ` set (children (h1 ! b)) \<and> (\<exists>n. K = ANode n [] Sentinel))"
      "\<forall>c K. map_of ks c = Some K \<longrightarrow> map_of ks2 c = Some K"
      "a_count (ANode a ks2 v1) = a_count (ANode a ks v1)"
      by (elim allE[of _ "[]"] exE conjE)
    have step: "update_loop h t ((a, b) # rest) = update_loop h2 (t\<lparr>t_count := t_count t + d0\<rparr>) (rev pairs @ rest)"
      for t rest
    proof -
      have "update_children h1 a (children (h1 ! b)) rest = (h2, rev pairs @ rest)"
        using update_children_append[of h1 a "children (h1 ! b)" "[]" rest] B(1) by simp
      then show ?thesis
        by (subst update_loop.simps) (simp add: visit)
    qed
    have len1: "length h1 = length h" by (simp add: h1_def)
    have kidsU: "\<forall>x \<in> set (rev os). repr h2 (snd x)
        \<and> set (addrs (snd x)) \<inter> set (addrs (ANode a ks2 v1)) = {}"
    proof
      fix x assume "x \<in> set (rev os)"
      then have x: "x \<in> set os" by simp
      have sub: "set (addrs (snd x)) \<subseteq> set (addrs (ANode b os w))" using kid_addrs_subset[OF x] .
      have rx: "repr h1 (snd x)" using reprU1 x by auto
      have "repr h2 (snd x)"
      proof (rule repr_frame[OF rx _ B(5)])
        fix y assume y: "y \<in> set (addrs (snd x))"
        then have "y < length h1" "y \<noteq> a" using sub ltU a_notin_U len1 by auto
        then show "h2 ! y = h1 ! y" using B(6) by simp
      qed
      moreover have "set (addrs (snd x)) \<inter> set (addrs (ANode a ks2 v1)) = {}"
      proof (rule ccontr)
        assume "set (addrs (snd x)) \<inter> set (addrs (ANode a ks2 v1)) \<noteq> {}"
        then obtain y where y: "y \<in> set (addrs (snd x))" "y \<in> set (addrs (ANode a ks2 v1))" by auto
        have yU: "y \<in> set (addrs (ANode b os w))" using y(1) sub by auto
        then have "y < length h1" using ltU len1 by simp
        then have "y \<in> set (addrs (ANode a ks v1))" using y(2) B(7) by auto
        then have "y \<in> set (addrs S)" using S by simp
        then show False using disj yU by auto
      qed
      ultimately show "repr h2 (snd x) \<and> set (addrs (snd x)) \<inter> set (addrs (ANode a ks2 v1)) = {}" ..
    qed
    have la: "list_all2 (\<lambda>x pr. snd pr = a_addr (snd x) \<and> (\<exists>K. map_of ks2 (fst x) = Some K \<and> a_addr K = fst pr))
        (rev os) (rev pairs)"
      using B(2) unfolding its by (simp add: list_all2_map1)
    have kids_ok': "\<forall>x \<in> set (rev os). upd_ok (snd x)" using kids_ok by simp
    have dko': "distinct (map fst (rev os))" using dko by (simp add: rev_map[symmetric])
    from update_forest[OF kids_ok' B(3) B(4) kidsU dko' la]
    obtain h' ks' where F:
      "\<forall>rest t. update_loop h2 t (rev pairs @ rest)
          = update_loop h' (t\<lparr>t_count := t_count t + (a_count (ANode a ks' v1) - a_count (ANode a ks2 v1))\<rparr>) rest"
      "repr h' (ANode a ks' v1)" "wf_tree (ANode a ks' v1)" "length h2 \<le> length h'"
      "\<forall>x < length h2. x \<notin> set (addrs (ANode a ks2 v1)) \<longrightarrow> h' ! x = h2 ! x"
      "set (addrs (ANode a ks' v1)) \<subseteq> set (addrs (ANode a ks2 v1)) \<union> {length h2 ..< length h'}"
      "\<forall>c. map_of ks' c = None \<longleftrightarrow> map_of ks2 c = None"
      "\<forall>c K. map_of ks2 c = Some K \<longrightarrow> (\<exists>K'. map_of ks' c = Some K' \<and>
          (\<forall>q. a_slot K' q = (case map_of (rev os) c of None \<Rightarrow> a_slot K q
                                | Some Uc \<Rightarrow> merge_slot (a_slot K q) (a_slot Uc q))))"
      by (elim exE conjE)
    have cnt: "a_count (ANode a ks2 v1) = a_count S + d0"
      using B(10) S by (auto simp: v1_def d0_def split: slot.splits)
    have loop: "update_loop h t ((a_addr S, a_addr (ANode b os w)) # rest)
        = update_loop h' (t\<lparr>t_count := t_count t + (a_count (ANode a ks' v1) - a_count S)\<rparr>) rest"
      for rest t
    proof -
      have "update_loop h t ((a, b) # rest)
          = update_loop h' (t\<lparr>t_count := t_count t + d0 + (a_count (ANode a ks' v1) - a_count (ANode a ks2 v1))\<rparr>) rest"
        using step[of t rest] F(1) by simp
      also have "t_count t + d0 + (a_count (ANode a ks' v1) - a_count (ANode a ks2 v1))
          = t_count t + (a_count (ANode a ks' v1) - a_count S)"
        using cnt by simp
      finally show ?thesis using S by simp
    qed
    have len: "length h \<le> length h'" using len1 B(5) F(4) by simp
    have frame: "\<forall>x < length h. x \<notin> set (addrs S) \<longrightarrow> h' ! x = h ! x"
    proof (intro allI impI)
      fix x assume x: "x < length h" "x \<notin> set (addrs S)"
      have xa: "x \<noteq> a" using x(2) S by auto
      have "x \<notin> set (addrs (ANode a ks2 v1))" using B(7) x S len1 by auto
      then have "h' ! x = h2 ! x" using F(5) x(1) len1 B(5) by simp
      also have "\<dots> = h1 ! x" using B(6) x(1) xa len1 by simp
      also have "\<dots> = h ! x" using xa by (simp add: h1_def)
      finally show "h' ! x = h ! x" .
    qed
    have addrs': "set (addrs (ANode a ks' v1)) \<subseteq> set (addrs S) \<union> {length h ..< length h'}"
      using F(6) B(7) B(5) F(4) len1 S by fastforce
    have mrev: "map_of (rev os) = map_of os" using map_of_rev_distinct[OF dko] .
    have slots: "a_slot (ANode a ks' v1) q = merge_slot (a_slot S q) (a_slot (ANode b os w) q)" for q
    proof (cases q)
      case Nil
      then show ?thesis using S by (simp add: merge_slot_root v1_def)
    next
      case (Cons c q')
      show ?thesis
      proof (cases "map_of ks2 c")
        case None
        then have n': "map_of ks' c = None" using F(7) by simp
        have nk: "map_of ks c = None" using B(9) None by (cases "map_of ks c") auto
        have "map_of os c = None"
        proof (rule ccontr)
          assume "map_of os c \<noteq> None"
          then obtain Uc where "map_of os c = Some Uc" by auto
          then have "(c, Uc) \<in> set os" by (rule map_of_SomeD)
          then have "(c, a_addr Uc) \<in> set (children (h1 ! b))" unfolding its by force
          then obtain pr where "\<exists>K. map_of ks2 (fst (c, a_addr Uc)) = Some K \<and> a_addr K = fst pr"
            using B(2) by (auto simp: list_all2_conv_all_nth in_set_conv_nth)
          then show False using None by simp
        qed
        then show ?thesis using n' nk Cons S by (simp add: a_slot_Cons)
      next
        case (Some K2)
        from F(8) Some obtain K' where K': "map_of ks' c = Some K'"
          "\<forall>q. a_slot K' q = (case map_of os c of None \<Rightarrow> a_slot K2 q
                                | Some Uc \<Rightarrow> merge_slot (a_slot K2 q) (a_slot Uc q))"
          unfolding mrev by blast
        from B(8) Some consider (old) "map_of ks c = Some K2"
          | (new) n where "map_of ks c = None" "c \<in> fst ` set (children (h1 ! b))" "K2 = ANode n [] Sentinel"
          by blast
        then show ?thesis
        proof cases
          case old
          then show ?thesis using K' Cons S by (auto simp: a_slot_Cons split: option.splits)
        next
          case new
          have "c \<in> fst ` set os" using new(2) unfolding its by force
          then obtain Uc where Uc: "map_of os c = Some Uc" using in_keys_map_of by force
          show ?thesis
            using K' Cons S new(1,3) Uc merge_slot_leaf[of n q' Uc]
            by (simp add: a_slot_Cons)
        qed
      qed
    qed
    show "\<exists>h' S'.
            (\<forall>rest t. update_loop h t ((a_addr S, a_addr (ANode b os w)) # rest)
                = update_loop h' (t\<lparr>t_count := t_count t + (a_count S' - a_count S)\<rparr>) rest)
          \<and> repr h' S' \<and> wf_tree S' \<and> a_addr S' = a_addr S \<and> length h \<le> length h'
          \<and> (\<forall>x < length h. x \<notin> set (addrs S) \<longrightarrow> h' ! x = h ! x)
          \<and> set (addrs S') \<subseteq> set (addrs S) \<union> {length h ..< length h'}
          \<and> (\<forall>q. a_slot S' q = merge_slot (a_slot S q) (a_slot (ANode b os w) q))"
    proof (intro exI conjI)
      show "\<forall>rest t. update_loop h t ((a_addr S, a_addr (ANode b os w)) # rest)
                = update_loop h' (t\<lparr>t_count := t_count t + (a_count (ANode a ks' v1) - a_count S)\<rparr>) rest"
        using loop by blast
      show "a_addr (ANode a ks' v1) = a_addr S" using S by simp
      show "\<forall>q. a_slot (ANode a ks' v1) q = merge_slot (a_slot S q) (a_slot (ANode b os w) q)"
        using slots by blast
    qed (rule F(2) F(3) len frame addrs')+
  qed
qed

lemma update_trie_sim:
  fixes T U :: "('c, 'v) atree"
  assumes "repr h T" and "wf_tree T" and "a_addr T = t_root t"
    and "repr h U" and "wf_tree U" and "a_addr U = t_root other"
    and "set (addrs T) \<inter> set (addrs U) = {}"
  shows "\<exists>h' T'. update_trie h t other = Some (h', t\<lparr>t_count := t_count t + (a_count T' - a_count T)\<rparr>)
          \<and> repr h' T' \<and> wf_tree T' \<and> a_addr T' = t_root t \<and> length h \<le> length h'
          \<and> (\<forall>x < length h. x \<notin> set (addrs T) \<longrightarrow> h' ! x = h ! x)
          \<and> set (addrs T') \<subseteq> set (addrs T) \<union> {length h ..< length h'}
          \<and> (\<forall>q. a_slot T' q = merge_slot (a_slot T q) (a_slot U q))"
proof -
  from upd_okD[OF upd_ok_all[OF assms(5)] assms(1,2,4,7)]
  obtain h' T' where R:
    "\<forall>rest t. update_loop h t ((a_addr T, a_addr U) # rest)
        = update_loop h' (t\<lparr>t_count := t_count t + (a_count T' - a_count T)\<rparr>) rest"
    "repr h' T'" "wf_tree T'" "a_addr T' = a_addr T" "length h \<le> length h'"
    "\<forall>x < length h. x \<notin> set (addrs T) \<longrightarrow> h' ! x = h ! x"
    "set (addrs T') \<subseteq> set (addrs T) \<union> {length h ..< length h'}"
    "\<forall>q. a_slot T' q = merge_slot (a_slot T q) (a_slot U q)"
    by (elim exE conjE)
  have "update_trie h t other = update_loop h' (t\<lparr>t_count := t_count t + (a_count T' - a_count T)\<rparr>) []"
    using R(1) assms(3,6) by (simp add: update_trie_def)
  also have "\<dots> = Some (h', t\<lparr>t_count := t_count t + (a_count T' - a_count T)\<rparr>)"
    by (subst update_loop.simps) simp
  finally have res: "update_trie h t other = Some (h', t\<lparr>t_count := t_count t + (a_count T' - a_count T)\<rparr>)" .
  show ?thesis
  proof (intro exI conjI)
    show "update_trie h t other = Some (h', t\<lparr>t_count := t_count t + (a_count T' - a_count T)\<rparr>)"
      by (rule res)
    show "a_addr T' = t_root t" using R(4) assms(3) by simp
  qed (rule R(2) R(3) R(5) R(6) R(7) R(8))+
qed

lemma a_lookup_merge:
  assumes "\<forall>q. a_slot T' q = merge_slot (a_slot T q) (a_slot U q)"
  shows "a_lookup T' q = (case a_lookup U q of Some v \<Rightarrow> Some v | None \<Rightarrow> a_lookup T q)"
  using assms by (auto simp: a_lookup_def merge_slot_def split: option.splits slot.splits)

lemma pruned_sub:
  "pruned T \<Longrightarrow> a_sub T p = Some X \<Longrightarrow> p \<noteq> [] \<Longrightarrow> alive X"
proof (induction p arbitrary: T)
  case Nil
  then show ?case by simp
next
  case (Cons c p)
  obtain a ks v where T: "T = ANode a ks v" by (cases T)
  from Cons.prems(2) T obtain K where K: "map_of ks c = Some K" "a_sub K p = Some X"
    by (auto split: option.splits)
  have in_ks: "(c, K) \<in> set ks" using K(1) by (rule map_of_SomeD)
  then have "alive K" "pruned K" using Cons.prems(1) T by auto
  then show ?case using Cons.IH[of K] K(2) by (cases p) auto
qed

lemma pruned_from_sub:
  "distinct_keys T \<Longrightarrow> (\<And>p X. a_sub T p = Some X \<Longrightarrow> p \<noteq> [] \<Longrightarrow> alive X) \<Longrightarrow> pruned T"
proof (induction T)
  case (ANode a ks v)
  have "alive (snd x) \<and> pruned (snd x)" if x: "x \<in> set ks" for x
  proof -
    have dk: "distinct (map fst ks)" using ANode.prems(1) by simp
    have mo: "map_of ks (fst x) = Some (snd x)" using dk x by (cases x) simp
    have "alive (snd x)" using ANode.prems(2)[of "[fst x]" "snd x"] mo by simp
    moreover have "pruned (snd x)"
    proof (rule ANode.IH[of x "snd x"])
      show "x \<in> set ks" by (rule x)
      show "snd x \<in> Basic_BNFs.snds x" by (cases x) (simp add: snds.simps)
      show "distinct_keys (snd x)" using ANode.prems(1) x by simp
      show "alive X" if "a_sub (snd x) p = Some X" "p \<noteq> []" for p X
        using ANode.prems(2)[of "fst x # p" X] mo that by simp
    qed
    ultimately show ?thesis ..
  qed
  then show ?case by simp
qed

lemma alive_slot:
  assumes "a_sub T p = Some X"
  shows "alive X \<longleftrightarrow> a_slot T p \<noteq> Some Sentinel \<or> (\<exists>d. a_slot T (p @ [d]) \<noteq> None)"
proof -
  have kids: "a_kids X \<noteq> [] \<longleftrightarrow> (\<exists>d. map_of (a_kids X) d \<noteq> None)"
  proof (cases "a_kids X")
    case Nil
    then show ?thesis by simp
  next
    case (Cons k ks)
    then have "map_of (a_kids X) (fst k) \<noteq> None" by (cases k) simp
    moreover have "a_kids X \<noteq> []" using Cons by simp
    ultimately show ?thesis by blast
  qed
  have "a_slot T (p @ [d]) \<noteq> None \<longleftrightarrow> map_of (a_kids X) d \<noteq> None" for d
    using assms by (auto simp: a_slot_def a_sub_append split: option.splits)
  then show ?thesis using assms kids by (auto simp: alive_def a_slot_def)
qed

lemma pruned_merge:
  fixes T T' U :: "('c, 'v) atree"
  assumes "pruned T" and "pruned U" and "distinct_keys T'"
    and sl: "\<forall>q. a_slot T' q = merge_slot (a_slot T q) (a_slot U q)"
  shows "pruned T'"
proof (rule pruned_from_sub[OF assms(3)])
  fix p X' assume X': "a_sub T' p = Some X'" and p: "p \<noteq> []"
  have from_T: "\<exists>d. a_slot T (p @ [d]) \<noteq> None" if "a_slot T p = Some Sentinel"
  proof -
    from that obtain X where X: "a_sub T p = Some X" by (auto simp: a_slot_def)
    have "alive X" using pruned_sub[OF assms(1) X p] .
    then show ?thesis using alive_slot[OF X] that by simp
  qed
  have from_U: "\<exists>d. a_slot U (p @ [d]) \<noteq> None" if "a_slot U p = Some Sentinel"
  proof -
    from that obtain X where X: "a_sub U p = Some X" by (auto simp: a_slot_def)
    have "alive X" using pruned_sub[OF assms(2) X p] .
    then show ?thesis using alive_slot[OF X] that by simp
  qed
  have mono: "a_slot T' q \<noteq> None" if "a_slot T q \<noteq> None \<or> a_slot U q \<noteq> None" for q
    using that sl by (auto simp: merge_slot_def split: option.splits slot.splits)
  show "alive X'"
  proof (cases "a_slot T' p = Some Sentinel")
    case False
    then show ?thesis using alive_slot[OF X'] by simp
  next
    case True
    then have "merge_slot (a_slot T p) (a_slot U p) = Some Sentinel" using sl by simp
    then have "a_slot T p = Some Sentinel \<or> a_slot U p = Some Sentinel"
      by (auto simp: merge_slot_def split: option.splits slot.splits)
    then have "\<exists>d. a_slot T (p @ [d]) \<noteq> None \<or> a_slot U (p @ [d]) \<noteq> None"
      using from_T from_U by blast
    then have "\<exists>d. a_slot T' (p @ [d]) \<noteq> None" using mono by blast
    then show ?thesis using alive_slot[OF X'] by simp
  qed
qed

lemma concat_kid_select:
  "distinct (map fst ks) \<Longrightarrow>
   concat (map (\<lambda>x. if fst x = c then F (snd x) else []) ks)
     = (case map_of ks c of None \<Rightarrow> [] | Some K \<Rightarrow> F K)"
proof (induction ks)
  case Nil
  then show ?case by simp
next
  case (Cons k ks)
  show ?case
  proof (cases "fst k = c")
    case True
    then have "\<forall>x\<in>set ks. fst x \<noteq> c" using Cons.prems by (auto simp: image_iff)
    then have "concat (map (\<lambda>x. if fst x = c then F (snd x) else []) ks) = []" by simp
    then show ?thesis using True by (cases k) simp
  next
    case False
    then show ?thesis using Cons by (cases k) simp
  qed
qed

lemma sum_kid_select:
  "distinct (map fst ks) \<Longrightarrow>
   sum_list (map (\<lambda>x. if fst x = c then F (snd x) else (0::nat)) ks)
     = (case map_of ks c of None \<Rightarrow> 0 | Some K \<Rightarrow> F K)"
proof (induction ks)
  case Nil
  then show ?case by simp
next
  case (Cons k ks)
  show ?case
  proof (cases "fst k = c")
    case True
    then have "\<forall>x\<in>set ks. fst x \<noteq> c" using Cons.prems by (auto simp: image_iff)
    then have "sum_list (map (\<lambda>x. if fst x = c then F (snd x) else 0) ks) = 0" by simp
    then show ?thesis using True by (cases k) simp
  next
    case False
    then show ?thesis using Cons by (cases k) simp
  qed
qed

lemma f_items_simps [simp]:
  "f_items alph [] = []"
  "f_items alph ((K, p) # Ks) = map (\<lambda>qb. (snd qb, p @ fst qb)) (a_items alph K) @ f_items alph Ks"
  "f_items alph (Ks @ Ks') = f_items alph Ks @ f_items alph Ks'"
  by (simp_all add: f_items_def)

lemma f_work_simps [simp]:
  "f_work alph [] = 0"
  "f_work alph ((K, p) # Ks) = a_work alph K + f_work alph Ks"
  "f_work alph (Ks @ Ks') = f_work alph Ks + f_work alph Ks'"
  by (simp_all add: f_work_def)

lemma stack_of_simps [simp]:
  "stack_of [] = []"
  "stack_of ((K, p) # Ks) = (a_addr K, p) # stack_of Ks"
  "stack_of (Ks @ Ks') = stack_of Ks @ stack_of Ks'"
  by (simp_all add: stack_of_def)

lemma a_items_unfold:
  fixes X :: "('c, 'v) atree"
  assumes "distinct (map fst (a_kids X))"
  shows "map (\<lambda>qb. (snd qb, p @ fst qb)) (a_items alph X)
       = (if a_val X \<noteq> Sentinel then [(a_addr X, p)] else []) @ f_items alph (kids_forest alph X p)"
proof -
  obtain a ks v where X: "X = ANode a ks v" by (cases X)
  have dk: "distinct (map fst ks)" using assms X by simp
  have "map (\<lambda>qb. (snd qb, p @ fst qb))
          (concat (map (\<lambda>c. concat (map (\<lambda>x. if fst x = c
                        then map (\<lambda>qb. (c # fst qb, snd qb)) (a_items alph (snd x)) else []) ks)) cs))
      = f_items alph (concat (map (\<lambda>c. case map_of ks c of None \<Rightarrow> [] | Some K \<Rightarrow> [(K, p @ [c])]) cs))"
    for cs
  proof (induction cs)
    case Nil
    then show ?case by simp
  next
    case (Cons c cs)
    have sel: "concat (map (\<lambda>x. if fst x = c
                        then map (\<lambda>qb. (c # fst qb, snd qb)) (a_items alph (snd x)) else []) ks)
        = (case map_of ks c of None \<Rightarrow> [] | Some K \<Rightarrow> map (\<lambda>qb. (c # fst qb, snd qb)) (a_items alph K))"
      using concat_kid_select[OF dk, of c "\<lambda>K. map (\<lambda>qb. (c # fst qb, snd qb)) (a_items alph K)"] .
    show ?case
      using Cons.IH by (simp add: sel comp_def split: option.splits)
  qed
  from this[of alph] show ?thesis using X by (simp add: kids_forest_def)
qed

lemma a_work_unfold:
  fixes X :: "('c, 'v) atree"
  assumes "distinct (map fst (a_kids X))"
  shows "a_work alph X = Suc (f_work alph (kids_forest alph X p))"
proof -
  obtain a ks v where X: "X = ANode a ks v" by (cases X)
  have dk: "distinct (map fst ks)" using assms X by simp
  have "sum_list (map (\<lambda>c. sum_list (map (\<lambda>x. if fst x = c then a_work alph (snd x) else 0) ks)) cs)
      = f_work alph (concat (map (\<lambda>c. case map_of ks c of None \<Rightarrow> [] | Some K \<Rightarrow> [(K, p @ [c])]) cs))"
    for cs
  proof (induction cs)
    case Nil
    then show ?case by simp
  next
    case (Cons c cs)
    show ?case
      using Cons.IH sum_kid_select[OF dk, of c "a_work alph"] by (simp split: option.splits)
  qed
  from this[of alph] show ?thesis using X by (simp add: kids_forest_def)
qed

lemma push_children_eq:
  "push_children h n p (rev cs) stk =
     concat (map (\<lambda>c. case map_of (children (h ! n)) c of None \<Rightarrow> [] | Some b \<Rightarrow> [(b, p @ [c])]) cs) @ stk"
proof (induction cs arbitrary: stk rule: rev_induct)
  case Nil
  then show ?case by simp
next
  case (snoc c cs)
  show ?case by (simp add: snoc.IH split: option.splits)
qed

lemma push_children_forest:
  fixes X :: "('c, 'v) atree"
  assumes "repr h X"
  shows "push_children h (a_addr X) p (rev alph) stk = stack_of (kids_forest alph X p) @ stk"
proof -
  have "concat (map (\<lambda>c. case map_of (children (h ! a_addr X)) c of None \<Rightarrow> [] | Some b \<Rightarrow> [(b, p @ [c])]) cs)
      = stack_of (concat (map (\<lambda>c. case map_of (a_kids X) c of None \<Rightarrow> [] | Some K \<Rightarrow> [(K, p @ [c])]) cs))"
    for cs
    by (induction cs) (auto simp: repr_children[OF assms] map_of_kid_addrs split: option.splits)
  then show ?thesis by (simp add: push_children_eq kids_forest_def)
qed

lemma forest_ok_simps [simp]:
  "forest_ok h []"
  "forest_ok h ((K, p) # Ks) \<longleftrightarrow> repr h K \<and> distinct_keys K \<and> forest_ok h Ks"
  "forest_ok h (Ks @ Ks') \<longleftrightarrow> forest_ok h Ks \<and> forest_ok h Ks'"
  by (auto simp: forest_ok_def)

lemma distinct_keys_kids: "distinct_keys X \<Longrightarrow> distinct (map fst (a_kids X))"
  by (cases X) simp

lemma kids_forest_member:
  "Kp \<in> set (kids_forest alph X q) \<Longrightarrow> \<exists>c. c \<in> set alph \<and> snd Kp = q @ [c] \<and> map_of (a_kids X) c = Some (fst Kp)"
  by (auto simp: kids_forest_def split: option.splits)

lemma forest_ok_kids:
  assumes "repr h X" and "distinct_keys X"
  shows "forest_ok h (kids_forest alph X q)"
  unfolding forest_ok_def
proof
  fix Kp assume "Kp \<in> set (kids_forest alph X q)"
  then obtain c where c: "map_of (a_kids X) c = Some (fst Kp)" using kids_forest_member by blast
  then have "(c, fst Kp) \<in> set (a_kids X)" by (rule map_of_SomeD)
  then show "repr h (fst Kp) \<and> distinct_keys (fst Kp)"
    using assms repr_kid[OF assms(1)] by (cases X) force
qed

lemma below_self: "Kp \<in> set Ks \<Longrightarrow> below alph Ks Kp"
  unfolding below_def by (rule bexI[of _ Kp]) auto

lemma below_mono: "below alph Ks Kp \<Longrightarrow> set Ks \<subseteq> set Ks' \<Longrightarrow> below alph Ks' Kp"
  unfolding below_def by blast

lemma below_kids:
  assumes "below alph (kids_forest alph K p @ rest) Kp'"
  shows "below alph ((K, p) # rest) Kp'"
proof -
  from assms obtain Kp r where Kp: "Kp \<in> set (kids_forest alph K p @ rest)"
    "snd Kp' = snd Kp @ r" "a_sub (fst Kp) r = Some (fst Kp')" and ra: "set r \<subseteq> set alph"
    unfolding below_def by blast
  show ?thesis
  proof (cases "Kp \<in> set rest")
    case True
    then show ?thesis unfolding below_def using Kp(2,3) ra by auto
  next
    case False
    then have "Kp \<in> set (kids_forest alph K p)" using Kp(1) by simp
    then obtain c where c: "snd Kp = p @ [c]" "map_of (a_kids K) c = Some (fst Kp)" "c \<in> set alph"
      using kids_forest_member by blast
    have "snd Kp' = p @ (c # r)" using Kp(2) c(1) by simp
    moreover have "a_sub K (c # r) = Some (fst Kp')" using c(2) Kp(3) by simp
    moreover have "set (c # r) \<subseteq> set alph" using c(3) ra by simp
    ultimately show ?thesis unfolding below_def by (intro bexI[of _ "(K, p)"] exI[of _ "c # r"]) auto
  qed
qed

lemma advance:
  fixes Ks :: "(('c, 'v) atree \<times> 'c list) list"
  assumes "forest_ok h Ks"
  shows "(f_items alph Ks = [] \<and> iterate_nodes_loop h alph (stack_of Ks) = Some None)
       \<or> (\<exists>X q Ks'. iterate_nodes_loop h alph (stack_of Ks)
                = Some (Some ((a_addr X, q), Generator (Some (a_addr X, q)) (stack_of Ks')))
              \<and> a_val X \<noteq> Sentinel \<and> repr h X \<and> distinct_keys X \<and> forest_ok h Ks'
              \<and> f_items alph Ks = (a_addr X, q) # f_items alph (kids_forest alph X q @ Ks')
              \<and> f_work alph (kids_forest alph X q @ Ks') < f_work alph Ks
              \<and> below alph Ks (X, q) \<and> (\<forall>Kp \<in> set Ks'. below alph Ks Kp))"
  using assms
proof (induction "f_work alph Ks" arbitrary: Ks rule: less_induct)
  case less
  show ?case
  proof (cases Ks)
    case Nil
    have "iterate_nodes_loop h alph [] = Some None"
      by (subst iterate_nodes_loop.simps) simp
    then show ?thesis using Nil by simp
  next
    case (Cons Kp rest)
    obtain K p where Kp: "Kp = (K, p)" by (cases Kp)
    have rK: "repr h K" and dK: "distinct_keys K" and rest_ok: "forest_ok h rest"
      using less.prems Cons Kp by auto
    have val: "nvalue (h ! a_addr K) = a_val K" using repr_nvalue[OF rK] .
    have items: "f_items alph Ks = (if a_val K \<noteq> Sentinel then [(a_addr K, p)] else [])
        @ f_items alph (kids_forest alph K p @ rest)"
      using a_items_unfold[OF distinct_keys_kids[OF dK], of p alph] Cons Kp by simp
    have work: "f_work alph Ks = Suc (f_work alph (kids_forest alph K p @ rest))"
      using a_work_unfold[OF distinct_keys_kids[OF dK], of alph p] Cons Kp by simp
    show ?thesis
    proof (cases "a_val K \<noteq> Sentinel")
      case True
      have "iterate_nodes_loop h alph (stack_of Ks)
          = Some (Some ((a_addr K, p), Generator (Some (a_addr K, p)) (stack_of rest)))"
        using True val Cons Kp by (subst iterate_nodes_loop.simps) simp
      moreover have "below alph Ks (K, p)" using below_self[of "(K, p)" Ks alph] Cons Kp by simp
      moreover have "\<forall>Kp \<in> set rest. below alph Ks Kp" using below_self[of _ Ks alph] Cons by simp
      moreover have "f_items alph Ks = (a_addr K, p) # f_items alph (kids_forest alph K p @ rest)"
        using items True by simp
      moreover have "f_work alph (kids_forest alph K p @ rest) < f_work alph Ks" using work by simp
      ultimately show ?thesis using True rK dK rest_ok by blast
    next
      case False
      define Ks1 where "Ks1 = kids_forest alph K p @ rest"
      have ok1: "forest_ok h Ks1" using forest_ok_kids[OF rK dK] rest_ok by (simp add: Ks1_def)
      have lt: "f_work alph Ks1 < f_work alph Ks" using work by (simp add: Ks1_def)
      have step: "iterate_nodes_loop h alph (stack_of Ks) = iterate_nodes_loop h alph (stack_of Ks1)"
        using False val Cons Kp push_children_forest[OF rK, of p alph "stack_of rest"]
        by (subst iterate_nodes_loop.simps) (simp add: Ks1_def)
      have items1: "f_items alph Ks = f_items alph Ks1" using items False by (simp add: Ks1_def)
      from less.hyps[OF lt ok1]
      show ?thesis
      proof (elim disjE exE conjE)
        assume "f_items alph Ks1 = []" "iterate_nodes_loop h alph (stack_of Ks1) = Some None"
        then show ?thesis using step items1 by simp
      next
        fix X q Ks'
        assume A: "iterate_nodes_loop h alph (stack_of Ks1)
                = Some (Some ((a_addr X, q), Generator (Some (a_addr X, q)) (stack_of Ks')))"
          "a_val X \<noteq> Sentinel" "repr h X" "distinct_keys X" "forest_ok h Ks'"
          "f_items alph Ks1 = (a_addr X, q) # f_items alph (kids_forest alph X q @ Ks')"
          "f_work alph (kids_forest alph X q @ Ks') < f_work alph Ks1"
          "below alph Ks1 (X, q)" "\<forall>Kp \<in> set Ks'. below alph Ks1 Kp"
        have b1: "below alph Ks (X, q)" using below_kids[of alph K p rest "(X, q)"] A(8) Cons Kp
          by (simp add: Ks1_def)
        have b2: "\<forall>Kp \<in> set Ks'. below alph Ks Kp"
          using below_kids[of alph K p rest] A(9) Cons Kp by (simp add: Ks1_def)
        have w: "f_work alph (kids_forest alph X q @ Ks') < f_work alph Ks" using A(7) lt by simp
        have s1: "iterate_nodes_loop h alph (stack_of Ks)
                = Some (Some ((a_addr X, q), Generator (Some (a_addr X, q)) (stack_of Ks')))"
          using step A(1) by simp
        have i1: "f_items alph Ks = (a_addr X, q) # f_items alph (kids_forest alph X q @ Ks')"
          using items1 A(6) by simp
        show ?thesis
          by (rule disjI2, intro exI[of _ X] exI[of _ q] exI[of _ Ks'] conjI)
            (rule s1 A(2) A(3) A(4) A(5) i1 w b1 b2)+
      qed
    qed
  qed
qed

lemma generator_next_resume:
  "generator_next h alph (Generator (Some (n, p)) stk)
     = generator_next h alph (Generator None (push_children h n p (rev alph) stk))"
  by (simp add: generator_next_def)

lemma iterate_all_resume:
  "iterate_all h alph (Generator (Some (n, p)) stk)
     = iterate_all h alph (Generator None (push_children h n p (rev alph) stk))"
  by (subst iterate_all.simps, subst (2) iterate_all.simps) (simp add: generator_next_resume)

lemma iterate_all_forest:
  fixes Ks :: "(('c, 'v) atree \<times> 'c list) list"
  assumes "forest_ok h Ks"
  shows "iterate_all h alph (Generator None (stack_of Ks)) = Some (f_items alph Ks)"
  using assms
proof (induction "f_work alph Ks" arbitrary: Ks rule: less_induct)
  case less
  have gn: "generator_next h alph (Generator None (stack_of Ks)) = iterate_nodes_loop h alph (stack_of Ks)"
    by (simp add: generator_next_def)
  from advance[OF less.prems, of alph]
  show ?case
  proof (elim disjE exE conjE)
    assume "f_items alph Ks = []" "iterate_nodes_loop h alph (stack_of Ks) = Some None"
    then show ?thesis by (subst iterate_all.simps) (simp add: gn)
  next
    fix X q Ks'
    assume A: "iterate_nodes_loop h alph (stack_of Ks)
                = Some (Some ((a_addr X, q), Generator (Some (a_addr X, q)) (stack_of Ks')))"
      "a_val X \<noteq> Sentinel" "repr h X" "distinct_keys X" "forest_ok h Ks'"
      "f_items alph Ks = (a_addr X, q) # f_items alph (kids_forest alph X q @ Ks')"
      "f_work alph (kids_forest alph X q @ Ks') < f_work alph Ks"
    have ok: "forest_ok h (kids_forest alph X q @ Ks')" using forest_ok_kids[OF A(3,4)] A(5) by simp
    have "iterate_all h alph (Generator (Some (a_addr X, q)) (stack_of Ks'))
        = iterate_all h alph (Generator None (stack_of (kids_forest alph X q @ Ks')))"
      using iterate_all_resume[of h alph "a_addr X" q "stack_of Ks'"] push_children_forest[OF A(3)]
      by simp
    also have "\<dots> = Some (f_items alph (kids_forest alph X q @ Ks'))"
      using less.hyps[OF A(7) ok] .
    finally show ?thesis using A(1,6) by (subst iterate_all.simps) (simp add: gn)
  qed
qed

lemma a_items_kids:
  assumes "distinct (map fst ks)"
  shows "a_items alph (ANode a ks v) =
     (if v \<noteq> Sentinel then [([], a)] else []) @
     concat (map (\<lambda>c. case map_of ks c of None \<Rightarrow> []
                      | Some K \<Rightarrow> map (\<lambda>qb. (c # fst qb, snd qb)) (a_items alph K)) alph)"
proof -
  have "\<And>c. concat (map (\<lambda>x. if fst x = c
                                then map (\<lambda>qb. (c # fst qb, snd qb)) (a_items alph (snd x))
                                else []) ks)
      = (case map_of ks c of None \<Rightarrow> [] | Some K \<Rightarrow> map (\<lambda>qb. (c # fst qb, snd qb)) (a_items alph K))"
    using concat_kid_select[OF assms, of _ "\<lambda>K. map (\<lambda>qb. (_ # fst qb, snd qb)) (a_items alph K)"]
    by simp
  then show ?thesis by simp
qed

lemma items_block_mem:
  "(c # s, b) \<in> set (concat (map (\<lambda>c. case map_of ks c of None \<Rightarrow> []
                      | Some K \<Rightarrow> map (\<lambda>qb. (c # fst qb, snd qb)) (F K)) cs))
     \<longleftrightarrow> c \<in> set cs \<and> (\<exists>K. map_of ks c = Some K \<and> (s, b) \<in> set (F K))"
proof (induction cs)
  case Nil
  then show ?case by simp
next
  case (Cons d cs)
  show ?case
  proof (cases "map_of ks d")
    case None
    then show ?thesis using Cons by auto
  next
    case (Some K')
    have "(c # s, b) \<in> (\<lambda>qb. (d # fst qb, snd qb)) ` set (F K')
        \<longleftrightarrow> c = d \<and> (s, b) \<in> set (F K')"
      by force
    then show ?thesis using Cons Some by auto
  qed
qed

lemma a_items_mem:
  fixes T :: "('c, 'v) atree"
  assumes "distinct_keys T"
  shows "(s, b) \<in> set (a_items alph T) \<longleftrightarrow>
           s \<in> lists (set alph) \<and> (\<exists>X. a_sub T s = Some X \<and> a_val X \<noteq> Sentinel \<and> a_addr X = b)"
  using assms
proof (induction s arbitrary: T b)
  case Nil
  obtain a ks v where T: "T = ANode a ks v" by (cases T)
  have dk: "distinct (map fst ks)" using Nil T by simp
  show ?case unfolding T a_items_kids[OF dk] by (auto split: option.splits)
next
  case (Cons c s)
  obtain a ks v where T: "T = ANode a ks v" by (cases T)
  have dk: "distinct (map fst ks)" using Cons.prems T by simp
  show ?case
  proof (cases "map_of ks c")
    case None
    then show ?thesis unfolding T a_items_kids[OF dk] by (auto split: option.splits)
  next
    case (Some K)
    then have "(c, K) \<in> set ks" by (rule map_of_SomeD)
    then have dK: "distinct_keys K" using Cons.prems T by auto
    have "(c # s, b) \<in> set (a_items alph T) \<longleftrightarrow> c \<in> set alph \<and> (s, b) \<in> set (a_items alph K)"
      unfolding T a_items_kids[OF dk] using Some
        items_block_mem[where c = c and s = s and b = b and ks = ks and F = "a_items alph" and cs = alph] by simp
    then show ?thesis using Cons.IH[OF dK, of b] Some T by auto
  qed
qed

lemma position_nth:
  assumes "distinct alph" and "i < length alph"
  shows "position alph (alph ! i) = i"
proof -
  have "takeWhile (\<lambda>x. x \<noteq> alph ! i) alph = take i alph"
  proof (rule takeWhile_eq_take_P_nth)
    fix j assume "j < i" "j < length alph"
    then show "alph ! j \<noteq> alph ! i" using assms by (simp add: nth_eq_iff_index_eq)
  next
    show "\<not> alph ! i \<noteq> alph ! i" by simp
  qed
  then show ?thesis using assms(2) by (simp add: position_def)
qed

lemma position_sorted:
  assumes "distinct alph"
  shows "sorted_wrt (\<lambda>c c'. position alph c < position alph c') alph"
  unfolding sorted_wrt_iff_nth_less using position_nth[OF assms] by simp

lemma sorted_blocks:
  assumes "sorted_wrt (\<lambda>c c'. position alph c < position alph c') cs"
    and "\<And>c. c \<in> set cs \<Longrightarrow> sorted_wrt (lex_less alph) (G c)"
    and "\<And>c k. c \<in> set cs \<Longrightarrow> k \<in> set (G c) \<Longrightarrow> \<exists>r. k = c # r"
  shows "sorted_wrt (lex_less alph) (concat (map G cs))"
  using assms
proof (induction cs)
  case Nil
  then show ?case by simp
next
  case (Cons c cs)
  have 1: "sorted_wrt (lex_less alph) (G c)" using Cons.prems(2) by simp
  have 2: "sorted_wrt (lex_less alph) (concat (map G cs))"
    using Cons.IH Cons.prems by simp
  have 3: "lex_less alph x y" if "x \<in> set (G c)" "y \<in> set (concat (map G cs))" for x y
  proof -
    from that(2) obtain c' where c': "c' \<in> set cs" "y \<in> set (G c')" by auto
    have "\<exists>r. x = c # r" using Cons.prems(3)[of c x] \<open>x \<in> set (G c)\<close> by simp
    then obtain r where r: "x = c # r" by blast
    have "\<exists>r'. y = c' # r'" using Cons.prems(3)[of c' y] c' by simp
    then obtain r' where r': "y = c' # r'" by blast
    have "position alph c < position alph c'" using Cons.prems(1) c'(1) by simp
    then show ?thesis using r r' by simp
  qed
  show ?case using 1 2 3 by (simp add: sorted_wrt_append)
qed

lemma a_items_sorted:
  fixes T :: "('c, 'v) atree"
  assumes "distinct alph" and "distinct_keys T"
  shows "sorted_wrt (lex_less alph) (map fst (a_items alph T))"
  using assms(2)
proof (induction T)
  case (ANode a ks v)
  have dk: "distinct (map fst ks)" using ANode.prems by simp
  define G where "G c = (case map_of ks c of None \<Rightarrow> []
      | Some K \<Rightarrow> map (\<lambda>q. c # q) (map fst (a_items alph K)))" for c
  have eq: "map fst (a_items alph (ANode a ks v))
      = (if v \<noteq> Sentinel then [[]] else []) @ concat (map G alph)"
    unfolding a_items_kids[OF dk] G_def
    by (auto simp: map_concat comp_def split: option.splits intro!: arg_cong[where f = concat])
  have blk: "sorted_wrt (lex_less alph) (G c)" for c
  proof (cases "map_of ks c")
    case None
    then show ?thesis by (simp add: G_def)
  next
    case (Some K)
    then have in_ks: "(c, K) \<in> set ks" by (rule map_of_SomeD)
    then have "distinct_keys K" using ANode.prems by auto
    then have "sorted_wrt (lex_less alph) (map fst (a_items alph K))"
      using ANode.IH[of "(c, K)" K] in_ks by simp
    then show ?thesis using Some by (simp add: G_def sorted_wrt_map)
  qed
  have hd: "\<exists>r. k = c # r" if "k \<in> set (G c)" for c k
    using that by (auto simp: G_def split: option.splits)
  have "sorted_wrt (lex_less alph) (concat (map G alph))"
    using sorted_blocks[OF position_sorted[OF assms(1)], of G] blk hd by blast
  moreover have "lex_less alph [] y" if "y \<in> set (concat (map G alph))" for y
  proof -
    from that obtain c where "y \<in> set (G c)" by auto
    then obtain r where "y = c # r" using hd by blast
    then show ?thesis by simp
  qed
  ultimately show ?case unfolding eq by (simp add: sorted_wrt_append)
qed

lemma a_items_values:
  fixes K :: "('c, 'v) atree"
  assumes "repr h K" and "distinct_keys K"
  shows "map (\<lambda>qb. nvalue (h ! snd qb)) (a_items alph K)
       = map (\<lambda>qb. the (a_slot K (fst qb))) (a_items alph K)"
proof (rule map_cong[OF refl])
  fix qb assume "qb \<in> set (a_items alph K)"
  then have "(fst qb, snd qb) \<in> set (a_items alph K)" by simp
  then obtain X where X: "a_sub K (fst qb) = Some X" "a_addr X = snd qb"
    using a_items_mem[OF assms(2), of "fst qb" "snd qb" alph] by blast
  have "repr h X" using a_sub_repr[OF X(1) assms(1)] .
  then have "nvalue (h ! a_addr X) = a_val X" by (rule repr_nvalue)
  then show "nvalue (h ! snd qb) = the (a_slot K (fst qb))" using X by (simp add: a_slot_def)
qed

lemma iterate_all_repr:
  fixes T :: "('c, 'v) atree"
  assumes "repr h T" and "wf_tree T" and "a_addr T = t_root t"
  shows "iterate_all h alph (iterate_nodes (get_node h t p))
       = Some (case a_sub T p of None \<Rightarrow> []
               | Some K \<Rightarrow> map (\<lambda>qb. (snd qb, fst qb)) (a_items alph K))"
proof (cases "a_sub T p")
  case None
  then have "get_node h t p = None" using get_node_repr[OF assms(1,3), of p] by simp
  moreover have "iterate_all h alph (Generator None (stack_of ([] :: (('c, 'v) atree \<times> 'c list) list)))
      = Some (f_items alph ([] :: (('c, 'v) atree \<times> 'c list) list))"
    by (rule iterate_all_forest) simp
  ultimately show ?thesis using None by (simp add: iterate_nodes_def)
next
  case (Some K)
  then have g: "get_node h t p = Some (a_addr K)" using get_node_repr[OF assms(1,3), of p] by simp
  have rK: "repr h K" using a_sub_repr[OF Some assms(1)] .
  have "wf_tree K" using a_sub_wf[OF Some assms(2)] .
  then have dK: "distinct_keys K" by (simp add: wf_tree_def)
  have "iterate_all h alph (Generator None (stack_of [(K, [])])) = Some (f_items alph [(K, [])])"
    by (rule iterate_all_forest) (simp add: rK dK)
  then show ?thesis using Some g by (simp add: iterate_nodes_def)
qed

lemma evolves_refl: "evolves h T h T"
  by (simp add: evolves_def)

lemma evolves_trans:
  assumes "evolves h T h1 T1" and "evolves h1 T1 h2 T2"
  shows "evolves h T h2 T2"
proof -
  have l1: "length h \<le> length h1" and l2: "length h1 \<le> length h2"
    using assms by (simp_all add: evolves_def)
  have f1: "\<And>x. x < length h \<Longrightarrow> x \<notin> set (addrs T) \<Longrightarrow> h1 ! x = h ! x"
    using assms(1) by (simp add: evolves_def)
  have f2: "\<And>x. x < length h1 \<Longrightarrow> x \<notin> set (addrs T1) \<Longrightarrow> h2 ! x = h1 ! x"
    using assms(2) by (simp add: evolves_def)
  have a1: "set (addrs T1) \<subseteq> set (addrs T) \<union> {length h ..< length h1}"
    using assms(1) by (simp add: evolves_def)
  have a2: "set (addrs T2) \<subseteq> set (addrs T1) \<union> {length h1 ..< length h2}"
    using assms(2) by (simp add: evolves_def)
  have "h2 ! x = h ! x" if "x < length h" "x \<notin> set (addrs T)" for x
  proof -
    have "x \<notin> set (addrs T1)" using a1 that by auto
    then have "h2 ! x = h1 ! x" using f2[of x] that(1) l1 by simp
    then show ?thesis using f1[OF that] by simp
  qed
  moreover have "set (addrs T2) \<subseteq> set (addrs T) \<union> {length h ..< length h2}"
  proof
    fix x assume "x \<in> set (addrs T2)"
    then have "x \<in> set (addrs T1) \<or> x \<in> {length h1 ..< length h2}" using a2 by auto
    then show "x \<in> set (addrs T) \<union> {length h ..< length h2}"
    proof
      assume "x \<in> set (addrs T1)"
      then have "x \<in> set (addrs T) \<or> x \<in> {length h ..< length h1}" using a1 by auto
      then show ?thesis using l2 by auto
    next
      assume "x \<in> {length h1 ..< length h2}"
      then show ?thesis using l1 by auto
    qed
  qed
  moreover have "a_addr T2 = a_addr T" using assms by (simp add: evolves_def)
  ultimately show ?thesis using l1 l2 by (simp add: evolves_def)
qed

lemma evolves_frame:
  assumes "evolves h T h' T'" and "repr h K" and "set (addrs K) \<inter> set (addrs T) = {}"
  shows "repr h' K" and "set (addrs K) \<inter> set (addrs T') = {}"
proof -
  have lt: "\<And>a. a \<in> set (addrs K) \<Longrightarrow> a < length h" using repr_addrs_lt[OF assms(2)] .
  show "repr h' K"
  proof (rule repr_frame[OF assms(2)])
    fix a assume a: "a \<in> set (addrs K)"
    then have "a \<notin> set (addrs T)" using assms(3) by auto
    then show "h' ! a = h ! a" using assms(1) lt[OF a] by (simp add: evolves_def)
  next
    show "length h \<le> length h'" using assms(1) by (simp add: evolves_def)
  qed
  have sub: "set (addrs T') \<subseteq> set (addrs T) \<union> {length h ..< length h'}"
    using assms(1) by (simp add: evolves_def)
  show "set (addrs K) \<inter> set (addrs T') = {}"
  proof (rule ccontr)
    assume "set (addrs K) \<inter> set (addrs T') \<noteq> {}"
    then obtain a where a: "a \<in> set (addrs K)" "a \<in> set (addrs T')" by auto
    then have "a \<in> set (addrs T) \<or> length h \<le> a" using sub by auto
    then show False using a(1) assms(3) lt[OF a(1)] by auto
  qed
qed

lemma insert_trie_ok:
  fixes T :: "('c, 'v) atree"
  assumes "tree_ok h t T"
  shows "\<exists>h' T'. insert_trie h t key v
              = (h', t\<lparr>t_count := t_count t + (if a_lookup T key = None then 1 else 0)\<rparr>)
          \<and> tree_ok h' (t\<lparr>t_count := t_count t + (if a_lookup T key = None then 1 else 0)\<rparr>) T'
          \<and> evolves h T h' T'
          \<and> T' = a_insert (length h) key v T"
proof -
  have r: "repr h T" and w: "wf_tree T" and p: "pruned T" and a: "a_addr T = t_root t"
    and c: "t_count t = a_count T"
    using assms by (simp_all add: tree_ok_def)
  obtain h' t' where ins: "insert_trie h t key v = (h', t')" by (cases "insert_trie h t key v")
  note S = insert_trie_sim[OF r w a ins]
  define T' where "T' = a_insert (length h) key v T"
  have wp: "wf_tree (a_path (length h) key T)"
    using insert_walk_sim[OF r w, of key] by (auto split: prod.splits)
  have cnt: "a_count T' = a_count T + (if a_lookup T key = None then 1 else 0)"
    unfolding T'_def using a_count_a_insert[OF wp] .
  have t': "t' = t\<lparr>t_count := t_count t + (if a_lookup T key = None then 1 else 0)\<rparr>"
    using S(7) .
  have ok: "tree_ok h' t' T'"
    unfolding tree_ok_def T'_def using S(1,2,3) pruned_a_insert[OF p] cnt c t'
    by (simp add: T'_def)
  have ev: "evolves h T h' T'"
    unfolding evolves_def T'_def using S(3,4,5,6) a t' by simp
  show ?thesis using ins ok ev t' T'_def by blast
qed

lemma remove_trie_ok:
  fixes T :: "('c, 'v) atree"
  assumes "tree_ok h t T" and "a_lookup T key \<noteq> None"
  shows "\<exists>h'. remove_trie h t key = (None, h', t\<lparr>t_count := t_count t - 1\<rparr>)
          \<and> tree_ok h' (t\<lparr>t_count := t_count t - 1\<rparr>) (a_remove T key)
          \<and> evolves h T h' (a_remove T key) \<and> length h' = length h"
proof -
  have r: "repr h T" and w: "wf_tree T" and p: "pruned T" and a: "a_addr T = t_root t"
    and c: "t_count t = a_count T"
    using assms(1) by (simp_all add: tree_ok_def)
  from remove_trie_present[OF r w a assms(2)]
  obtain h' where R: "remove_trie h t key = (None, h', t\<lparr>t_count := t_count t - 1\<rparr>)"
    "repr h' (a_remove T key)" "length h' = length h"
    "\<forall>x. x \<notin> set (addrs T) \<longrightarrow> h' ! x = h ! x"
    by blast
  have ok: "tree_ok h' (t\<lparr>t_count := t_count t - 1\<rparr>) (a_remove T key)"
    unfolding tree_ok_def
    using R(2) a_remove_shape[OF w, of key] pruned_a_remove[OF w p, of key]
      a_count_a_remove[OF w, of key] assms(2) a c by simp
  have ev: "evolves h T h' (a_remove T key)"
    unfolding evolves_def using R(3,4) a_remove_shape[OF w, of key] by auto
  show ?thesis using R(1,3) ok ev by blast
qed

lemma below_addrs:
  assumes "below alph Ks Kp"
  shows "\<exists>Kp0 \<in> set Ks. set (addrs (fst Kp)) \<subseteq> set (addrs (fst Kp0))"
proof -
  from assms obtain Kp0 r where "Kp0 \<in> set Ks" "a_sub (fst Kp0) r = Some (fst Kp)"
    unfolding below_def by blast
  then show ?thesis using a_sub_addrs by blast
qed

lemma forest_apart_simps [simp]:
  "forest_apart [] T"
  "forest_apart ((K, p) # Ks) T \<longleftrightarrow> set (addrs K) \<inter> set (addrs T) = {} \<and> forest_apart Ks T"
  "forest_apart (Ks @ Ks') T \<longleftrightarrow> forest_apart Ks T \<and> forest_apart Ks' T"
  by (auto simp: forest_apart_def)

lemma forest_apart_below:
  assumes "forest_apart Ks T" and "below alph Ks Kp"
  shows "set (addrs (fst Kp)) \<inter> set (addrs T) = {}"
proof -
  from below_addrs[OF assms(2)] obtain Kp0 where
    "Kp0 \<in> set Ks" "set (addrs (fst Kp)) \<subseteq> set (addrs (fst Kp0))" by blast
  then show ?thesis using assms(1) unfolding forest_apart_def by blast
qed

lemma forest_apart_kids:
  assumes "set (addrs X) \<inter> set (addrs T) = {}"
  shows "forest_apart (kids_forest alph X q) T"
  unfolding forest_apart_def
proof
  fix Kp assume "Kp \<in> set (kids_forest alph X q)"
  then obtain c where "map_of (a_kids X) c = Some (fst Kp)" using kids_forest_member by blast
  then have "a_sub X [c] = Some (fst Kp)" by simp
  then have "set (addrs (fst Kp)) \<subseteq> set (addrs X)" by (rule a_sub_addrs)
  then show "set (addrs (fst Kp)) \<inter> set (addrs T) = {}" using assms by blast
qed

lemma forest_evolves:
  assumes "evolves h T h' T'" and "forest_ok h Ks" and "forest_apart Ks T"
  shows "forest_ok h' Ks" and "forest_apart Ks T'"
  using assms evolves_frame[OF assms(1)]
  unfolding forest_ok_def forest_apart_def by blast+

lemma difference_update_loop_resume:
  "difference_update_loop h t alph (Generator (Some (n, p)) stk)
     = difference_update_loop h t alph (Generator None (push_children h n p (rev alph) stk))"
  by (subst difference_update_loop.simps, subst (2) difference_update_loop.simps)
    (simp add: generator_next_resume)

lemma difference_update_loop_sim:
  fixes T :: "('c, 'v) atree" and Ks :: "(('c, 'v) atree \<times> 'c list) list"
  assumes "tree_ok h t T" and "forest_ok h Ks" and "forest_apart Ks T"
  shows "\<exists>h' n T'. difference_update_loop h t alph (Generator None (stack_of Ks))
              = Some (None, h', t\<lparr>t_count := n\<rparr>)
          \<and> tree_ok h' (t\<lparr>t_count := n\<rparr>) T' \<and> evolves h T h' T'
          \<and> (\<forall>q. a_lookup T' q = (if q \<in> snd ` set (f_items alph Ks) then None else a_lookup T q))"
  using assms
proof (induction "f_work alph Ks" arbitrary: Ks h t T rule: less_induct)
  case less
  have gn: "generator_next h alph (Generator None (stack_of Ks)) = iterate_nodes_loop h alph (stack_of Ks)"
    by (simp add: generator_next_def)
  from advance[OF less.prems(2), of alph]
  show ?case
  proof (elim disjE exE conjE)
    assume E: "f_items alph Ks = []" "iterate_nodes_loop h alph (stack_of Ks) = Some None"
    have 1: "difference_update_loop h t alph (Generator None (stack_of Ks)) = Some (None, h, t\<lparr>t_count := t_count t\<rparr>)"
      using E(2) by (subst difference_update_loop.simps) (simp add: gn)
    have 2: "tree_ok h (t\<lparr>t_count := t_count t\<rparr>) T" using less.prems(1) by simp
    have 3: "\<forall>q. a_lookup T q = (if q \<in> snd ` set (f_items alph Ks) then None else a_lookup T q)"
      using E(1) by simp
    show ?thesis
      by (intro exI conjI) (rule 1 2 evolves_refl 3)+
  next
    fix X q Ks'
    assume A: "iterate_nodes_loop h alph (stack_of Ks)
                = Some (Some ((a_addr X, q), Generator (Some (a_addr X, q)) (stack_of Ks')))"
      "a_val X \<noteq> Sentinel" "repr h X" "distinct_keys X" "forest_ok h Ks'"
      "f_items alph Ks = (a_addr X, q) # f_items alph (kids_forest alph X q @ Ks')"
      "f_work alph (kids_forest alph X q @ Ks') < f_work alph Ks"
      "below alph Ks (X, q)" "\<forall>Kp \<in> set Ks'. below alph Ks Kp"
    define Ks1 where "Ks1 = kids_forest alph X q @ Ks'"
    have apX: "set (addrs X) \<inter> set (addrs T) = {}"
      using forest_apart_below[OF less.prems(3) A(8)] by simp
    have ap': "forest_apart Ks' T"
      unfolding forest_apart_def using forest_apart_below[OF less.prems(3)] A(9) by blast
    have ok1: "forest_ok h Ks1" using forest_ok_kids[OF A(3,4)] A(5) by (simp add: Ks1_def)
    have ap1: "forest_apart Ks1 T" using forest_apart_kids[OF apX] ap' by (simp add: Ks1_def)
    have r: "repr h T" and a: "a_addr T = t_root t" using less.prems(1) by (simp_all add: tree_ok_def)
    have cont: "contains h t q \<longleftrightarrow> a_lookup T q \<noteq> None" using contains_repr[OF r a] .
    have items: "snd ` set (f_items alph Ks) = insert q (snd ` set (f_items alph Ks1))"
      using A(6) by (simp add: Ks1_def)
    show ?thesis
    proof (cases "a_lookup T q = None")
      case True
      have step: "difference_update_loop h t alph (Generator None (stack_of Ks))
          = difference_update_loop h t alph (Generator None (stack_of Ks1))"
        using A(1) cont True push_children_forest[OF A(3), of q alph "stack_of Ks'"]
        by (subst difference_update_loop.simps)
          (simp add: gn difference_update_loop_resume Ks1_def)
      from less.hyps[OF _ less.prems(1) ok1 ap1] A(7)
      obtain h' n T' where R: "difference_update_loop h t alph (Generator None (stack_of Ks1))
              = Some (None, h', t\<lparr>t_count := n\<rparr>)"
          "tree_ok h' (t\<lparr>t_count := n\<rparr>) T'" "evolves h T h' T'"
          "\<forall>q'. a_lookup T' q' = (if q' \<in> snd ` set (f_items alph Ks1) then None else a_lookup T q')"
        unfolding Ks1_def by blast
      have lk: "\<forall>q'. a_lookup T' q' = (if q' \<in> snd ` set (f_items alph Ks) then None else a_lookup T q')"
        unfolding items using R(4) True by simp
      have 1: "difference_update_loop h t alph (Generator None (stack_of Ks))
              = Some (None, h', t\<lparr>t_count := n\<rparr>)" using step R(1) by simp
      show ?thesis
        by (intro exI conjI) (rule 1 R(2) R(3) lk)+
    next
      case False
      from remove_trie_ok[OF less.prems(1) False]
      obtain h1 where R1: "remove_trie h t q = (None, h1, t\<lparr>t_count := t_count t - 1\<rparr>)"
        "tree_ok h1 (t\<lparr>t_count := t_count t - 1\<rparr>) (a_remove T q)"
        "evolves h T h1 (a_remove T q)"
        by blast
      define t1 where "t1 = t\<lparr>t_count := t_count t - 1\<rparr>"
      have rX1: "repr h1 X" using evolves_frame(1)[OF R1(3) A(3) apX] .
      have ok1': "forest_ok h1 Ks1" and ap1': "forest_apart Ks1 (a_remove T q)"
        using forest_evolves[OF R1(3) ok1 ap1] by simp_all
      have okK': "forest_ok h1 Ks'" using forest_evolves(1)[OF R1(3) A(5) ap'] .
      have step: "difference_update_loop h t alph (Generator None (stack_of Ks))
          = difference_update_loop h1 t1 alph (Generator None (stack_of Ks1))"
        using A(1) cont False R1(1) push_children_forest[OF rX1, of q alph "stack_of Ks'"]
        by (subst difference_update_loop.simps)
          (simp add: gn difference_update_loop_resume Ks1_def t1_def)
      from less.hyps[OF _ R1(2)[folded t1_def] ok1' ap1'] A(7)
      obtain h' n T' where R: "difference_update_loop h1 t1 alph (Generator None (stack_of Ks1))
              = Some (None, h', t1\<lparr>t_count := n\<rparr>)"
          "tree_ok h' (t1\<lparr>t_count := n\<rparr>) T'" "evolves h1 (a_remove T q) h' T'"
          "\<forall>q'. a_lookup T' q' = (if q' \<in> snd ` set (f_items alph Ks1) then None
                 else a_lookup (a_remove T q) q')"
        unfolding Ks1_def by blast
      have t1n: "t1\<lparr>t_count := n\<rparr> = t\<lparr>t_count := n\<rparr>" by (simp add: t1_def)
      have lk: "\<forall>q'. a_lookup T' q' = (if q' \<in> snd ` set (f_items alph Ks) then None else a_lookup T q')"
        unfolding items using R(4) by (simp add: a_lookup_a_remove)
      have ev: "evolves h T h' T'" using evolves_trans[OF R1(3) R(3)] .
      have 1: "difference_update_loop h t alph (Generator None (stack_of Ks))
              = Some (None, h', t\<lparr>t_count := n\<rparr>)" using step R(1) t1n by simp
      have 2: "tree_ok h' (t\<lparr>t_count := n\<rparr>) T'" using R(2) t1n by simp
      show ?thesis
        by (intro exI conjI) (rule 1 2 ev lk)+
    qed
  qed
qed

lemma unocc_val: "unocc K \<Longrightarrow> a_val K = Sentinel"
  by (cases K) simp

lemma unocc_sub: "unocc K \<Longrightarrow> a_sub K r = Some Y \<Longrightarrow> unocc Y"
proof (induction r arbitrary: K)
  case Nil
  then show ?case by simp
next
  case (Cons c r)
  obtain a ks v where K: "K = ANode a ks v" by (cases K)
  from Cons.prems(2) K obtain K1 where K1: "map_of ks c = Some K1" "a_sub K1 r = Some Y"
    by (auto split: option.splits)
  have "(c, K1) \<in> set ks" using K1(1) by (rule map_of_SomeD)
  then have "unocc K1" using Cons.prems(1) K by auto
  then show ?case using Cons.IH K1(2) by blast
qed

lemma unocc_lookup: "unocc K \<Longrightarrow> a_lookup K r = None"
proof (cases "a_sub K r")
  case None
  then show ?thesis by (simp add: a_lookup_def a_slot_def)
next
  case (Some Y)
  assume "unocc K"
  then have "a_val Y = Sentinel" using unocc_sub[OF _ Some] unocc_val by blast
  then show ?thesis using Some by (simp add: a_lookup_def a_slot_def)
qed

lemma unocc_from_sub:
  "distinct_keys K \<Longrightarrow> (\<And>r Y. a_sub K r = Some Y \<Longrightarrow> a_val Y = Sentinel) \<Longrightarrow> unocc K"
proof (induction K)
  case (ANode a ks v)
  have dk: "distinct (map fst ks)" using ANode.prems(1) by simp
  have v: "v = Sentinel" using ANode.prems(2)[of "[]" "ANode a ks v"] by simp
  have "unocc (snd x)" if x: "x \<in> set ks" for x
  proof (rule ANode.IH[of x "snd x"])
    show "x \<in> set ks" by (rule x)
    show "snd x \<in> Basic_BNFs.snds x" by (cases x) (simp add: snds.simps)
    show "distinct_keys (snd x)" using ANode.prems(1) x by simp
    fix r Y assume "a_sub (snd x) r = Some Y"
    moreover have "map_of ks (fst x) = Some (snd x)" using dk x by (cases x) simp
    ultimately have "a_sub (ANode a ks v) (fst x # r) = Some Y" by simp
    then show "a_val Y = Sentinel" by (rule ANode.prems(2))
  qed
  then show ?case using v by simp
qed

lemma a_sub_distinct_keys: "a_sub T p = Some S \<Longrightarrow> distinct_keys T \<Longrightarrow> distinct_keys S"
proof (induction p arbitrary: T)
  case Nil
  then show ?case by simp
next
  case (Cons c p)
  obtain a ks v where T: "T = ANode a ks v" by (cases T)
  from Cons.prems(1) T obtain S' where S': "map_of ks c = Some S'" "a_sub S' p = Some S"
    by (auto split: option.splits)
  have "(c, S') \<in> set ks" using S'(1) by (rule map_of_SomeD)
  then have "distinct_keys S'" using Cons.prems(2) T by auto
  then show ?case using Cons.IH[OF S'(2)] by simp
qed

lemma a_lookup_sub:
  "a_sub T p = Some K \<Longrightarrow> a_lookup T (p @ s) = a_lookup K s"
  by (simp add: a_lookup_def a_slot_def a_sub_append)

lemma entry_ok_below:
  fixes T :: "('c, 'v) atree"
  assumes "\<forall>Kp \<in> set Ks. entry_ok h T Kp" and "below alph Ks Kp'"
  shows "entry_ok h T Kp'"
proof -
  from assms(2) obtain Kp r where Kp: "Kp \<in> set Ks" "snd Kp' = snd Kp @ r"
    "a_sub (fst Kp) r = Some (fst Kp')"
    unfolding below_def by blast
  have E: "entry_ok h T Kp" using assms(1) Kp(1) by simp
  then have r: "repr h (fst Kp)" and d: "distinct_keys (fst Kp)" by (simp_all add: entry_ok_def)
  have r': "repr h (fst Kp')" using a_sub_repr[OF Kp(3) r] .
  have d': "distinct_keys (fst Kp')" using a_sub_distinct_keys[OF Kp(3) d] .
  from E consider (att) "a_sub T (snd Kp) = Some (fst Kp)"
    | (stale) "unocc (fst Kp)" "set (addrs (fst Kp)) \<inter> set (addrs T) = {}"
    unfolding entry_ok_def by blast
  then show ?thesis
  proof cases
    case att
    then have "a_sub T (snd Kp') = Some (fst Kp')" using Kp(2,3) by (simp add: a_sub_append)
    then show ?thesis using r' d' by (simp add: entry_ok_def)
  next
    case stale
    have "unocc (fst Kp')" using unocc_sub[OF stale(1) Kp(3)] .
    moreover have "set (addrs (fst Kp')) \<inter> set (addrs T) = {}"
      using a_sub_addrs[OF Kp(3)] stale(2) by blast
    ultimately show ?thesis using r' d' by (simp add: entry_ok_def)
  qed
qed

lemma below_path:
  assumes "below alph Ks Kp'" and "\<forall>Kp \<in> set Ks. set (snd Kp) \<subseteq> set alph"
  shows "set (snd Kp') \<subseteq> set alph"
proof -
  from assms(1) obtain Kp r where Kp: "Kp \<in> set Ks" "set r \<subseteq> set alph" "snd Kp' = snd Kp @ r"
    unfolding below_def by blast
  have "set (snd Kp) \<subseteq> set alph" using assms(2) Kp(1) by simp
  then show ?thesis using Kp(2,3) by simp
qed

lemma entry_ok_kids:
  fixes T :: "('c, 'v) atree"
  assumes "entry_ok h T (X, q)"
  shows "\<forall>Kp \<in> set (kids_forest alph X q). entry_ok h T Kp \<and> set (snd Kp) \<subseteq> set (q @ alph)"
proof
  fix Kp assume "Kp \<in> set (kids_forest alph X q)"
  then obtain c where c: "c \<in> set alph" "snd Kp = q @ [c]" "map_of (a_kids X) c = Some (fst Kp)"
    using kids_forest_member by blast
  have "below alph [(X, q)] Kp"
    unfolding below_def using c by (intro bexI[of _ "(X, q)"] exI[of _ "[c]"]) auto
  then have "entry_ok h T Kp" using entry_ok_below[of "[(X, q)]" h T alph Kp] assms by simp
  then show "entry_ok h T Kp \<and> set (snd Kp) \<subseteq> set (q @ alph)" using c by auto
qed

lemma a_items_occ:
  fixes K :: "('c, 'v) atree"
  assumes "distinct_keys K"
  shows "s \<in> fst ` set (a_items alph K) \<longleftrightarrow> set s \<subseteq> set alph \<and> a_lookup K s \<noteq> None"
proof -
  have "s \<in> fst ` set (a_items alph K) \<longleftrightarrow> (\<exists>b. (s, b) \<in> set (a_items alph K))"
    by (force simp: image_iff)
  also have "\<dots> \<longleftrightarrow> s \<in> lists (set alph) \<and> (\<exists>X. a_sub K s = Some X \<and> a_val X \<noteq> Sentinel)"
    unfolding a_items_mem[OF assms] by blast
  also have "\<dots> \<longleftrightarrow> set s \<subseteq> set alph \<and> a_lookup K s \<noteq> None"
    by (cases "a_sub K s") (auto simp: a_lookup_def a_slot_def split: slot.splits)
  finally show ?thesis .
qed

lemma f_items_mem:
  fixes Ks :: "(('c, 'v) atree \<times> 'c list) list"
  assumes "\<forall>Kp \<in> set Ks. distinct_keys (fst Kp)"
  shows "q \<in> snd ` set (f_items alph Ks) \<longleftrightarrow>
           (\<exists>Kp \<in> set Ks. \<exists>s. set s \<subseteq> set alph \<and> q = snd Kp @ s \<and> a_lookup (fst Kp) s \<noteq> None)"
proof -
  have 1: "snd ` set (f_items alph Ks)
      = (\<Union>Kp \<in> set Ks. (\<lambda>s. snd Kp @ s) ` (fst ` set (a_items alph (fst Kp))))"
    by (simp add: f_items_def image_UN image_image)
  have 2: "q \<in> (\<lambda>s. snd Kp @ s) ` (fst ` set (a_items alph (fst Kp)))
      \<longleftrightarrow> (\<exists>s. set s \<subseteq> set alph \<and> q = snd Kp @ s \<and> a_lookup (fst Kp) s \<noteq> None)"
    if "Kp \<in> set Ks" for Kp
  proof -
    have d: "distinct_keys (fst Kp)" using assms that by simp
    have "q \<in> (\<lambda>s. snd Kp @ s) ` (fst ` set (a_items alph (fst Kp)))
        \<longleftrightarrow> (\<exists>s. s \<in> fst ` set (a_items alph (fst Kp)) \<and> q = snd Kp @ s)"
      by blast
    then show ?thesis unfolding a_items_occ[OF d] by blast
  qed
  show ?thesis unfolding 1 using 2 by blast
qed

lemma a_sub_modify_prefix:
  assumes "a_sub T p = Some K"
  shows "a_sub (a_modify f (p @ r) T) p = Some (a_modify f r K)"
  using assms
proof (induction p arbitrary: T)
  case Nil
  then show ?case by simp
next
  case (Cons c p)
  from Cons.prems obtain S' where S': "map_of (a_kids T) c = Some S'" "a_sub S' p = Some K"
    by (auto split: option.splits)
  show ?case using Cons.IH[OF S'(2)] S'(1) by (simp add: a_modify_kids_map_of)
qed

lemma a_sub_modify_apart:
  assumes "\<not> prefix p q" and "\<not> prefix q p"
  shows "a_sub (a_modify f q T) p = a_sub T p"
  using assms
proof (induction q arbitrary: T p)
  case Nil
  then show ?case by simp
next
  case (Cons c q)
  obtain d p' where p: "p = d # p'" using Cons.prems(1) by (cases p) auto
  show ?case
  proof (cases "d = c")
    case False
    then show ?thesis using p by (simp add: a_modify_kids_map_of split: option.splits)
  next
    case True
    have "\<not> prefix p' q" "\<not> prefix q p'" using Cons.prems p True by simp_all
    then show ?thesis using Cons.IH[of p'] p True
      by (simp add: a_modify_kids_map_of split: option.splits)
  qed
qed

lemma a_work_kids:
  assumes "distinct (map fst ks)"
  shows "a_work alph (ANode a ks v)
       = Suc (sum_list (map (\<lambda>c. case map_of ks c of None \<Rightarrow> 0 | Some K \<Rightarrow> a_work alph K) alph))"
proof -
  have "\<And>c. sum_list (map (\<lambda>x. if fst x = c then a_work alph (snd x) else 0) ks)
      = (case map_of ks c of None \<Rightarrow> 0 | Some K \<Rightarrow> a_work alph K)"
    using sum_kid_select[OF assms, of _ "a_work alph"] by simp
  then show ?thesis by simp
qed

lemma a_work_node:
  assumes "distinct_keys K"
  shows "a_work alph K
       = Suc (sum_list (map (\<lambda>c. case map_of (a_kids K) c of None \<Rightarrow> 0 | Some K' \<Rightarrow> a_work alph K') alph))"
  using assms a_work_kids[of "a_kids K" alph "a_addr K" "a_val K"] by (cases K) simp

lemma distinct_keys_modify:
  assumes "distinct_keys T" and "a_sub T p = Some S" and "distinct_keys (f S)"
  shows "distinct_keys (a_modify f p T)"
  using assms
proof (induction p arbitrary: T)
  case Nil
  then show ?case by simp
next
  case (Cons c p)
  obtain a ks v where T: "T = ANode a ks v" by (cases T)
  from Cons.prems(2) T obtain S0 where S0: "map_of ks c = Some S0" "a_sub S0 p = Some S"
    by (auto split: option.splits)
  have in_ks: "(c, S0) \<in> set ks" using S0(1) by (rule map_of_SomeD)
  have dk: "distinct (map fst ks)" using Cons.prems(1) T by simp
  have "distinct_keys (if fst x = c then a_modify f p (snd x) else snd x)" if x: "x \<in> set ks" for x
  proof (cases "fst x = c")
    case True
    then have "snd x = S0" using dk x in_ks by (cases x) (auto simp: eq_key_imp_eq_value)
    moreover have "distinct_keys S0" using Cons.prems(1) T in_ks by auto
    ultimately show ?thesis using True Cons.IH[OF _ S0(2) Cons.prems(3)] by simp
  next
    case False
    then show ?thesis using Cons.prems(1) T x by simp
  qed
  then show ?case using T dk by (simp add: comp_def)
qed

lemma a_work_modify_le:
  assumes "distinct_keys T" and "a_sub T p = Some S" and "distinct_keys (f S)"
    and "a_work alph (f S) \<le> a_work alph S"
  shows "a_work alph (a_modify f p T) \<le> a_work alph T"
  using assms
proof (induction p arbitrary: T)
  case Nil
  then show ?case by simp
next
  case (Cons c p)
  from Cons.prems(2) obtain S0 where S0: "map_of (a_kids T) c = Some S0" "a_sub S0 p = Some S"
    by (auto split: option.splits)
  have in_ks: "(c, S0) \<in> set (a_kids T)" using S0(1) by (rule map_of_SomeD)
  have dS0: "distinct_keys S0" using Cons.prems(1) in_ks by (cases T) auto
  have IH: "a_work alph (a_modify f p S0) \<le> a_work alph S0"
    using Cons.IH[OF dS0 S0(2) Cons.prems(3,4)] .
  have dT': "distinct_keys (a_modify f (c # p) T)"
    by (rule distinct_keys_modify[where f = f and S = S, OF Cons.prems(1,2,3)])
  have "(case map_of (a_kids (a_modify f (c # p) T)) d of None \<Rightarrow> 0 | Some K' \<Rightarrow> a_work alph K')
      \<le> (case map_of (a_kids T) d of None \<Rightarrow> 0 | Some K' \<Rightarrow> a_work alph K')" for d
    using IH S0(1) by (simp add: a_modify_kids_map_of split: option.splits)
  then have "sum_list (map (\<lambda>d. case map_of (a_kids (a_modify f (c # p) T)) d of None \<Rightarrow> 0
                                 | Some K' \<Rightarrow> a_work alph K') alph)
      \<le> sum_list (map (\<lambda>d. case map_of (a_kids T) d of None \<Rightarrow> 0 | Some K' \<Rightarrow> a_work alph K') alph)"
    by (intro sum_list_mono) simp
  then show ?case unfolding a_work_node[OF dT'] a_work_node[OF Cons.prems(1)] by simp
qed

lemma a_work_set_val_le: "a_work alph (a_set_val s S) \<le> a_work alph S"
  by (cases S) (simp add: a_set_val_def)

lemma distinct_keys_set_val: "distinct_keys S \<Longrightarrow> distinct_keys (a_set_val s S)"
  by (cases S) (simp add: a_set_val_def)

lemma distinct_keys_del_kid: "distinct_keys S \<Longrightarrow> distinct_keys (a_del_kid c S)"
  by (cases S) (simp add: a_del_kid_def distinct_map_filter)

lemma a_work_del_kid_le:
  assumes "distinct_keys S"
  shows "a_work alph (a_del_kid c S) \<le> a_work alph S"
proof -
  have "(case map_of (a_kids (a_del_kid c S)) d of None \<Rightarrow> 0 | Some K' \<Rightarrow> a_work alph K')
      \<le> (case map_of (a_kids S) d of None \<Rightarrow> 0 | Some K' \<Rightarrow> a_work alph K')" for d
    by (simp add: map_of_filter_key split: option.splits)
  then have "sum_list (map (\<lambda>d. case map_of (a_kids (a_del_kid c S)) d of None \<Rightarrow> 0
                                 | Some K' \<Rightarrow> a_work alph K') alph)
      \<le> sum_list (map (\<lambda>d. case map_of (a_kids S) d of None \<Rightarrow> 0 | Some K' \<Rightarrow> a_work alph K') alph)"
    by (intro sum_list_mono) simp
  then show ?thesis
    unfolding a_work_node[OF distinct_keys_del_kid[OF assms]] a_work_node[OF assms] by simp
qed

lemma insert_walk_existing:
  "get_node_from h n key = Some m \<Longrightarrow> insert_walk h n key = (h, m)"
  by (induction key arbitrary: n) (auto split: option.splits)

lemma a_path_existing:
  "a_sub T key = Some S \<Longrightarrow> distinct_keys T \<Longrightarrow> a_path n key T = T"
proof (induction key arbitrary: T)
  case Nil
  then show ?case by simp
next
  case (Cons c key)
  obtain a ks v where T: "T = ANode a ks v" by (cases T)
  from Cons.prems(1) T obtain S0 where S0: "map_of ks c = Some S0" "a_sub S0 key = Some S"
    by (auto split: option.splits)
  have in_ks: "(c, S0) \<in> set ks" using S0(1) by (rule map_of_SomeD)
  have dk: "distinct (map fst ks)" using Cons.prems(2) T by simp
  have dS0: "distinct_keys S0" using Cons.prems(2) T in_ks by auto
  have "(if fst x = c then a_path n key (snd x) else snd x) = snd x" if x: "x \<in> set ks" for x
  proof (cases "fst x = c")
    case True
    then have "snd x = S0" using dk x in_ks by (cases x) (auto simp: eq_key_imp_eq_value)
    then show ?thesis using Cons.IH[OF S0(2) dS0] by simp
  next
    case False
    then show ?thesis by simp
  qed
  then have "map (\<lambda>x. (fst x, if fst x = c then a_path n key (snd x) else snd x)) ks = ks"
    by (simp add: map_idI)
  then show ?case using T S0(1) by simp
qed

lemma a_modify_addrs_minus:
  "a_sub T p = Some S \<Longrightarrow> wf_tree T
     \<Longrightarrow> set (addrs (a_modify f p T)) \<subseteq> (set (addrs T) - set (addrs S)) \<union> set (addrs (f S))"
proof (induction p arbitrary: T)
  case Nil
  then show ?case by simp
next
  case (Cons c p)
  obtain a ks v where T: "T = ANode a ks v" by (cases T)
  from Cons.prems T obtain S0 where S0: "map_of ks c = Some S0" "a_sub S0 p = Some S"
    by (auto split: option.splits)
  have in_ks: "(c, S0) \<in> set ks" using S0(1) by (rule map_of_SomeD)
  have dk: "distinct (map fst ks)" using Cons.prems(2) T by (simp add: wf_tree_def)
  have dc: "distinct (concat (map (\<lambda>x. addrs (snd x)) ks))"
    and da: "a \<notin> set (concat (map (\<lambda>x. addrs (snd x)) ks))"
    using Cons.prems(2) T by (auto simp: wf_tree_def)
  have wfS0: "wf_tree S0" using wf_tree_kid[of a ks v "(c, S0)"] Cons.prems(2) T in_ks by simp
  have sub: "set (addrs S) \<subseteq> set (addrs S0)" using a_sub_addrs[OF S0(2)] .
  have IH: "set (addrs (a_modify f p S0)) \<subseteq> (set (addrs S0) - set (addrs S)) \<union> set (addrs (f S))"
    using Cons.IH[OF S0(2) wfS0] .
  have S0T: "set (addrs S0) \<subseteq> set (addrs T)" using in_ks T by force
  have a_notin: "a \<notin> set (addrs S)"
  proof
    assume "a \<in> set (addrs S)"
    then have "a \<in> set (addrs S0)" using sub by auto
    then show False using da in_ks by force
  qed
  have kid: "set (addrs (if fst x = c then a_modify f p (snd x) else snd x))
           \<subseteq> (set (addrs T) - set (addrs S)) \<union> set (addrs (f S))" if x: "x \<in> set ks" for x
  proof -
    from upd_kids_cases[OF dk S0(1) x, of "a_modify f p"]
    show ?thesis
    proof (elim disjE conjE)
      assume "x = (c, S0)" "(if fst x = c then a_modify f p (snd x) else snd x) = a_modify f p S0"
      then show ?thesis using IH S0T by auto
    next
      assume ne: "x \<noteq> (c, S0)" and eq: "(if fst x = c then a_modify f p (snd x) else snd x) = snd x"
      have "set (addrs (snd x)) \<inter> set (addrs S0) = {}"
        using kid_addrs_disjoint[OF dc x in_ks ne] by simp
      then have "set (addrs (snd x)) \<inter> set (addrs S) = {}" using sub by blast
      moreover have "set (addrs (snd x)) \<subseteq> set (addrs T)" using x T by force
      ultimately show ?thesis unfolding eq by blast
    qed
  qed
  have eq: "set (addrs (a_modify f (c # p) T))
      = insert a (\<Union>x \<in> set ks. set (addrs (if fst x = c then a_modify f p (snd x) else snd x)))"
    using T by (simp add: comp_def)
  have ain: "a \<in> (set (addrs T) - set (addrs S)) \<union> set (addrs (f S))"
    using a_notin T by simp
  show ?case unfolding eq
  proof (rule insert_subsetI[OF ain], rule UN_least)
    fix x assume "x \<in> set ks"
    then show "set (addrs (if fst x = c then a_modify f p (snd x) else snd x))
           \<subseteq> (set (addrs T) - set (addrs S)) \<union> set (addrs (f S))" by (rule kid)
  qed
qed

lemma addrs_del_kid_apart:
  assumes "wf_tree N" and "map_of (a_kids N) c = Some B"
  shows "set (addrs (a_del_kid c N)) \<inter> set (addrs B) = {}"
proof -
  obtain a ks v where N: "N = ANode a ks v" by (cases N)
  have in_ks: "(c, B) \<in> set ks" using assms(2) N by (auto dest: map_of_SomeD)
  have dc: "distinct (concat (map (\<lambda>x. addrs (snd x)) ks))" using assms(1) N by (simp add: wf_tree_def)
  have "a \<notin> set (addrs B)" using wf_tree_root_notin_kids[OF assms(1), of "(c, B)"] in_ks N by simp
  moreover have "set (addrs (snd x)) \<inter> set (addrs B) = {}" if "x \<in> set ks" "fst x \<noteq> c" for x
  proof -
    have "x \<noteq> (c, B)" using that(2) by auto
    then show ?thesis using kid_addrs_disjoint[OF dc that(1) in_ks] by simp
  qed
  ultimately show ?thesis using N by (auto simp: a_del_kid_def)
qed

lemma addrs_cut_apart:
  assumes "wf_tree T" and "a_sub T k1 = Some N" and "map_of (a_kids N) c = Some B"
  shows "set (addrs (a_modify (a_del_kid c) k1 T)) \<inter> set (addrs B) = {}"
proof -
  have wfN: "wf_tree N" using a_sub_wf[OF assms(2,1)] .
  have "a_sub N [c] = Some B" using assms(3) by simp
  then have BN: "set (addrs B) \<subseteq> set (addrs N)" by (rule a_sub_addrs)
  have "set (addrs (a_modify (a_del_kid c) k1 T))
      \<subseteq> (set (addrs T) - set (addrs N)) \<union> set (addrs (a_del_kid c N))"
    by (rule a_modify_addrs_minus[OF assms(2,1)])
  then show ?thesis using BN addrs_del_kid_apart[OF wfN assms(3)] by blast
qed

lemma insert_trie_existing:
  fixes T :: "('c, 'v) atree"
  assumes "repr h T" and "a_addr T = t_root t" and "a_sub T q = Some X"
  shows "insert_trie h t q v
       = (h[a_addr X := (h ! a_addr X)\<lparr>nvalue := Stored v\<rparr>],
          if a_val X = Sentinel then t\<lparr>t_count := t_count t + 1\<rparr> else t)"
proof -
  have "get_node_from h (t_root t) q = Some (a_addr X)"
    using get_node_from_repr[OF assms(1), of q] assms(2,3) by simp
  then have "insert_walk h (t_root t) q = (h, a_addr X)" by (rule insert_walk_existing)
  moreover have "nvalue (h ! a_addr X) = a_val X"
    using repr_nvalue[OF a_sub_repr[OF assms(3,1)]] .
  ultimately show ?thesis by (simp add: insert_trie_def)
qed

lemma remove_trie_heap:
  fixes T :: "('c, 'v) atree"
  assumes "repr h T" and "wf_tree T" and "a_addr T = t_root t"
    and S: "a_sub T key = Some S" and occ: "a_val S \<noteq> Sentinel"
  shows "(a_remove T key = a_modify (a_set_val Sentinel) key T
          \<and> remove_trie h t key
              = (None, h[a_addr S := (h ! a_addr S)\<lparr>nvalue := Sentinel\<rparr>], t\<lparr>t_count := t_count t - 1\<rparr>))
       \<or> (\<exists>k1 c k2 N B. key = k1 @ c # k2 \<and> a_sub T k1 = Some N
              \<and> map_of (a_kids N) c = Some B \<and> a_sub B k2 = Some S
              \<and> (\<forall>q X. a_sub B q = Some X \<longrightarrow> prefix q k2)
              \<and> (\<forall>q X. strict_prefix q k2 \<longrightarrow> a_sub B q = Some X \<longrightarrow> \<not> elig X)
              \<and> a_remove T key = a_modify (a_del_kid c) k1 T
              \<and> remove_trie h t key
                  = (None, cut_heap h (a_addr S) (a_addr N) c, t\<lparr>t_count := t_count t - 1\<rparr>))"
proof -
  have walk: "remove_walk h (t_root t) None key =
      Some (a_addr S, cut_addr T (a_cutoff T [] None key))"
    using remove_walk_sim[OF assms(1), of "[]" T None key] assms(3) S by (simp add: cut_addr_def)
  have reprS: "repr h S" using a_sub_repr[OF S assms(1)] .
  have val: "nvalue (h ! a_addr S) \<noteq> Sentinel" using repr_nvalue[OF reprS] occ by simp
  have ltS: "a_addr S < length h" using repr_addrs_lt[OF reprS, of "a_addr S"] by simp
  define h1 where "h1 = h[a_addr S := (h ! a_addr S)\<lparr>nvalue := Sentinel\<rparr>]"
  have ch1: "children (h1 ! a_addr S) = map (\<lambda>x. (fst x, a_addr (snd x))) (a_kids S)"
    using repr_children[OF reprS] ltS by (simp add: h1_def)
  have kids_iff: "children (h1 ! a_addr S) \<noteq> [] \<longleftrightarrow> a_kids S \<noteq> []" using ch1 by simp
  from a_remove_cases[OF S]
  consider (setv) "a_kids S \<noteq> [] \<or> key = []" "a_remove T key = a_modify (a_set_val Sentinel) key T"
      "a_kids S = [] \<longrightarrow> a_cutoff T [] None key = None"
    | (del) k1 c k2 N B where "a_kids S = []" "key = k1 @ c # k2" "a_sub T k1 = Some N"
        "map_of (a_kids N) c = Some B" "a_sub B k2 = Some S"
        "a_cutoff T [] None key = Some (k1, c)"
        "a_remove T key = a_modify (a_del_kid c) k1 T"
        "\<forall>q X. a_sub B q = Some X \<longrightarrow> prefix q k2"
        "\<forall>q X. strict_prefix q k2 \<longrightarrow> a_sub B q = Some X \<longrightarrow> \<not> elig X"
    by blast
  then show ?thesis
  proof cases
    case setv
    have res: "remove_trie h t key = (None, h1, t\<lparr>t_count := t_count t - 1\<rparr>)"
    proof (cases "a_cutoff T [] None key")
      case None
      then show ?thesis using walk val by (simp add: remove_trie_def cut_addr_def h1_def)
    next
      case (Some pc)
      then have "a_kids S \<noteq> []" using setv(3) by auto
      then have "children (h1 ! a_addr S) \<noteq> []" using kids_iff by simp
      then show ?thesis using walk val Some
        by (cases pc) (simp add: remove_trie_def cut_addr_def h1_def[symmetric] Let_def)
    qed
    show ?thesis by (rule disjI1) (use setv(2) res in \<open>simp add: h1_def\<close>)
  next
    case del
    have reprN: "repr h N" using a_sub_repr[OF del(3) assms(1)] .
    have wfN: "wf_tree N" using a_sub_wf[OF del(3) assms(2)] .
    have inB: "(c, B) \<in> set (a_kids N)" using del(4) by (rule map_of_SomeD)
    have S_in_B: "a_addr S \<in> set (addrs B)" using a_sub_addrs[OF del(5)] a_addr_in_addrs[of S] by auto
    have N_notin_B: "a_addr N \<notin> set (addrs B)" using wf_tree_root_notin_kids[OF wfN inB] by simp
    then have neq: "a_addr N \<noteq> a_addr S" using S_in_B by auto
    have cellN: "h1 ! a_addr N = h ! a_addr N" using neq by (simp add: h1_def)
    have chN: "children (h1 ! a_addr N) = map (\<lambda>x. (fst x, a_addr (snd x))) (a_kids N)"
      using repr_children[OF reprN] cellN by simp
    have present: "map_of (children (h1 ! a_addr N)) c \<noteq> None"
      using chN del(4) by (simp add: map_of_kid_addrs)
    have cut: "cut_addr T (a_cutoff T [] None key) = Some (a_addr N, c)"
      using del(6,3) by (simp add: cut_addr_def)
    have nokids: "children (h1 ! a_addr S) = []" using kids_iff del(1) by simp
    have res: "remove_trie h t key = (None, cut_heap h (a_addr S) (a_addr N) c, t\<lparr>t_count := t_count t - 1\<rparr>)"
      using walk val cut nokids present
      by (simp add: remove_trie_def h1_def[symmetric] cut_heap_def Let_def)
    show ?thesis
      by (rule disjI2, intro exI conjI)
        (rule del(2) del(3) del(4) del(5) del(8) del(9) del(7) res)+
  qed
qed

lemma upd_rel_same:
  assumes "entry_ok h' T' (K, p)"
  shows "upd_rel alph h' T' q (K, p) (K, p)"
  using assms by (simp add: upd_rel_def)

lemma a_lookup_set_val:
  assumes "a_sub K r0 = Some X" and "r \<noteq> r0"
  shows "a_lookup (a_modify (a_set_val s) r0 K) r = a_lookup K r"
  using a_slot_set_val[OF assms(1), of s r] assms(2) by (simp add: a_lookup_def)

lemma step_set_val:
  fixes T :: "('c, 'v) atree"
  assumes r: "repr h T" and w: "wf_tree T" and X: "a_sub T q = Some X"
    and E: "entry_ok h T (K, p)"
  shows "\<exists>K'. upd_rel alph (h[a_addr X := (h ! a_addr X)\<lparr>nvalue := s\<rparr>])
                 (a_modify (a_set_val s) q T) q (K, p) (K', p)"
proof -
  define h' where "h' = h[a_addr X := (h ! a_addr X)\<lparr>nvalue := s\<rparr>]"
  define T' where "T' = a_modify (a_set_val s) q T"
  have r': "repr h' T'" unfolding h'_def T'_def by (rule heap_set_val_repr[OF r w X])
  have wfX: "wf_tree X" using a_sub_wf[OF X w] .
  have w': "wf_tree T'" unfolding T'_def
    by (rule a_modify_wf[where f = "a_set_val s" and S = X, OF w X wf_tree_set_val[OF wfX]]) simp
  have d': "distinct_keys T'" using w' by (simp add: wf_tree_def)
  have XT: "a_addr X \<in> set (addrs T)" using a_sub_addrs[OF X] a_addr_in_addrs[of X] by auto
  have sub': "set (addrs T') \<subseteq> set (addrs T)"
    unfolding T'_def using a_modify_addrs_sub[OF X w, of "a_set_val s"] a_sub_addrs[OF X] by auto
  have rK: "repr h K" and dK: "distinct_keys K" using E by (simp_all add: entry_ok_def)
  from E consider (att) "a_sub T p = Some K"
    | (stale) "unocc K" "set (addrs K) \<inter> set (addrs T) = {}"
    unfolding entry_ok_def by auto
  then have "\<exists>K'. upd_rel alph h' T' q (K, p) (K', p)"
  proof cases
    case att
    show ?thesis
    proof (cases "prefix p q")
      case True
      then obtain r0 where q: "q = p @ r0" by (auto simp: prefix_def)
      have KX: "a_sub K r0 = Some X" using X att q by (simp add: a_sub_append)
      define K' where "K' = a_modify (a_set_val s) r0 K"
      have att': "a_sub T' p = Some K'"
        unfolding T'_def K'_def q by (rule a_sub_modify_prefix[OF att])
      have "entry_ok h' T' (K', p)"
        using a_sub_repr[OF att' r'] a_sub_distinct_keys[OF att' d'] att'
        by (simp add: entry_ok_def)
      moreover have "a_addr K' = a_addr K"
        unfolding K'_def by (rule a_modify_addr[OF KX]) simp
      moreover have "a_work alph K' \<le> a_work alph K"
        unfolding K'_def
        by (rule a_work_modify_le[where f = "a_set_val s" and S = X, OF dK KX
              distinct_keys_set_val[OF a_sub_distinct_keys[OF KX dK]] a_work_set_val_le])
      moreover have "\<forall>r. p @ r \<noteq> q \<longrightarrow> a_lookup K r \<noteq> None \<longrightarrow> a_lookup K' r \<noteq> None"
        unfolding K'_def using a_lookup_set_val[OF KX] q by simp
      ultimately have "upd_rel alph h' T' q (K, p) (K', p)" by (simp add: upd_rel_def)
      then show ?thesis by blast
    next
      case False
      have att': "a_sub T' p = Some K"
      proof (cases "prefix q p")
        case True
        then obtain r1 where p: "p = q @ r1" by (auto simp: prefix_def)
        have ne: "r1 \<noteq> []" using False p by auto
        have "a_sub T' p = a_sub (a_set_val s X) r1"
          unfolding T'_def p by (rule a_sub_modify_same[OF X])
        also have "\<dots> = a_sub X r1" using ne by (rule a_sub_set_val)
        also have "\<dots> = a_sub T p" using X p by (simp add: a_sub_append)
        finally show ?thesis using att by simp
      next
        case nq: False
        show ?thesis unfolding T'_def using a_sub_modify_apart[OF False nq, of "a_set_val s" T] att by simp
      qed
      have "entry_ok h' T' (K, p)"
        using a_sub_repr[OF att' r'] dK att' by (simp add: entry_ok_def)
      then show ?thesis using upd_rel_same by blast
    qed
  next
    case stale
    have "repr h' K"
    proof (rule repr_frame[OF rK])
      fix a assume "a \<in> set (addrs K)"
      then have "a \<noteq> a_addr X" using stale(2) XT by auto
      then show "h' ! a = h ! a" by (simp add: h'_def)
    next
      show "length h \<le> length h'" by (simp add: h'_def)
    qed
    moreover have "set (addrs K) \<inter> set (addrs T') = {}" using stale(2) sub' by blast
    ultimately have "entry_ok h' T' (K, p)" using dK stale(1) by (simp add: entry_ok_def)
    then show ?thesis using upd_rel_same by blast
  qed
  then show ?thesis by (simp add: h'_def T'_def)
qed

lemma a_sub_cut:
  assumes "a_sub T k1 = Some N"
  shows "a_sub (a_modify (a_del_kid c) k1 T) p
       = (if prefix p k1 then map_option (a_modify (a_del_kid c) (drop (length p) k1)) (a_sub T p)
          else if prefix (k1 @ [c]) p then None else a_sub T p)"
proof (cases "prefix p k1")
  case True
  then obtain r0 where k1: "k1 = p @ r0" by (auto simp: prefix_def)
  from assms k1 obtain K where K: "a_sub T p = Some K"
    by (auto simp: a_sub_append split: option.splits)
  show ?thesis using True a_sub_modify_prefix[OF K, of "a_del_kid c" r0] K k1 by simp
next
  case False
  show ?thesis
  proof (cases "prefix k1 p")
    case True
    then obtain r1 where p: "p = k1 @ r1" by (auto simp: prefix_def)
    have ne: "r1 \<noteq> []" using False p by auto
    then obtain d r2 where r1: "r1 = d # r2" by (cases r1) auto
    have "a_sub (a_modify (a_del_kid c) k1 T) p = a_sub (a_del_kid c N) r1"
      unfolding p by (rule a_sub_modify_same[OF assms])
    also have "\<dots> = (if d = c then None else a_sub N r1)"
      unfolding r1 by (rule a_sub_del_kid_Cons)
    also have "\<dots> = (if prefix (k1 @ [c]) p then None else a_sub T p)"
      using assms p r1 by (simp add: a_sub_append)
    finally show ?thesis using False by simp
  next
    case nk: False
    have "\<not> prefix (k1 @ [c]) p" using nk by (auto simp: prefix_def)
    then show ?thesis using a_sub_modify_apart[OF False nk, of "a_del_kid c" T] False by simp
  qed
qed

lemma step_del_kid:
  fixes T :: "('c, 'v) atree"
  assumes r: "repr h T" and w: "wf_tree T"
    and q: "q = k1 @ c # k2" and N: "a_sub T k1 = Some N" and B: "map_of (a_kids N) c = Some B"
    and X: "a_sub B k2 = Some X"
    and chain: "\<forall>r Y. a_sub B r = Some Y \<longrightarrow> prefix r k2"
    and nel: "\<forall>r Y. strict_prefix r k2 \<longrightarrow> a_sub B r = Some Y \<longrightarrow> \<not> elig Y"
    and E: "entry_ok h T (K, p)"
  shows "\<exists>K'. upd_rel alph (cut_heap h (a_addr X) (a_addr N) c)
                 (a_modify (a_del_kid c) k1 T) q (K, p) (K', p)"
proof -
  define h1 where "h1 = h[a_addr X := (h ! a_addr X)\<lparr>nvalue := Sentinel\<rparr>]"
  define h' where "h' = cut_heap h (a_addr X) (a_addr N) c"
  define T' where "T' = a_modify (a_del_kid c) k1 T"
  have h'_eq: "h' = h1[a_addr N := (h1 ! a_addr N)
                  \<lparr>children := filter (\<lambda>e. fst e \<noteq> c) (children (h1 ! a_addr N))\<rparr>]"
    by (simp add: h'_def cut_heap_def h1_def Let_def)
  have len1: "length h1 = length h" by (simp add: h1_def)
  have len': "length h' = length h" by (simp add: h'_eq len1)
  have wfN: "wf_tree N" using a_sub_wf[OF N w] .
  have rN: "repr h N" using a_sub_repr[OF N r] .
  have inB: "(c, B) \<in> set (a_kids N)" using B by (rule map_of_SomeD)
  have NB: "a_sub N [c] = Some B" using B by simp
  have wfB: "wf_tree B" using a_sub_wf[OF NB wfN] .
  have rB: "repr h B" using a_sub_repr[OF NB rN] .
  have X_in_B: "a_addr X \<in> set (addrs B)" using a_sub_addrs[OF X] a_addr_in_addrs[of X] by auto
  have N_notin_B: "a_addr N \<notin> set (addrs B)" using wf_tree_root_notin_kids[OF wfN inB] by simp
  have BT: "set (addrs B) \<subseteq> set (addrs T)" using a_sub_addrs[OF NB] a_sub_addrs[OF N] by blast
  have NT: "a_addr N \<in> set (addrs T)" using a_sub_addrs[OF N] a_addr_in_addrs[of N] by auto
  have frame1: "h1 ! x = h ! x" if "x \<notin> set (addrs B)" for x
  proof -
    have "x \<noteq> a_addr X" using that X_in_B by auto
    then show ?thesis by (simp add: h1_def)
  qed
  have r': "repr h' T'"
    unfolding h'_eq T'_def by (rule heap_del_kid_repr[OF r w N B frame1 len1])
  have w': "wf_tree T'" unfolding T'_def
    by (rule a_modify_wf[where f = "a_del_kid c" and S = N, OF w N wf_tree_del_kid[OF wfN]])
      (use addrs_del_kid[of c N] in blast)
  have d': "distinct_keys T'" using w' by (simp add: wf_tree_def)
  have sub': "set (addrs T') \<subseteq> set (addrs T)"
    unfolding T'_def using a_modify_addrs_sub[OF N w, of "a_del_kid c"] a_sub_addrs[OF N]
      addrs_del_kid[of c N] by blast
  have apartB: "set (addrs T') \<inter> set (addrs B) = {}"
    unfolding T'_def by (rule addrs_cut_apart[OF w N B])
  have rK: "repr h K" and dK: "distinct_keys K" using E by (simp_all add: entry_ok_def)
  have occ_chain: "r = k2" if "a_lookup B r \<noteq> None" for r
  proof -
    from that obtain Y where Y: "a_sub B r = Some Y" "a_val Y \<noteq> Sentinel"
      by (auto simp: a_lookup_def a_slot_def split: option.splits slot.splits)
    have "prefix r k2" using chain Y(1) by blast
    moreover have "\<not> strict_prefix r k2" using nel Y by (auto simp: elig_def)
    ultimately show ?thesis by (auto simp: strict_prefix_def)
  qed
  from E consider (att) "a_sub T p = Some K"
    | (stale) "unocc K" "set (addrs K) \<inter> set (addrs T) = {}"
    unfolding entry_ok_def by auto
  then have "\<exists>K'. upd_rel alph h' T' q (K, p) (K', p)"
  proof cases
    case att
    consider (above) "prefix p k1" | (under) "prefix (k1 @ [c]) p"
      | (apart) "\<not> prefix p k1" "\<not> prefix (k1 @ [c]) p" by blast
    then show ?thesis
    proof cases
      case above
      then obtain r0 where k1: "k1 = p @ r0" by (auto simp: prefix_def)
      have KN: "a_sub K r0 = Some N" using N att k1 by (simp add: a_sub_append)
      have dN: "distinct_keys N" using wfN by (simp add: wf_tree_def)
      define K' where "K' = a_modify (a_del_kid c) r0 K"
      have att': "a_sub T' p = Some K'"
        unfolding T'_def K'_def k1 by (rule a_sub_modify_prefix[OF att])
      have e: "entry_ok h' T' (K', p)"
        using a_sub_repr[OF att' r'] a_sub_distinct_keys[OF att' d'] att'
        by (simp add: entry_ok_def)
      have a: "a_addr K' = a_addr K"
        unfolding K'_def by (rule a_modify_addr[OF KN]) simp
      have wk: "a_work alph K' \<le> a_work alph K"
        unfolding K'_def
        by (rule a_work_modify_le[where f = "a_del_kid c" and S = N, OF dK KN
              distinct_keys_del_kid[OF dN] a_work_del_kid_le[OF dN]])
      have lk: "a_lookup K' r' \<noteq> None" if ne: "p @ r' \<noteq> q" and l: "a_lookup K r' \<noteq> None" for r'
      proof -
        have sl: "a_slot K' r' = (if prefix (r0 @ [c]) r' then None else a_slot K r')"
          unfolding K'_def by (rule a_slot_del_kid[OF KN])
        have "\<not> prefix (r0 @ [c]) r'"
        proof
          assume "prefix (r0 @ [c]) r'"
          then obtain r2 where r2: "r' = r0 @ c # r2" by (auto simp: prefix_def)
          have "a_sub K (r0 @ [c]) = Some B" using KN B by (simp add: a_sub_append)
          then have "a_lookup K ((r0 @ [c]) @ r2) = a_lookup B r2" by (rule a_lookup_sub)
          then have "a_lookup B r2 \<noteq> None" using l r2 by simp
          then have "r2 = k2" by (rule occ_chain)
          then show False using ne r2 q k1 by simp
        qed
        then show ?thesis using sl l by (simp add: a_lookup_def)
      qed
      have "upd_rel alph h' T' q (K, p) (K', p)" using e a wk lk by (simp add: upd_rel_def)
      then show ?thesis by blast
    next
      case under
      then obtain r1 where p: "p = k1 @ c # r1" by (auto simp: prefix_def)
      have BK: "a_sub B r1 = Some K" using att N B p by (simp add: a_sub_append)
      then have "prefix r1 k2" using chain by blast
      then obtain r2 where k2: "k2 = r1 @ r2" by (auto simp: prefix_def)
      have KX: "a_sub K r2 = Some X" using X BK k2 by (simp add: a_sub_append)
      define B' where "B' = a_modify (a_set_val Sentinel) k2 B"
      define K' where "K' = a_modify (a_set_val Sentinel) r2 K"
      have B'K': "a_sub B' r1 = Some K'"
        unfolding B'_def K'_def k2 by (rule a_sub_modify_prefix[OF BK])
      have rB': "repr h1 B'" unfolding h1_def B'_def by (rule heap_set_val_repr[OF rB wfB X])
      have rK1: "repr h1 K'" using a_sub_repr[OF B'K' rB'] .
      have addrsB': "set (addrs B') \<subseteq> set (addrs B)"
        unfolding B'_def using a_modify_addrs_sub[OF X wfB, of "a_set_val Sentinel"] a_sub_addrs[OF X]
        by auto
      have addrsK': "set (addrs K') \<subseteq> set (addrs B)" using a_sub_addrs[OF B'K'] addrsB' by blast
      have rK': "repr h' K'"
      proof (rule repr_frame[OF rK1])
        fix a assume "a \<in> set (addrs K')"
        then have "a \<noteq> a_addr N" using addrsK' N_notin_B by auto
        then show "h' ! a = h1 ! a" by (simp add: h'_eq)
      next
        show "length h1 \<le> length h'" by (simp add: len1 len')
      qed
      have dK': "distinct_keys K'"
        unfolding K'_def
        by (rule distinct_keys_modify[where f = "a_set_val Sentinel" and S = X, OF dK KX
              distinct_keys_set_val[OF a_sub_distinct_keys[OF KX dK]]])
      have un: "unocc K'"
      proof (rule unocc_from_sub[OF dK'])
        fix r' Y' assume Y': "a_sub K' r' = Some Y'"
        have sl: "a_slot K' r' = (if r' = r2 then Some Sentinel else a_slot K r')"
          unfolding K'_def by (rule a_slot_set_val[OF KX])
        have sv: "a_slot K' r' = Some (a_val Y')" using Y' by (simp add: a_slot_def)
        show "a_val Y' = Sentinel"
        proof (cases "r' = r2")
          case True
          then show ?thesis using sl sv by simp
        next
          case False
          then have "a_slot K r' = Some (a_val Y')" using sl sv by simp
          then obtain Y where Y: "a_sub K r' = Some Y" "a_val Y = a_val Y'"
            by (auto simp: a_slot_def)
          have BY: "a_sub B (r1 @ r') = Some Y" using BK Y(1) by (simp add: a_sub_append)
          then have "prefix (r1 @ r') k2" using chain by blast
          then have "strict_prefix (r1 @ r') k2" using False k2 by (auto simp: strict_prefix_def)
          then have "\<not> elig Y" using nel BY by blast
          then show ?thesis using Y(2) by (simp add: elig_def)
        qed
      qed
      have ap: "set (addrs K') \<inter> set (addrs T') = {}" using addrsK' apartB by blast
      have e: "entry_ok h' T' (K', p)" using rK' dK' un ap by (simp add: entry_ok_def)
      have a: "a_addr K' = a_addr K"
        unfolding K'_def by (rule a_modify_addr[OF KX]) simp
      have wk: "a_work alph K' \<le> a_work alph K"
        unfolding K'_def
        by (rule a_work_modify_le[where f = "a_set_val Sentinel" and S = X, OF dK KX
              distinct_keys_set_val[OF a_sub_distinct_keys[OF KX dK]] a_work_set_val_le])
      have lk: "a_lookup K' r' \<noteq> None" if ne: "p @ r' \<noteq> q" and l: "a_lookup K r' \<noteq> None" for r'
      proof -
        have "a_lookup B (r1 @ r') = a_lookup K r'" using BK by (rule a_lookup_sub)
        then have "r1 @ r' = k2" using l occ_chain by simp
        then show ?thesis using ne p q by simp
      qed
      have "upd_rel alph h' T' q (K, p) (K', p)" using e a wk lk by (simp add: upd_rel_def)
      then show ?thesis by blast
    next
      case apart
      have att': "a_sub T' p = Some K"
        unfolding T'_def a_sub_cut[OF N] using apart att by simp
      have "entry_ok h' T' (K, p)"
        using a_sub_repr[OF att' r'] dK att' by (simp add: entry_ok_def)
      then show ?thesis using upd_rel_same by blast
    qed
  next
    case stale
    have "repr h' K"
    proof (rule repr_frame[OF rK])
      fix a assume a: "a \<in> set (addrs K)"
      then have "a \<notin> set (addrs T)" using stale(2) by auto
      then have "a \<noteq> a_addr N" "a \<notin> set (addrs B)" using NT BT by auto
      then show "h' ! a = h ! a" using frame1[of a] by (simp add: h'_eq)
    next
      show "length h \<le> length h'" by (simp add: len')
    qed
    moreover have "set (addrs K) \<inter> set (addrs T') = {}" using stale(2) sub' by blast
    ultimately have "entry_ok h' T' (K, p)" using dK stale(1) by (simp add: entry_ok_def)
    then show ?thesis using upd_rel_same by blast
  qed
  then show ?thesis by (simp add: h'_def T'_def)
qed

lemma list_all2_choice:
  "(\<forall>x \<in> set xs. \<exists>y. P x y) \<Longrightarrow> \<exists>ys. list_all2 P xs ys"
proof (induction xs)
  case Nil
  then show ?case by simp
next
  case (Cons x xs)
  then obtain y ys where "P x y" "list_all2 P xs ys" by auto
  then have "list_all2 P (x # xs) (y # ys)" by simp
  then show ?case by blast
qed

lemma list_all2_set2: "list_all2 P xs ys \<Longrightarrow> y \<in> set ys \<Longrightarrow> \<exists>x \<in> set xs. P x y"
  by (induction rule: list_all2_induct) auto

lemma list_all2_set1: "list_all2 P xs ys \<Longrightarrow> x \<in> set xs \<Longrightarrow> \<exists>y \<in> set ys. P x y"
  by (induction rule: list_all2_induct) auto

lemma kids_forest_intro:
  "c \<in> set alph \<Longrightarrow> map_of (a_kids X) c = Some K \<Longrightarrow> (K, q @ [c]) \<in> set (kids_forest alph X q)"
  by (force simp: kids_forest_def)

lemma upd_rel_stack:
  "list_all2 (upd_rel alph h' T' q) Ks Ks2 \<Longrightarrow> stack_of Ks2 = stack_of Ks"
  by (induction rule: list_all2_induct) (auto simp: upd_rel_def stack_of_def)

lemma upd_rel_work:
  "list_all2 (upd_rel alph h' T' q) Ks Ks2 \<Longrightarrow> f_work alph Ks2 \<le> f_work alph Ks"
  by (induction rule: list_all2_induct) (auto simp: upd_rel_def f_work_def)

lemma self_next:
  fixes T T' :: "('c, 'v) atree" and Ks' :: "(('c, 'v) atree \<times> 'c list) list"
  assumes ents: "\<forall>Kp \<in> set Ks'. entry_ok h T Kp \<and> set (snd Kp) \<subseteq> set alph"
    and entX: "entry_ok h T (X, q)" and qa: "set q \<subseteq> set alph"
    and step: "\<forall>K p. entry_ok h T (K, p) \<longrightarrow> (\<exists>K'. upd_rel alph h' T' q (K, p) (K', p))"
  shows "\<exists>Ks2. push_children h' (a_addr X) q (rev alph) (stack_of Ks') = stack_of Ks2
           \<and> (\<forall>Kp \<in> set Ks2. entry_ok h' T' Kp \<and> set (snd Kp) \<subseteq> set alph)
           \<and> f_work alph Ks2 \<le> f_work alph (kids_forest alph X q @ Ks')
           \<and> (\<forall>q'. q' \<noteq> q \<longrightarrow> q' \<in> snd ` set (f_items alph (kids_forest alph X q @ Ks'))
                  \<longrightarrow> q' \<in> snd ` set (f_items alph Ks2))"
proof -
  from step entX obtain X' where X': "upd_rel alph h' T' q (X, q) (X', q)" by blast
  have aX': "a_addr X' = a_addr X" and eX': "entry_ok h' T' (X', q)"
    and wX': "a_work alph X' \<le> a_work alph X"
    and lX': "\<And>r. r \<noteq> [] \<Longrightarrow> a_lookup X r \<noteq> None \<Longrightarrow> a_lookup X' r \<noteq> None"
    using X' by (simp_all add: upd_rel_def)
  have "\<forall>Kp \<in> set Ks'. \<exists>Kp'. upd_rel alph h' T' q Kp Kp'"
  proof
    fix Kp assume "Kp \<in> set Ks'"
    then have "entry_ok h T (fst Kp, snd Kp)" using ents by simp
    then obtain K' where "upd_rel alph h' T' q (fst Kp, snd Kp) (K', snd Kp)" using step by blast
    then show "\<exists>Kp'. upd_rel alph h' T' q Kp Kp'" by auto
  qed
  then obtain Ks'' where L: "list_all2 (upd_rel alph h' T' q) Ks' Ks''"
    using list_all2_choice by blast
  define Ks2 where "Ks2 = kids_forest alph X' q @ Ks''"
  have rX': "repr h' X'" and dX': "distinct_keys X'" using eX' by (simp_all add: entry_ok_def)
  have dX: "distinct_keys X" using entX by (simp add: entry_ok_def)
  have 1: "push_children h' (a_addr X) q (rev alph) (stack_of Ks') = stack_of Ks2"
    using push_children_forest[OF rX', of q alph "stack_of Ks'"] aX' upd_rel_stack[OF L]
    by (simp add: Ks2_def)
  have 2: "\<forall>Kp \<in> set Ks2. entry_ok h' T' Kp \<and> set (snd Kp) \<subseteq> set alph"
  proof
    fix Kp assume "Kp \<in> set Ks2"
    then consider "Kp \<in> set (kids_forest alph X' q)" | "Kp \<in> set Ks''" by (auto simp: Ks2_def)
    then show "entry_ok h' T' Kp \<and> set (snd Kp) \<subseteq> set alph"
    proof cases
      case 1
      then show ?thesis using entry_ok_kids[OF eX', of alph] qa by auto
    next
      case 2
      then obtain Kp0 where "Kp0 \<in> set Ks'" "upd_rel alph h' T' q Kp0 Kp"
        using list_all2_set2[OF L] by blast
      then show ?thesis using ents by (auto simp: upd_rel_def)
    qed
  qed
  have "f_work alph (kids_forest alph X' q) \<le> f_work alph (kids_forest alph X q)"
    using a_work_unfold[OF distinct_keys_kids[OF dX'], of alph q]
      a_work_unfold[OF distinct_keys_kids[OF dX], of alph q] wX' by simp
  then have 3: "f_work alph Ks2 \<le> f_work alph (kids_forest alph X q @ Ks')"
    using upd_rel_work[OF L] by (simp add: Ks2_def)
  have dold: "\<forall>Kp \<in> set (kids_forest alph X q @ Ks'). distinct_keys (fst Kp)"
    using entry_ok_kids[OF entX, of alph] ents by (auto simp: entry_ok_def)
  have dnew: "\<forall>Kp \<in> set Ks2. distinct_keys (fst Kp)" using 2 by (simp add: entry_ok_def)
  have 4: "q' \<in> snd ` set (f_items alph Ks2)"
    if ne: "q' \<noteq> q" and cov: "q' \<in> snd ` set (f_items alph (kids_forest alph X q @ Ks'))" for q'
  proof -
    from cov obtain Kp s where Kp: "Kp \<in> set (kids_forest alph X q @ Ks')" "set s \<subseteq> set alph"
      "q' = snd Kp @ s" "a_lookup (fst Kp) s \<noteq> None"
      unfolding f_items_mem[OF dold] by blast
    have "\<exists>Kp2 \<in> set Ks2. \<exists>s2. set s2 \<subseteq> set alph \<and> q' = snd Kp2 @ s2 \<and> a_lookup (fst Kp2) s2 \<noteq> None"
    proof (cases "Kp \<in> set Ks'")
      case True
      then obtain Kp2 where Kp2: "Kp2 \<in> set Ks''" "upd_rel alph h' T' q Kp Kp2"
        using list_all2_set1[OF L] by blast
      have "snd Kp2 = snd Kp" using Kp2(2) by (simp add: upd_rel_def)
      moreover have "a_lookup (fst Kp2) s \<noteq> None"
        using Kp2(2) Kp(3,4) ne by (simp add: upd_rel_def)
      moreover have "Kp2 \<in> set Ks2" using Kp2(1) by (simp add: Ks2_def)
      ultimately show ?thesis using Kp(2,3) by (intro bexI[of _ Kp2] exI[of _ s]) simp_all
    next
      case False
      then have "Kp \<in> set (kids_forest alph X q)" using Kp(1) by simp
      then obtain c where c: "c \<in> set alph" "snd Kp = q @ [c]" "map_of (a_kids X) c = Some (fst Kp)"
        using kids_forest_member by blast
      have "a_lookup X (c # s) = a_lookup (fst Kp) s"
        using c(3) by (simp add: a_lookup_def a_slot_Cons)
      then have "a_lookup X' (c # s) \<noteq> None" using lX'[of "c # s"] Kp(4) by simp
      then obtain Kc where Kc: "map_of (a_kids X') c = Some Kc" "a_lookup Kc s \<noteq> None"
        by (auto simp: a_lookup_def a_slot_Cons split: option.splits)
      have "(Kc, q @ [c]) \<in> set Ks2" using kids_forest_intro[OF c(1) Kc(1)] by (simp add: Ks2_def)
      then show ?thesis using Kc(2) Kp(2,3) c(2)
        by (intro bexI[of _ "(Kc, q @ [c])"] exI[of _ s]) simp_all
    qed
    then show ?thesis unfolding f_items_mem[OF dnew] .
  qed
  show ?thesis using 1 2 3 4 by blast
qed

lemma self_iter_step:
  fixes T :: "('c, 'v) atree" and Ks :: "(('c, 'v) atree \<times> 'c list) list"
  assumes ents: "\<forall>Kp \<in> set Ks. entry_ok h T Kp \<and> set (snd Kp) \<subseteq> set alph"
  shows "(f_items alph Ks = [] \<and> iterate_nodes_loop h alph (stack_of Ks) = Some None)
       \<or> (\<exists>X q Ks'. iterate_nodes_loop h alph (stack_of Ks)
                = Some (Some ((a_addr X, q), Generator (Some (a_addr X, q))
                          (stack_of (Ks' :: (('c, 'v) atree \<times> 'c list) list))))
            \<and> a_sub T q = Some X \<and> a_val X \<noteq> Sentinel \<and> set q \<subseteq> set alph
            \<and> (\<forall>h' T'. (\<forall>K p. entry_ok h T (K, p) \<longrightarrow> (\<exists>K'. upd_rel alph h' T' q (K, p) (K', p)))
                 \<longrightarrow> (\<exists>Ks2. push_children h' (a_addr X) q (rev alph) (stack_of Ks') = stack_of Ks2
                       \<and> (\<forall>Kp \<in> set Ks2. entry_ok h' T' Kp \<and> set (snd Kp) \<subseteq> set alph)
                       \<and> f_work alph Ks2 < f_work alph Ks
                       \<and> (\<forall>q'. q' \<noteq> q \<longrightarrow> q' \<in> snd ` set (f_items alph Ks)
                              \<longrightarrow> q' \<in> snd ` set (f_items alph Ks2)))))"
proof -
  have fok: "forest_ok h Ks" using ents by (simp add: forest_ok_def entry_ok_def)
  have ents1: "\<forall>Kp \<in> set Ks. entry_ok h T Kp" using ents by simp
  have paths: "\<forall>Kp \<in> set Ks. set (snd Kp) \<subseteq> set alph" using ents by simp
  from advance[OF fok, of alph]
  show ?thesis
  proof (elim disjE exE conjE)
    assume "f_items alph Ks = []" "iterate_nodes_loop h alph (stack_of Ks) = Some None"
    then show ?thesis by simp
  next
    fix X q Ks'
    assume A: "iterate_nodes_loop h alph (stack_of Ks)
                = Some (Some ((a_addr X, q), Generator (Some (a_addr X, q)) (stack_of Ks')))"
      "a_val X \<noteq> Sentinel" "repr h X" "distinct_keys X" "forest_ok h Ks'"
      "f_items alph Ks = (a_addr X, q) # f_items alph (kids_forest alph X q @ Ks')"
      "f_work alph (kids_forest alph X q @ Ks') < f_work alph Ks"
      "below alph Ks (X, q)" "\<forall>Kp \<in> set Ks'. below alph Ks Kp"
    have entX: "entry_ok h T (X, q)" using entry_ok_below[OF ents1 A(8)] .
    have qa: "set q \<subseteq> set alph" using below_path[OF A(8) paths] by simp
    have ents': "\<forall>Kp \<in> set Ks'. entry_ok h T Kp \<and> set (snd Kp) \<subseteq> set alph"
      using entry_ok_below[OF ents1] below_path[OF _ paths] A(9) by blast
    have att: "a_sub T q = Some X"
      using entX A(2) unocc_val[of X] by (auto simp: entry_ok_def)
    have cov: "snd ` set (f_items alph Ks) = insert q (snd ` set (f_items alph (kids_forest alph X q @ Ks')))"
      unfolding A(6) by simp
    have nxt: "\<exists>Ks2. push_children h' (a_addr X) q (rev alph) (stack_of Ks') = stack_of Ks2
                       \<and> (\<forall>Kp \<in> set Ks2. entry_ok h' T' Kp \<and> set (snd Kp) \<subseteq> set alph)
                       \<and> f_work alph Ks2 < f_work alph Ks
                       \<and> (\<forall>q'. q' \<noteq> q \<longrightarrow> q' \<in> snd ` set (f_items alph Ks)
                              \<longrightarrow> q' \<in> snd ` set (f_items alph Ks2))"
      if step: "\<forall>K p. entry_ok h T (K, p) \<longrightarrow> (\<exists>K'. upd_rel alph h' T' q (K, p) (K', p))"
      for h' :: "('c, 'v) heap" and T' :: "('c, 'v) atree"
    proof -
      from self_next[OF ents' entX qa step]
      obtain Ks2 where K2: "push_children h' (a_addr X) q (rev alph) (stack_of Ks') = stack_of Ks2"
        "\<forall>Kp \<in> set Ks2. entry_ok h' T' Kp \<and> set (snd Kp) \<subseteq> set alph"
        "f_work alph Ks2 \<le> f_work alph (kids_forest alph X q @ Ks')"
        "\<forall>q'. q' \<noteq> q \<longrightarrow> q' \<in> snd ` set (f_items alph (kids_forest alph X q @ Ks'))
                  \<longrightarrow> q' \<in> snd ` set (f_items alph Ks2)"
        by blast
      have w: "f_work alph Ks2 < f_work alph Ks" using K2(3) A(7) by simp
      have c: "\<forall>q'. q' \<noteq> q \<longrightarrow> q' \<in> snd ` set (f_items alph Ks)
                              \<longrightarrow> q' \<in> snd ` set (f_items alph Ks2)"
        unfolding cov using K2(4) by simp
      show ?thesis by (intro exI conjI) (rule K2(1) K2(2) w c)+
    qed
    have nxt': "\<forall>h' T'. (\<forall>K p. entry_ok h T (K, p) \<longrightarrow> (\<exists>K'. upd_rel alph h' T' q (K, p) (K', p)))
                 \<longrightarrow> (\<exists>Ks2. push_children h' (a_addr X) q (rev alph) (stack_of Ks') = stack_of Ks2
                       \<and> (\<forall>Kp \<in> set Ks2. entry_ok h' T' Kp \<and> set (snd Kp) \<subseteq> set alph)
                       \<and> f_work alph Ks2 < f_work alph Ks
                       \<and> (\<forall>q'. q' \<noteq> q \<longrightarrow> q' \<in> snd ` set (f_items alph Ks)
                              \<longrightarrow> q' \<in> snd ` set (f_items alph Ks2)))"
      using nxt by blast
    show ?thesis
      by (rule disjI2, rule exI[of _ X], rule exI[of _ q], rule exI[of _ Ks'], intro conjI)
        (rule A(1) att A(2) qa nxt')+
  qed
qed

lemma overwrite_self_step:
  fixes T :: "('c, 'v) atree"
  assumes ok: "tree_ok h t T" and X: "a_sub T q = Some X" and occ: "a_val X \<noteq> Sentinel"
  shows "\<exists>h' T'. insert_trie h t q v = (h', t) \<and> tree_ok h' t T' \<and> evolves h T h' T'
          \<and> (\<forall>q'. a_lookup T' q' = (if q' = q then Some v else a_lookup T q'))
          \<and> (\<forall>K p. entry_ok h T (K, p) \<longrightarrow> (\<exists>K'. upd_rel alph h' T' q (K, p) (K', p)))"
proof -
  have r: "repr h T" and w: "wf_tree T" and a: "a_addr T = t_root t"
    using ok by (simp_all add: tree_ok_def)
  have d: "distinct_keys T" using w by (simp add: wf_tree_def)
  have lk: "a_lookup T q \<noteq> None"
    using X occ by (cases "a_val X") (simp_all add: a_lookup_def a_slot_def)
  have tt: "t\<lparr>t_count := t_count t + (if a_lookup T q = None then 1 else 0)\<rparr> = t" using lk by simp
  define h' where "h' = h[a_addr X := (h ! a_addr X)\<lparr>nvalue := Stored v\<rparr>]"
  define T' where "T' = a_modify (a_set_val (Stored v)) q T"
  have T'eq: "a_insert (length h) q v T = T'"
    by (simp add: a_insert_def a_path_existing[OF X d] T'_def)
  have ins: "insert_trie h t q v = (h', t)"
    using insert_trie_existing[OF r a X, of v] occ by (simp add: h'_def)
  from insert_trie_ok[OF ok, of q v]
  have 2: "tree_ok h' t T'" and 3: "evolves h T h' T'"
    unfolding tt T'eq using ins by auto
  have 4: "\<forall>q'. a_lookup T' q' = (if q' = q then Some v else a_lookup T q')"
    using a_lookup_a_insert[of "length h" q v T] by (simp add: T'eq)
  have 5: "\<forall>K p. entry_ok h T (K, p) \<longrightarrow> (\<exists>K'. upd_rel alph h' T' q (K, p) (K', p))"
    unfolding h'_def T'_def using step_set_val[OF r w X] by blast
  show ?thesis by (intro exI conjI) (rule ins 2 3 4 5)+
qed

lemma remove_self_step:
  fixes T :: "('c, 'v) atree"
  assumes ok: "tree_ok h t T" and X: "a_sub T q = Some X" and occ: "a_val X \<noteq> Sentinel"
  shows "\<exists>h'. remove_trie h t q = (None, h', t\<lparr>t_count := t_count t - 1\<rparr>)
          \<and> tree_ok h' (t\<lparr>t_count := t_count t - 1\<rparr>) (a_remove T q)
          \<and> evolves h T h' (a_remove T q)
          \<and> (\<forall>K p. entry_ok h T (K, p) \<longrightarrow> (\<exists>K'. upd_rel alph h' (a_remove T q) q (K, p) (K', p)))"
proof -
  have r: "repr h T" and w: "wf_tree T" and a: "a_addr T = t_root t"
    using ok by (simp_all add: tree_ok_def)
  have lk: "a_lookup T q \<noteq> None"
    using X occ by (cases "a_val X") (simp_all add: a_lookup_def a_slot_def)
  from remove_trie_ok[OF ok lk]
  obtain h' where R: "remove_trie h t q = (None, h', t\<lparr>t_count := t_count t - 1\<rparr>)"
    "tree_ok h' (t\<lparr>t_count := t_count t - 1\<rparr>) (a_remove T q)"
    "evolves h T h' (a_remove T q)"
    by blast
  have 4: "\<forall>K p. entry_ok h T (K, p) \<longrightarrow> (\<exists>K'. upd_rel alph h' (a_remove T q) q (K, p) (K', p))"
    using remove_trie_heap[OF r w a X occ]
  proof (elim disjE exE conjE)
    assume E: "a_remove T q = a_modify (a_set_val Sentinel) q T"
      "remove_trie h t q
         = (None, h[a_addr X := (h ! a_addr X)\<lparr>nvalue := Sentinel\<rparr>], t\<lparr>t_count := t_count t - 1\<rparr>)"
    have h': "h' = h[a_addr X := (h ! a_addr X)\<lparr>nvalue := Sentinel\<rparr>]" using R(1) E(2) by simp
    show ?thesis unfolding h' E(1) using step_set_val[OF r w X] by blast
  next
    fix k1 c k2 N B
    assume E: "q = k1 @ c # k2" "a_sub T k1 = Some N" "map_of (a_kids N) c = Some B"
      "a_sub B k2 = Some X" "\<forall>q X. a_sub B q = Some X \<longrightarrow> prefix q k2"
      "\<forall>q X. strict_prefix q k2 \<longrightarrow> a_sub B q = Some X \<longrightarrow> \<not> elig X"
      "a_remove T q = a_modify (a_del_kid c) k1 T"
      "remove_trie h t q = (None, cut_heap h (a_addr X) (a_addr N) c, t\<lparr>t_count := t_count t - 1\<rparr>)"
    have h': "h' = cut_heap h (a_addr X) (a_addr N) c" using R(1) E(8) by simp
    show ?thesis unfolding h' E(7) using step_del_kid[OF r w E(1,2,3,4,5,6)] by blast
  qed
  show ?thesis by (intro exI conjI) (rule R(1) R(2) R(3) 4)+
qed

lemma inter_target_yield:
  assumes "set q \<subseteq> set alph" and "a_lookup T q \<noteq> None"
    and "a_lookup T q = inter_target alph T0 U q \<or> a_lookup T q = a_lookup T0 q"
  shows "inter_target alph T0 U q = a_lookup U q"
  using assms by (auto simp: inter_target_def split: if_splits)

lemma inter_target_covered:
  assumes "set q \<subseteq> set alph" and "a_lookup T0 q = None"
  shows "inter_target alph T0 U q = None"
  using assms by (simp add: inter_target_def)

lemma intersection_update_loop_resume:
  "intersection_update_loop h t other (Generator (Some (n, p)) stk)
     = intersection_update_loop h t other
         (Generator None (push_children h n p (rev (t_alphabet t)) stk))"
  by (subst intersection_update_loop.simps, subst (2) intersection_update_loop.simps)
    (simp add: generator_next_resume)

lemma intersection_update_loop_sim:
  fixes T T0 U :: "('c, 'v) atree" and Ks :: "(('c, 'v) atree \<times> 'c list) list"
  assumes "tree_ok h t T" and "t_alphabet t = alph"
    and "\<forall>Kp \<in> set Ks. entry_ok h T Kp \<and> set (snd Kp) \<subseteq> set alph"
    and "repr h U" and "a_addr U = t_root other" and "set (addrs U) \<inter> set (addrs T) = {}"
    and "\<forall>q. a_lookup T q = inter_target alph T0 U q
            \<or> (q \<in> snd ` set (f_items alph Ks) \<and> a_lookup T q = a_lookup T0 q)"
  shows "\<exists>h' n T'. intersection_update_loop h t other (Generator None (stack_of Ks))
              = Some (None, h', t\<lparr>t_count := n\<rparr>)
          \<and> tree_ok h' (t\<lparr>t_count := n\<rparr>) T' \<and> evolves h T h' T'
          \<and> (\<forall>q. a_lookup T' q = inter_target alph T0 U q)"
  using assms
proof (induction "f_work alph Ks" arbitrary: Ks h t T rule: less_induct)
  case less
  note ok = less.prems(1) and al = less.prems(2) and ents = less.prems(3)
    and rU = less.prems(4) and aU = less.prems(5) and dU = less.prems(6) and cov = less.prems(7)
  have gn: "generator_next h alph (Generator None (stack_of Ks))
      = iterate_nodes_loop h alph (stack_of Ks)"
    by (simp add: generator_next_def)
  from self_iter_step[OF ents]
  show ?case
  proof (elim disjE exE conjE)
    assume E: "f_items alph Ks = []" "iterate_nodes_loop h alph (stack_of Ks) = Some None"
    have 1: "intersection_update_loop h t other (Generator None (stack_of Ks))
        = Some (None, h, t\<lparr>t_count := t_count t\<rparr>)"
      using E(2) by (subst intersection_update_loop.simps) (simp add: gn al)
    have 2: "tree_ok h (t\<lparr>t_count := t_count t\<rparr>) T" using ok by simp
    have 3: "\<forall>q. a_lookup T q = inter_target alph T0 U q" using cov E(1) by simp
    show ?thesis by (intro exI conjI) (rule 1 2 evolves_refl 3)+
  next
    fix X q and Ks' :: "(('c, 'v) atree \<times> 'c list) list"
    assume A: "iterate_nodes_loop h alph (stack_of Ks)
                = Some (Some ((a_addr X, q), Generator (Some (a_addr X, q)) (stack_of Ks')))"
      "a_sub T q = Some X" "a_val X \<noteq> Sentinel" "set q \<subseteq> set alph"
      "\<forall>h' T'. (\<forall>K p. entry_ok h T (K, p) \<longrightarrow> (\<exists>K'. upd_rel alph h' T' q (K, p) (K', p)))
                 \<longrightarrow> (\<exists>Ks2. push_children h' (a_addr X) q (rev alph) (stack_of Ks') = stack_of Ks2
                       \<and> (\<forall>Kp \<in> set Ks2. entry_ok h' T' Kp \<and> set (snd Kp) \<subseteq> set alph)
                       \<and> f_work alph Ks2 < f_work alph Ks
                       \<and> (\<forall>q'. q' \<noteq> q \<longrightarrow> q' \<in> snd ` set (f_items alph Ks)
                              \<longrightarrow> q' \<in> snd ` set (f_items alph Ks2)))"
    have lkT: "a_lookup T q \<noteq> None"
      using A(2,3) by (cases "a_val X") (simp_all add: a_lookup_def a_slot_def)
    have tgt: "inter_target alph T0 U q = a_lookup U q"
      using inter_target_yield[OF A(4) lkT] cov by blast
    have cont: "contains h other q \<longleftrightarrow> a_lookup U q \<noteq> None" using contains_repr[OF rU aU] .
    have gi: "getitem h other q = (case a_lookup U q of None \<Rightarrow> Inl KeyError | Some v \<Rightarrow> Inr v)"
      using getitem_repr[OF rU aU] .
    show ?thesis
    proof (cases "a_lookup U q")
      case (Some v)
      from overwrite_self_step[OF ok A(2,3), of v alph]
      obtain h1 T1 where O: "insert_trie h t q v = (h1, t)" "tree_ok h1 t T1" "evolves h T h1 T1"
        "\<forall>q'. a_lookup T1 q' = (if q' = q then Some v else a_lookup T q')"
        "\<forall>K p. entry_ok h T (K, p) \<longrightarrow> (\<exists>K'. upd_rel alph h1 T1 q (K, p) (K', p))"
        by blast
      from A(5) O(5) obtain Ks2 where K2:
        "push_children h1 (a_addr X) q (rev alph) (stack_of Ks') = stack_of Ks2"
        "\<forall>Kp \<in> set Ks2. entry_ok h1 T1 Kp \<and> set (snd Kp) \<subseteq> set alph"
        "f_work alph Ks2 < f_work alph Ks"
        "\<forall>q'. q' \<noteq> q \<longrightarrow> q' \<in> snd ` set (f_items alph Ks) \<longrightarrow> q' \<in> snd ` set (f_items alph Ks2)"
        by blast
      have step: "intersection_update_loop h t other (Generator None (stack_of Ks))
          = intersection_update_loop h1 t other (Generator None (stack_of Ks2))"
        using A(1) cont gi Some O(1) K2(1)
        by (subst intersection_update_loop.simps)
          (simp add: gn intersection_update_loop_resume al)
      have rU1: "repr h1 U" and dU1: "set (addrs U) \<inter> set (addrs T1) = {}"
        using evolves_frame[OF O(3) rU dU] by simp_all
      have cov1: "\<forall>q'. a_lookup T1 q' = inter_target alph T0 U q'
            \<or> (q' \<in> snd ` set (f_items alph Ks2) \<and> a_lookup T1 q' = a_lookup T0 q')"
      proof
        fix q'
        show "a_lookup T1 q' = inter_target alph T0 U q'
            \<or> (q' \<in> snd ` set (f_items alph Ks2) \<and> a_lookup T1 q' = a_lookup T0 q')"
        proof (cases "q' = q")
          case True
          then show ?thesis using O(4) tgt Some by simp
        next
          case False
          then have "a_lookup T1 q' = a_lookup T q'" using O(4) by simp
          then show ?thesis using cov K2(4) False by metis
        qed
      qed
      from less.hyps[OF K2(3) O(2) al K2(2) rU1 aU dU1 cov1]
      obtain h' n T' where R: "intersection_update_loop h1 t other (Generator None (stack_of Ks2))
              = Some (None, h', t\<lparr>t_count := n\<rparr>)"
          "tree_ok h' (t\<lparr>t_count := n\<rparr>) T'" "evolves h1 T1 h' T'"
          "\<forall>q. a_lookup T' q = inter_target alph T0 U q"
        by blast
      have 1: "intersection_update_loop h t other (Generator None (stack_of Ks))
              = Some (None, h', t\<lparr>t_count := n\<rparr>)" using step R(1) by simp
      have ev: "evolves h T h' T'" using evolves_trans[OF O(3) R(3)] .
      show ?thesis by (intro exI conjI) (rule 1 R(2) ev R(4))+
    next
      case None
      define t1 where "t1 = t\<lparr>t_count := t_count t - 1\<rparr>"
      define T1 where "T1 = a_remove T q"
      from remove_self_step[OF ok A(2,3), of alph]
      obtain h1 where O: "remove_trie h t q = (None, h1, t1)" "tree_ok h1 t1 T1" "evolves h T h1 T1"
        "\<forall>K p. entry_ok h T (K, p) \<longrightarrow> (\<exists>K'. upd_rel alph h1 T1 q (K, p) (K', p))"
        unfolding t1_def T1_def by blast
      have lk1: "\<forall>q'. a_lookup T1 q' = (if q' = q then None else a_lookup T q')"
        unfolding T1_def by (simp add: a_lookup_a_remove)
      from A(5) O(4) obtain Ks2 where K2:
        "push_children h1 (a_addr X) q (rev alph) (stack_of Ks') = stack_of Ks2"
        "\<forall>Kp \<in> set Ks2. entry_ok h1 T1 Kp \<and> set (snd Kp) \<subseteq> set alph"
        "f_work alph Ks2 < f_work alph Ks"
        "\<forall>q'. q' \<noteq> q \<longrightarrow> q' \<in> snd ` set (f_items alph Ks) \<longrightarrow> q' \<in> snd ` set (f_items alph Ks2)"
        by blast
      have al1: "t_alphabet t1 = alph" using al by (simp add: t1_def)
      have step: "intersection_update_loop h t other (Generator None (stack_of Ks))
          = intersection_update_loop h1 t1 other (Generator None (stack_of Ks2))"
        using A(1) cont None O(1) K2(1)
        by (subst intersection_update_loop.simps)
          (simp add: gn intersection_update_loop_resume al al1)
      have rU1: "repr h1 U" and dU1: "set (addrs U) \<inter> set (addrs T1) = {}"
        using evolves_frame[OF O(3) rU dU] by simp_all
      have cov1: "\<forall>q'. a_lookup T1 q' = inter_target alph T0 U q'
            \<or> (q' \<in> snd ` set (f_items alph Ks2) \<and> a_lookup T1 q' = a_lookup T0 q')"
      proof
        fix q'
        show "a_lookup T1 q' = inter_target alph T0 U q'
            \<or> (q' \<in> snd ` set (f_items alph Ks2) \<and> a_lookup T1 q' = a_lookup T0 q')"
        proof (cases "q' = q")
          case True
          then show ?thesis using lk1 tgt None by simp
        next
          case False
          then have "a_lookup T1 q' = a_lookup T q'" using lk1 by simp
          then show ?thesis using cov K2(4) False by metis
        qed
      qed
      from less.hyps[OF K2(3) O(2) al1 K2(2) rU1 aU dU1 cov1]
      obtain h' n T' where R: "intersection_update_loop h1 t1 other (Generator None (stack_of Ks2))
              = Some (None, h', t1\<lparr>t_count := n\<rparr>)"
          "tree_ok h' (t1\<lparr>t_count := n\<rparr>) T'" "evolves h1 T1 h' T'"
          "\<forall>q. a_lookup T' q = inter_target alph T0 U q"
        by blast
      have t1n: "t1\<lparr>t_count := n\<rparr> = t\<lparr>t_count := n\<rparr>" by (simp add: t1_def)
      have 1: "intersection_update_loop h t other (Generator None (stack_of Ks))
              = Some (None, h', t\<lparr>t_count := n\<rparr>)" using step R(1) t1n by simp
      have 2: "tree_ok h' (t\<lparr>t_count := n\<rparr>) T'" using R(2) t1n by simp
      have ev: "evolves h T h' T'" using evolves_trans[OF O(3) R(3)] .
      show ?thesis by (intro exI conjI) (rule 1 2 ev R(4))+
    qed
  qed
qed

lemma difference_update_loop_self:
  fixes T T0 :: "('c, 'v) atree" and Ks :: "(('c, 'v) atree \<times> 'c list) list"
  assumes "tree_ok h t T"
    and "\<forall>Kp \<in> set Ks. entry_ok h T Kp \<and> set (snd Kp) \<subseteq> set alph"
    and "\<forall>q. a_lookup T q = (if set q \<subseteq> set alph then None else a_lookup T0 q)
            \<or> (q \<in> snd ` set (f_items alph Ks) \<and> a_lookup T q = a_lookup T0 q)"
  shows "\<exists>h' n T'. difference_update_loop h t alph (Generator None (stack_of Ks))
              = Some (None, h', t\<lparr>t_count := n\<rparr>)
          \<and> tree_ok h' (t\<lparr>t_count := n\<rparr>) T' \<and> evolves h T h' T'
          \<and> (\<forall>q. a_lookup T' q = (if set q \<subseteq> set alph then None else a_lookup T0 q))"
  using assms
proof (induction "f_work alph Ks" arbitrary: Ks h t T rule: less_induct)
  case less
  note ok = less.prems(1) and ents = less.prems(2) and cov = less.prems(3)
  have gn: "generator_next h alph (Generator None (stack_of Ks))
      = iterate_nodes_loop h alph (stack_of Ks)"
    by (simp add: generator_next_def)
  have r: "repr h T" and a: "a_addr T = t_root t" using ok by (simp_all add: tree_ok_def)
  from self_iter_step[OF ents]
  show ?case
  proof (elim disjE exE conjE)
    assume E: "f_items alph Ks = []" "iterate_nodes_loop h alph (stack_of Ks) = Some None"
    have 1: "difference_update_loop h t alph (Generator None (stack_of Ks))
        = Some (None, h, t\<lparr>t_count := t_count t\<rparr>)"
      using E(2) by (subst difference_update_loop.simps) (simp add: gn)
    have 2: "tree_ok h (t\<lparr>t_count := t_count t\<rparr>) T" using ok by simp
    have 3: "\<forall>q. a_lookup T q = (if set q \<subseteq> set alph then None else a_lookup T0 q)"
      using cov E(1) by simp
    show ?thesis by (intro exI conjI) (rule 1 2 evolves_refl 3)+
  next
    fix X q and Ks' :: "(('c, 'v) atree \<times> 'c list) list"
    assume A: "iterate_nodes_loop h alph (stack_of Ks)
                = Some (Some ((a_addr X, q), Generator (Some (a_addr X, q)) (stack_of Ks')))"
      "a_sub T q = Some X" "a_val X \<noteq> Sentinel" "set q \<subseteq> set alph"
      "\<forall>h' T'. (\<forall>K p. entry_ok h T (K, p) \<longrightarrow> (\<exists>K'. upd_rel alph h' T' q (K, p) (K', p)))
                 \<longrightarrow> (\<exists>Ks2. push_children h' (a_addr X) q (rev alph) (stack_of Ks') = stack_of Ks2
                       \<and> (\<forall>Kp \<in> set Ks2. entry_ok h' T' Kp \<and> set (snd Kp) \<subseteq> set alph)
                       \<and> f_work alph Ks2 < f_work alph Ks
                       \<and> (\<forall>q'. q' \<noteq> q \<longrightarrow> q' \<in> snd ` set (f_items alph Ks)
                              \<longrightarrow> q' \<in> snd ` set (f_items alph Ks2)))"
    have lkT: "a_lookup T q \<noteq> None"
      using A(2,3) by (cases "a_val X") (simp_all add: a_lookup_def a_slot_def)
    have cont: "contains h t q" using contains_repr[OF r a, of q] lkT by simp
    define t1 where "t1 = t\<lparr>t_count := t_count t - 1\<rparr>"
    define T1 where "T1 = a_remove T q"
    from remove_self_step[OF ok A(2,3), of alph]
    obtain h1 where O: "remove_trie h t q = (None, h1, t1)" "tree_ok h1 t1 T1" "evolves h T h1 T1"
      "\<forall>K p. entry_ok h T (K, p) \<longrightarrow> (\<exists>K'. upd_rel alph h1 T1 q (K, p) (K', p))"
      unfolding t1_def T1_def by blast
    have lk1: "\<forall>q'. a_lookup T1 q' = (if q' = q then None else a_lookup T q')"
      unfolding T1_def by (simp add: a_lookup_a_remove)
    from A(5) O(4) obtain Ks2 where K2:
      "push_children h1 (a_addr X) q (rev alph) (stack_of Ks') = stack_of Ks2"
      "\<forall>Kp \<in> set Ks2. entry_ok h1 T1 Kp \<and> set (snd Kp) \<subseteq> set alph"
      "f_work alph Ks2 < f_work alph Ks"
      "\<forall>q'. q' \<noteq> q \<longrightarrow> q' \<in> snd ` set (f_items alph Ks) \<longrightarrow> q' \<in> snd ` set (f_items alph Ks2)"
      by blast
    have step: "difference_update_loop h t alph (Generator None (stack_of Ks))
        = difference_update_loop h1 t1 alph (Generator None (stack_of Ks2))"
      using A(1) cont O(1) K2(1)
      by (subst difference_update_loop.simps)
        (simp add: gn difference_update_loop_resume)
    have cov1: "\<forall>q'. a_lookup T1 q' = (if set q' \<subseteq> set alph then None else a_lookup T0 q')
          \<or> (q' \<in> snd ` set (f_items alph Ks2) \<and> a_lookup T1 q' = a_lookup T0 q')"
    proof
      fix q'
      show "a_lookup T1 q' = (if set q' \<subseteq> set alph then None else a_lookup T0 q')
          \<or> (q' \<in> snd ` set (f_items alph Ks2) \<and> a_lookup T1 q' = a_lookup T0 q')"
      proof (cases "q' = q")
        case True
        then show ?thesis using lk1 A(4) by simp
      next
        case False
        then have "a_lookup T1 q' = a_lookup T q'" using lk1 by simp
        then show ?thesis using cov K2(4) False by metis
      qed
    qed
    from less.hyps[OF K2(3) O(2) K2(2) cov1]
    obtain h' n T' where R: "difference_update_loop h1 t1 alph (Generator None (stack_of Ks2))
            = Some (None, h', t1\<lparr>t_count := n\<rparr>)"
        "tree_ok h' (t1\<lparr>t_count := n\<rparr>) T'" "evolves h1 T1 h' T'"
        "\<forall>q. a_lookup T' q = (if set q \<subseteq> set alph then None else a_lookup T0 q)"
      by blast
    have t1n: "t1\<lparr>t_count := n\<rparr> = t\<lparr>t_count := n\<rparr>" by (simp add: t1_def)
    have 1: "difference_update_loop h t alph (Generator None (stack_of Ks))
            = Some (None, h', t\<lparr>t_count := n\<rparr>)" using step R(1) t1n by simp
    have 2: "tree_ok h' (t\<lparr>t_count := n\<rparr>) T'" using R(2) t1n by simp
    have ev: "evolves h T h' T'" using evolves_trans[OF O(3) R(3)] .
    show ?thesis by (intro exI conjI) (rule 1 2 ev R(4))+
  qed
qed

lemma intersection_update_loop_self:
  fixes T :: "('c, 'v) atree" and Ks :: "(('c, 'v) atree \<times> 'c list) list"
  assumes "tree_ok h t T" and "t_alphabet t = alph" and "t_root other = t_root t"
    and "\<forall>Kp \<in> set Ks. entry_ok h T Kp \<and> set (snd Kp) \<subseteq> set alph"
  shows "\<exists>h' T'. intersection_update_loop h t other (Generator None (stack_of Ks))
              = Some (None, h', t)
          \<and> tree_ok h' t T' \<and> evolves h T h' T'
          \<and> (\<forall>q. a_lookup T' q = a_lookup T q)"
  using assms
proof (induction "f_work alph Ks" arbitrary: Ks h T rule: less_induct)
  case less
  note ok = less.prems(1) and al = less.prems(2) and ro = less.prems(3) and ents = less.prems(4)
  have gn: "generator_next h alph (Generator None (stack_of Ks))
      = iterate_nodes_loop h alph (stack_of Ks)"
    by (simp add: generator_next_def)
  have r: "repr h T" and a: "a_addr T = t_root other" using ok ro by (simp_all add: tree_ok_def)
  from self_iter_step[OF ents]
  show ?case
  proof (elim disjE exE conjE)
    assume E: "f_items alph Ks = []" "iterate_nodes_loop h alph (stack_of Ks) = Some None"
    have 1: "intersection_update_loop h t other (Generator None (stack_of Ks)) = Some (None, h, t)"
      using E(2) by (subst intersection_update_loop.simps) (simp add: gn al)
    have 3: "\<forall>q. a_lookup T q = a_lookup T q" by simp
    show ?thesis by (intro exI conjI) (rule 1 ok evolves_refl 3)+
  next
    fix X q and Ks' :: "(('c, 'v) atree \<times> 'c list) list"
    assume A: "iterate_nodes_loop h alph (stack_of Ks)
                = Some (Some ((a_addr X, q), Generator (Some (a_addr X, q)) (stack_of Ks')))"
      "a_sub T q = Some X" "a_val X \<noteq> Sentinel" "set q \<subseteq> set alph"
      "\<forall>h' T'. (\<forall>K p. entry_ok h T (K, p) \<longrightarrow> (\<exists>K'. upd_rel alph h' T' q (K, p) (K', p)))
                 \<longrightarrow> (\<exists>Ks2. push_children h' (a_addr X) q (rev alph) (stack_of Ks') = stack_of Ks2
                       \<and> (\<forall>Kp \<in> set Ks2. entry_ok h' T' Kp \<and> set (snd Kp) \<subseteq> set alph)
                       \<and> f_work alph Ks2 < f_work alph Ks
                       \<and> (\<forall>q'. q' \<noteq> q \<longrightarrow> q' \<in> snd ` set (f_items alph Ks)
                              \<longrightarrow> q' \<in> snd ` set (f_items alph Ks2)))"
    have "a_lookup T q \<noteq> None"
      using A(2,3) by (cases "a_val X") (simp_all add: a_lookup_def a_slot_def)
    then obtain v where v: "a_lookup T q = Some v" by blast
    have cont: "contains h other q" using contains_repr[OF r a, of q] v by simp
    have gi: "getitem h other q = Inr v" using getitem_repr[OF r a, of q] v by simp
    from overwrite_self_step[OF ok A(2,3), of v alph]
    obtain h1 T1 where O: "insert_trie h t q v = (h1, t)" "tree_ok h1 t T1" "evolves h T h1 T1"
      "\<forall>q'. a_lookup T1 q' = (if q' = q then Some v else a_lookup T q')"
      "\<forall>K p. entry_ok h T (K, p) \<longrightarrow> (\<exists>K'. upd_rel alph h1 T1 q (K, p) (K', p))"
      by blast
    from A(5) O(5) obtain Ks2 where K2:
      "push_children h1 (a_addr X) q (rev alph) (stack_of Ks') = stack_of Ks2"
      "\<forall>Kp \<in> set Ks2. entry_ok h1 T1 Kp \<and> set (snd Kp) \<subseteq> set alph"
      "f_work alph Ks2 < f_work alph Ks"
      by blast
    have step: "intersection_update_loop h t other (Generator None (stack_of Ks))
        = intersection_update_loop h1 t other (Generator None (stack_of Ks2))"
      using A(1) cont gi O(1) K2(1)
      by (subst intersection_update_loop.simps)
        (simp add: gn intersection_update_loop_resume al)
    have same: "\<forall>q'. a_lookup T1 q' = a_lookup T q'" using O(4) v by simp
    from less.hyps[OF K2(3) O(2) al ro K2(2)]
    obtain h' T' where R: "intersection_update_loop h1 t other (Generator None (stack_of Ks2))
            = Some (None, h', t)"
        "tree_ok h' t T'" "evolves h1 T1 h' T'" "\<forall>q. a_lookup T' q = a_lookup T1 q"
      by blast
    have 1: "intersection_update_loop h t other (Generator None (stack_of Ks)) = Some (None, h', t)"
      using step R(1) by simp
    have ev: "evolves h T h' T'" using evolves_trans[OF O(3) R(3)] .
    have 4: "\<forall>q. a_lookup T' q = a_lookup T q" using R(4) same by simp
    show ?thesis by (intro exI conjI) (rule 1 R(2) ev 4)+
  qed
qed

lemma update_children_alias:
  assumes "\<forall>x \<in> set xs. map_of (children (h ! a)) (fst x) = Some (snd x)"
  shows "update_children h a xs stk = (h, rev (map (\<lambda>x. (snd x, snd x)) xs) @ stk)"
  using assms
proof (induction xs arbitrary: stk)
  case Nil
  then show ?case by simp
next
  case (Cons x xs)
  obtain c b where x: "x = (c, b)" by (cases x)
  have "map_of (children (h ! a)) c = Some b" using Cons.prems x by simp
  then show ?case using Cons.IH[of "(b, b) # stk"] Cons.prems x by simp
qed

lemma update_visit_alias: "update_visit h t a a = (h, t)"
proof (cases "nvalue (h ! a)")
  case Sentinel
  then show ?thesis by (simp add: update_visit_def)
next
  case (Stored v)
  then have "(h ! a)\<lparr>nvalue := Stored v\<rparr> = h ! a" by simp
  then have "h[a := (h ! a)\<lparr>nvalue := Stored v\<rparr>] = h" by (simp only: list_update_id)
  then show ?thesis using Stored by (simp add: update_visit_def)
qed

lemma update_loop_alias:
  fixes T :: "('c, 'v) atree"
  shows "repr h T \<Longrightarrow> distinct_keys T \<Longrightarrow>
    update_loop h t ((a_addr T, a_addr T) # rest) = update_loop h t rest"
proof (induction T arbitrary: rest)
  case (ANode a ks v)
  have dk: "distinct (map fst ks)" using ANode.prems(2) by simp
  have ch: "children (h ! a) = map (\<lambda>x. (fst x, a_addr (snd x))) ks" using ANode.prems(1) by simp
  have kids: "update_loop h t (rev (map (\<lambda>x. (a_addr (snd x), a_addr (snd x))) xs) @ rest')
      = update_loop h t rest'"
    if "set xs \<subseteq> set ks" for xs rest'
    using that
  proof (induction xs arbitrary: rest')
    case Nil
    then show ?case by simp
  next
    case (Cons x xs)
    have x: "x \<in> set ks" using Cons.prems by simp
    then have rx: "repr h (snd x)" and dx: "distinct_keys (snd x)" using ANode.prems by auto
    have "update_loop h t (rev (map (\<lambda>x. (a_addr (snd x), a_addr (snd x))) (x # xs)) @ rest')
        = update_loop h t (rev (map (\<lambda>x. (a_addr (snd x), a_addr (snd x))) xs)
            @ ((a_addr (snd x), a_addr (snd x)) # rest'))"
      by simp
    also have "\<dots> = update_loop h t ((a_addr (snd x), a_addr (snd x)) # rest')"
      using Cons.IH Cons.prems by simp
    also have "\<dots> = update_loop h t rest'"
      using ANode.IH[of x "snd x", OF x _ rx dx] by (cases x) (simp add: snds.simps)
    finally show ?case .
  qed
  have mo: "\<forall>x \<in> set (children (h ! a)). map_of (children (h ! a)) (fst x) = Some (snd x)"
  proof
    fix x assume x: "x \<in> set (children (h ! a))"
    have d: "distinct (map fst (children (h ! a)))" using dk by (simp add: ch comp_def)
    show "map_of (children (h ! a)) (fst x) = Some (snd x)"
      using map_of_is_SomeI[OF d, of "fst x" "snd x"] x by simp
  qed
  have "update_loop h t ((a, a) # rest)
      = update_loop h t (rev (map (\<lambda>x. (snd x, snd x)) (children (h ! a))) @ rest)"
    by (subst update_loop.simps) (simp add: update_visit_alias update_children_alias[OF mo])
  also have "\<dots> = update_loop h t (rev (map (\<lambda>x. (a_addr (snd x), a_addr (snd x))) ks) @ rest)"
    by (simp add: ch comp_def)
  also have "\<dots> = update_loop h t rest" using kids[of ks] by simp
  finally show ?case by simp
qed

lemma update_trie_alias:
  fixes T :: "('c, 'v) atree"
  assumes "tree_ok h t T" and "t_root other = t_root t"
  shows "update_trie h t other = Some (h, t)"
proof -
  have r: "repr h T" and w: "wf_tree T" and a: "a_addr T = t_root t"
    using assms(1) by (simp_all add: tree_ok_def)
  have d: "distinct_keys T" using w by (simp add: wf_tree_def)
  have "update_loop h t ((a_addr T, a_addr T) # []) = update_loop h t []"
    by (rule update_loop_alias[OF r d])
  also have "\<dots> = Some (h, t)" by (subst update_loop.simps) simp
  finally show ?thesis using a assms(2) by (simp add: update_trie_def)
qed

lemma tree_ok_frame:
  assumes "tree_ok h t K" and "evolves h T h' T'" and "set (addrs K) \<inter> set (addrs T) = {}"
  shows "tree_ok h' t K" and "set (addrs K) \<inter> set (addrs T') = {}"
  using assms evolves_frame[OF assms(2), of K] by (simp_all add: tree_ok_def)

lemma tree_ok_fresh:
  assumes "tree_ok h t K"
  shows "tree_ok (h @ [new_node]) t K" and "length h \<notin> set (addrs K)"
proof -
  have r: "repr h K" using assms by (simp add: tree_ok_def)
  have lt: "\<And>a. a \<in> set (addrs K) \<Longrightarrow> a < length h" using repr_addrs_lt[OF r] .
  have "repr (h @ [new_node]) K"
    by (rule repr_frame[OF r]) (simp_all add: nth_append lt)
  then show "tree_ok (h @ [new_node]) t K" using assms by (simp add: tree_ok_def)
  show "length h \<notin> set (addrs K)" using lt by blast
qed

lemma tree_ok_empty:
  "tree_ok (h @ [new_node]) \<lparr>t_alphabet = alph, t_root = length h, t_count = 0\<rparr>
     (ANode (length h) [] Sentinel)"
  by (simp add: tree_ok_def wf_tree_def new_node_def)

lemma a_lookup_empty [simp]: "a_lookup (ANode a [] Sentinel) q = None"
  by (cases q) (simp_all add: a_lookup_def a_slot_def)

lemma update_trie_ok:
  fixes T U :: "('c, 'v) atree"
  assumes "tree_ok h t T" and "tree_ok h other U" and "set (addrs T) \<inter> set (addrs U) = {}"
  shows "\<exists>h' n T'. update_trie h t other = Some (h', t\<lparr>t_count := n\<rparr>)
          \<and> tree_ok h' (t\<lparr>t_count := n\<rparr>) T' \<and> evolves h T h' T'
          \<and> (\<forall>q. a_lookup T' q = (case a_lookup U q of Some v \<Rightarrow> Some v | None \<Rightarrow> a_lookup T q))"
proof -
  have r: "repr h T" and w: "wf_tree T" and p: "pruned T" and a: "a_addr T = t_root t"
    and c: "t_count t = a_count T"
    using assms(1) by (simp_all add: tree_ok_def)
  have rU: "repr h U" and wU: "wf_tree U" and pU: "pruned U" and aU: "a_addr U = t_root other"
    using assms(2) by (simp_all add: tree_ok_def)
  from update_trie_sim[OF r w a rU wU aU assms(3)]
  obtain h' T' where R:
    "update_trie h t other = Some (h', t\<lparr>t_count := t_count t + (a_count T' - a_count T)\<rparr>)"
    "repr h' T'" "wf_tree T'" "a_addr T' = t_root t" "length h \<le> length h'"
    "\<forall>x < length h. x \<notin> set (addrs T) \<longrightarrow> h' ! x = h ! x"
    "set (addrs T') \<subseteq> set (addrs T) \<union> {length h ..< length h'}"
    "\<forall>q. a_slot T' q = merge_slot (a_slot T q) (a_slot U q)"
    by (elim exE conjE)
  define n where "n = t_count t + (a_count T' - a_count T)"
  have n: "n = a_count T'" using c by (simp add: n_def)
  have pr: "pruned T'"
    using pruned_merge[OF p pU _ R(8)] R(3) by (simp add: wf_tree_def)
  have 1: "update_trie h t other = Some (h', t\<lparr>t_count := n\<rparr>)" using R(1) by (simp add: n_def)
  have 2: "tree_ok h' (t\<lparr>t_count := n\<rparr>) T'"
    using R(2,3,4) pr n by (simp add: tree_ok_def)
  have 3: "evolves h T h' T'" using R(4,5,6,7) a by (simp add: evolves_def)
  have 4: "\<forall>q. a_lookup T' q = (case a_lookup U q of Some v \<Rightarrow> Some v | None \<Rightarrow> a_lookup T q)"
    using a_lookup_merge[OF R(8)] by simp
  show ?thesis by (intro exI conjI) (rule 1 2 3 4)+
qed

lemma entry_ok_root:
  assumes "tree_ok h t T"
  shows "\<forall>Kp \<in> set [(T, [])]. entry_ok h T Kp \<and> set (snd Kp) \<subseteq> set alph"
  using assms by (simp add: entry_ok_def tree_ok_def wf_tree_def)

lemma f_items_root:
  fixes T :: "('c, 'v) atree"
  assumes "distinct_keys T"
  shows "q \<in> snd ` set (f_items alph [(T, [])]) \<longleftrightarrow> set q \<subseteq> set alph \<and> a_lookup T q \<noteq> None"
proof -
  have "\<forall>Kp \<in> set [(T, [])]. distinct_keys (fst Kp)" using assms by simp
  from f_items_mem[OF this, of q alph] show ?thesis by simp
qed

lemma difference_update_ok:
  fixes T U :: "('c, 'v) atree"
  assumes "tree_ok h t T" and "tree_ok h other U" and "set (addrs T) \<inter> set (addrs U) = {}"
  shows "\<exists>h' n T'. difference_update h t other = Some (None, h', t\<lparr>t_count := n\<rparr>)
          \<and> tree_ok h' (t\<lparr>t_count := n\<rparr>) T' \<and> evolves h T h' T'
          \<and> (\<forall>q. a_lookup T' q
                = (if set q \<subseteq> set (t_alphabet other) \<and> a_lookup U q \<noteq> None then None
                   else a_lookup T q))"
proof -
  have rU: "repr h U" and wU: "wf_tree U" and aU: "a_addr U = t_root other"
    using assms(2) by (simp_all add: tree_ok_def)
  have dU: "distinct_keys U" using wU by (simp add: wf_tree_def)
  have fo: "forest_ok h [(U, [])]" using rU dU by simp
  have fa: "forest_apart [(U, [])] T" using assms(3) by (simp add: Int_commute)
  from difference_update_loop_sim[OF assms(1) fo fa, of "t_alphabet other"]
  obtain h' n T' where R:
    "difference_update_loop h t (t_alphabet other) (Generator None (stack_of [(U, [])]))
       = Some (None, h', t\<lparr>t_count := n\<rparr>)"
    "tree_ok h' (t\<lparr>t_count := n\<rparr>) T'" "evolves h T h' T'"
    "\<forall>q. a_lookup T' q = (if q \<in> snd ` set (f_items (t_alphabet other) [(U, [])]) then None
            else a_lookup T q)"
    by (elim exE conjE)
  have 1: "difference_update h t other = Some (None, h', t\<lparr>t_count := n\<rparr>)"
    using R(1) aU by (simp add: difference_update_def iterate_nodes_def)
  have 4: "\<forall>q. a_lookup T' q
                = (if set q \<subseteq> set (t_alphabet other) \<and> a_lookup U q \<noteq> None then None
                   else a_lookup T q)"
    using R(4) unfolding f_items_root[OF dU] .
  show ?thesis by (intro exI conjI) (rule 1 R(2) R(3) 4)+
qed

lemma difference_update_self:
  fixes T :: "('c, 'v) atree"
  assumes "tree_ok h t T" and "t_root other = t_root t"
  shows "\<exists>h' n T'. difference_update h t other = Some (None, h', t\<lparr>t_count := n\<rparr>)
          \<and> tree_ok h' (t\<lparr>t_count := n\<rparr>) T' \<and> evolves h T h' T'
          \<and> (\<forall>q. a_lookup T' q
                = (if set q \<subseteq> set (t_alphabet other) \<and> a_lookup T q \<noteq> None then None
                   else a_lookup T q))"
proof -
  have a: "a_addr T = t_root t" and w: "wf_tree T" using assms(1) by (simp_all add: tree_ok_def)
  have d: "distinct_keys T" using w by (simp add: wf_tree_def)
  have cov: "\<forall>q. a_lookup T q = (if set q \<subseteq> set (t_alphabet other) then None else a_lookup T q)
            \<or> (q \<in> snd ` set (f_items (t_alphabet other) [(T, [])]) \<and> a_lookup T q = a_lookup T q)"
    unfolding f_items_root[OF d] by auto
  from difference_update_loop_self[OF assms(1) entry_ok_root[OF assms(1)] cov]
  obtain h' n T' where R:
    "difference_update_loop h t (t_alphabet other) (Generator None (stack_of [(T, [])]))
       = Some (None, h', t\<lparr>t_count := n\<rparr>)"
    "tree_ok h' (t\<lparr>t_count := n\<rparr>) T'" "evolves h T h' T'"
    "\<forall>q. a_lookup T' q = (if set q \<subseteq> set (t_alphabet other) then None else a_lookup T q)"
    by (elim exE conjE)
  have 1: "difference_update h t other = Some (None, h', t\<lparr>t_count := n\<rparr>)"
    using R(1) a assms(2) by (simp add: difference_update_def iterate_nodes_def)
  have 4: "\<forall>q. a_lookup T' q
                = (if set q \<subseteq> set (t_alphabet other) \<and> a_lookup T q \<noteq> None then None
                   else a_lookup T q)"
    using R(4) by auto
  show ?thesis by (intro exI conjI) (rule 1 R(2) R(3) 4)+
qed

lemma intersection_update_ok:
  fixes T U :: "('c, 'v) atree"
  assumes "tree_ok h t T" and "tree_ok h other U" and "set (addrs T) \<inter> set (addrs U) = {}"
  shows "\<exists>h' n T'. intersection_update h t other = Some (None, h', t\<lparr>t_count := n\<rparr>)
          \<and> tree_ok h' (t\<lparr>t_count := n\<rparr>) T' \<and> evolves h T h' T'
          \<and> (\<forall>q. a_lookup T' q
                = (if set q \<subseteq> set (t_alphabet t) \<and> a_lookup T q \<noteq> None then a_lookup U q
                   else a_lookup T q))"
proof -
  have rU: "repr h U" and aU: "a_addr U = t_root other"
    using assms(2) by (simp_all add: tree_ok_def)
  have a: "a_addr T = t_root t" and w: "wf_tree T" using assms(1) by (simp_all add: tree_ok_def)
  have d: "distinct_keys T" using w by (simp add: wf_tree_def)
  have dj: "set (addrs U) \<inter> set (addrs T) = {}" using assms(3) by (simp add: Int_commute)
  have cov: "\<forall>q. a_lookup T q = inter_target (t_alphabet t) T U q
            \<or> (q \<in> snd ` set (f_items (t_alphabet t) [(T, [])]) \<and> a_lookup T q = a_lookup T q)"
    unfolding f_items_root[OF d] by (auto simp: inter_target_def)
  from intersection_update_loop_sim[OF assms(1) refl entry_ok_root[OF assms(1)] rU aU dj cov]
  obtain h' n T' where R:
    "intersection_update_loop h t other (Generator None (stack_of [(T, [])]))
       = Some (None, h', t\<lparr>t_count := n\<rparr>)"
    "tree_ok h' (t\<lparr>t_count := n\<rparr>) T'" "evolves h T h' T'"
    "\<forall>q. a_lookup T' q = inter_target (t_alphabet t) T U q"
    by (elim exE conjE)
  have 1: "intersection_update h t other = Some (None, h', t\<lparr>t_count := n\<rparr>)"
    using R(1) a by (simp add: intersection_update_def iterate_nodes_def)
  have 4: "\<forall>q. a_lookup T' q
                = (if set q \<subseteq> set (t_alphabet t) \<and> a_lookup T q \<noteq> None then a_lookup U q
                   else a_lookup T q)"
    using R(4) by (simp add: inter_target_def)
  show ?thesis by (intro exI conjI) (rule 1 R(2) R(3) 4)+
qed

lemma intersection_update_self:
  fixes T :: "('c, 'v) atree"
  assumes "tree_ok h t T" and "t_root other = t_root t"
  shows "\<exists>h' n T'. intersection_update h t other = Some (None, h', t\<lparr>t_count := n\<rparr>)
          \<and> tree_ok h' (t\<lparr>t_count := n\<rparr>) T' \<and> evolves h T h' T'
          \<and> (\<forall>q. a_lookup T' q
                = (if set q \<subseteq> set (t_alphabet t) \<and> a_lookup T q \<noteq> None then a_lookup T q
                   else a_lookup T q))"
proof -
  have a: "a_addr T = t_root t" using assms(1) by (simp add: tree_ok_def)
  from intersection_update_loop_self[OF assms(1) refl assms(2) entry_ok_root[OF assms(1)]]
  obtain h' T' where R:
    "intersection_update_loop h t other (Generator None (stack_of [(T, [])])) = Some (None, h', t)"
    "tree_ok h' t T'" "evolves h T h' T'" "\<forall>q. a_lookup T' q = a_lookup T q"
    by (elim exE conjE)
  have tt: "t\<lparr>t_count := t_count t\<rparr> = t" by simp
  have 1: "intersection_update h t other = Some (None, h', t\<lparr>t_count := t_count t\<rparr>)"
    using R(1) a by (simp add: intersection_update_def iterate_nodes_def)
  have 2: "tree_ok h' (t\<lparr>t_count := t_count t\<rparr>) T'" using R(2) by simp
  have 4: "\<forall>q. a_lookup T' q
                = (if set q \<subseteq> set (t_alphabet t) \<and> a_lookup T q \<noteq> None then a_lookup T q
                   else a_lookup T q)"
    using R(4) by simp
  show ?thesis by (intro exI conjI) (rule 1 2 R(3) 4)+
qed

lemma copy_ok:
  fixes T :: "('c, 'v) atree"
  assumes "tree_ok h t T"
  defines "third \<equiv> \<lparr>t_alphabet = t_alphabet t, t_root = length h, t_count = 0\<rparr>"
  shows "\<exists>h1 n T1. update_trie (h @ [new_node]) third t = Some (h1, third\<lparr>t_count := n\<rparr>)
          \<and> tree_ok h1 (third\<lparr>t_count := n\<rparr>) T1
          \<and> evolves (h @ [new_node]) (fresh h) h1 T1
          \<and> (\<forall>q. a_lookup T1 q = a_lookup T q)"
proof -
  have e: "tree_ok (h @ [new_node]) third (fresh h)"
    unfolding third_def fresh_def by (rule tree_ok_empty)
  have t0: "tree_ok (h @ [new_node]) t T" and nin: "length h \<notin> set (addrs T)"
    using tree_ok_fresh[OF assms(1)] by simp_all
  have dj: "set (addrs (fresh h)) \<inter> set (addrs T) = {}" using nin by (simp add: fresh_def)
  from update_trie_ok[OF e t0 dj]
  obtain h1 n T1 where R: "update_trie (h @ [new_node]) third t = Some (h1, third\<lparr>t_count := n\<rparr>)"
    "tree_ok h1 (third\<lparr>t_count := n\<rparr>) T1" "evolves (h @ [new_node]) (fresh h) h1 T1"
    "\<forall>q. a_lookup T1 q = (case a_lookup T q of Some v \<Rightarrow> Some v | None \<Rightarrow> a_lookup (fresh h) q)"
    by (elim exE conjE)
  have 4: "\<forall>q. a_lookup T1 q = a_lookup T q"
    using R(4) by (simp add: fresh_def split: option.splits)
  show ?thesis by (intro exI conjI) (rule R(1) R(2) R(3) 4)+
qed

lemma operand_after_copy:
  fixes U :: "('c, 'v) atree"
  assumes "tree_ok h u U" and "evolves (h @ [new_node]) (fresh h) h1 T1"
  shows "tree_ok h1 u U" and "set (addrs T1) \<inter> set (addrs U) = {}"
proof -
  have u0: "tree_ok (h @ [new_node]) u U" and nin: "length h \<notin> set (addrs U)"
    using tree_ok_fresh[OF assms(1)] by simp_all
  have dj: "set (addrs U) \<inter> set (addrs (fresh h)) = {}" using nin by (simp add: fresh_def)
  show "tree_ok h1 u U" using tree_ok_frame(1)[OF u0 assms(2) dj] .
  show "set (addrs T1) \<inter> set (addrs U) = {}"
    using tree_ok_frame(2)[OF u0 assms(2) dj] by (simp add: Int_commute)
qed

lemma union_ok:
  fixes T U :: "('c, 'v) atree"
  assumes "tree_ok h t T" and "tree_ok h u U"
  shows "\<exists>h' t' T'. union_trie h t u = Some (h', t')
          \<and> tree_ok h' t' T' \<and> evolves (h @ [new_node]) (fresh h) h' T'
          \<and> t_alphabet t' = t_alphabet t
          \<and> (\<forall>q. a_lookup T' q = (case a_lookup U q of Some v \<Rightarrow> Some v | None \<Rightarrow> a_lookup T q))"
proof -
  define third where "third = \<lparr>t_alphabet = t_alphabet t, t_root = length h, t_count = 0\<rparr>"
  from copy_ok[OF assms(1)]
  obtain h1 n T1 where C: "update_trie (h @ [new_node]) third t = Some (h1, third\<lparr>t_count := n\<rparr>)"
    "tree_ok h1 (third\<lparr>t_count := n\<rparr>) T1" "evolves (h @ [new_node]) (fresh h) h1 T1"
    "\<forall>q. a_lookup T1 q = a_lookup T q"
    unfolding third_def by (elim exE conjE)
  note U1 = operand_after_copy[OF assms(2) C(3)]
  from update_trie_ok[OF C(2) U1]
  obtain h' m T' where R: "update_trie h1 (third\<lparr>t_count := n\<rparr>) u
        = Some (h', third\<lparr>t_count := n, t_count := m\<rparr>)"
    "tree_ok h' (third\<lparr>t_count := n, t_count := m\<rparr>) T'" "evolves h1 T1 h' T'"
    "\<forall>q. a_lookup T' q = (case a_lookup U q of Some v \<Rightarrow> Some v | None \<Rightarrow> a_lookup T1 q)"
    by (elim exE conjE)
  have 1: "union_trie h t u = Some (h', third\<lparr>t_count := n, t_count := m\<rparr>)"
    using C(1) R(1) by (simp add: union_trie_def Trie_def third_def)
  have 3: "evolves (h @ [new_node]) (fresh h) h' T'" using evolves_trans[OF C(3) R(3)] .
  have 4: "t_alphabet (third\<lparr>t_count := n, t_count := m\<rparr>) = t_alphabet t" by (simp add: third_def)
  have 5: "\<forall>q. a_lookup T' q = (case a_lookup U q of Some v \<Rightarrow> Some v | None \<Rightarrow> a_lookup T q)"
    by (auto simp: R(4) C(4) split: option.splits)
  show ?thesis by (intro exI conjI) (rule 1 R(2) 3 4 5)+
qed

lemma difference_ok:
  fixes T U :: "('c, 'v) atree"
  assumes "tree_ok h t T" and "tree_ok h u U"
  shows "\<exists>h' t' T'. difference h t u = Some (None, h', t')
          \<and> tree_ok h' t' T' \<and> evolves (h @ [new_node]) (fresh h) h' T'
          \<and> t_alphabet t' = t_alphabet t
          \<and> (\<forall>q. a_lookup T' q
                = (if set q \<subseteq> set (t_alphabet u) \<and> a_lookup U q \<noteq> None then None
                   else a_lookup T q))"
proof -
  define third where "third = \<lparr>t_alphabet = t_alphabet t, t_root = length h, t_count = 0\<rparr>"
  from copy_ok[OF assms(1)]
  obtain h1 n T1 where C: "update_trie (h @ [new_node]) third t = Some (h1, third\<lparr>t_count := n\<rparr>)"
    "tree_ok h1 (third\<lparr>t_count := n\<rparr>) T1" "evolves (h @ [new_node]) (fresh h) h1 T1"
    "\<forall>q. a_lookup T1 q = a_lookup T q"
    unfolding third_def by (elim exE conjE)
  note U1 = operand_after_copy[OF assms(2) C(3)]
  from difference_update_ok[OF C(2) U1]
  obtain h' m T' where R: "difference_update h1 (third\<lparr>t_count := n\<rparr>) u
        = Some (None, h', third\<lparr>t_count := n, t_count := m\<rparr>)"
    "tree_ok h' (third\<lparr>t_count := n, t_count := m\<rparr>) T'" "evolves h1 T1 h' T'"
    "\<forall>q. a_lookup T' q
        = (if set q \<subseteq> set (t_alphabet u) \<and> a_lookup U q \<noteq> None then None else a_lookup T1 q)"
    by (elim exE conjE)
  have 1: "difference h t u = Some (None, h', third\<lparr>t_count := n, t_count := m\<rparr>)"
    using C(1) R(1) by (simp add: difference_def Trie_def third_def)
  have 3: "evolves (h @ [new_node]) (fresh h) h' T'" using evolves_trans[OF C(3) R(3)] .
  have 4: "t_alphabet (third\<lparr>t_count := n, t_count := m\<rparr>) = t_alphabet t" by (simp add: third_def)
  have 5: "\<forall>q. a_lookup T' q
        = (if set q \<subseteq> set (t_alphabet u) \<and> a_lookup U q \<noteq> None then None else a_lookup T q)"
    by (auto simp: R(4) C(4) split: option.splits)
  show ?thesis by (intro exI conjI) (rule 1 R(2) 3 4 5)+
qed

lemma intersection_ok:
  fixes T U :: "('c, 'v) atree"
  assumes "tree_ok h t T" and "tree_ok h u U"
  shows "\<exists>h' t' T'. intersection h t u = Some (None, h', t')
          \<and> tree_ok h' t' T' \<and> evolves (h @ [new_node]) (fresh h) h' T'
          \<and> t_alphabet t' = t_alphabet t
          \<and> (\<forall>q. a_lookup T' q
                = (if set q \<subseteq> set (t_alphabet t) \<and> a_lookup T q \<noteq> None then a_lookup U q
                   else a_lookup T q))"
proof -
  define third where "third = \<lparr>t_alphabet = t_alphabet t, t_root = length h, t_count = 0\<rparr>"
  from copy_ok[OF assms(1)]
  obtain h1 n T1 where C: "update_trie (h @ [new_node]) third t = Some (h1, third\<lparr>t_count := n\<rparr>)"
    "tree_ok h1 (third\<lparr>t_count := n\<rparr>) T1" "evolves (h @ [new_node]) (fresh h) h1 T1"
    "\<forall>q. a_lookup T1 q = a_lookup T q"
    unfolding third_def by (elim exE conjE)
  note U1 = operand_after_copy[OF assms(2) C(3)]
  from intersection_update_ok[OF C(2) U1]
  obtain h' m T' where R: "intersection_update h1 (third\<lparr>t_count := n\<rparr>) u
        = Some (None, h', third\<lparr>t_count := n, t_count := m\<rparr>)"
    "tree_ok h' (third\<lparr>t_count := n, t_count := m\<rparr>) T'" "evolves h1 T1 h' T'"
    "\<forall>q. a_lookup T' q
        = (if set q \<subseteq> set (t_alphabet (third\<lparr>t_count := n\<rparr>)) \<and> a_lookup T1 q \<noteq> None
           then a_lookup U q else a_lookup T1 q)"
    by (elim exE conjE)
  have 1: "intersection h t u = Some (None, h', third\<lparr>t_count := n, t_count := m\<rparr>)"
    using C(1) R(1) by (simp add: intersection_def Trie_def third_def)
  have 3: "evolves (h @ [new_node]) (fresh h) h' T'" using evolves_trans[OF C(3) R(3)] .
  have 4: "t_alphabet (third\<lparr>t_count := n, t_count := m\<rparr>) = t_alphabet t" by (simp add: third_def)
  have 5: "\<forall>q. a_lookup T' q
        = (if set q \<subseteq> set (t_alphabet t) \<and> a_lookup T q \<noteq> None then a_lookup U q
           else a_lookup T q)"
    by (auto simp: R(4) C(4) third_def)
  show ?thesis by (intro exI conjI) (rule 1 R(2) 3 4 5)+
qed

lemma state_ok_nth: "state_ok h ts Ts \<Longrightarrow> i < length ts \<Longrightarrow> tree_ok h (ts ! i) (Ts ! i)"
  by (simp add: state_ok_def)

lemma state_ok_apart:
  "state_ok h ts Ts \<Longrightarrow> i < length ts \<Longrightarrow> j < length ts \<Longrightarrow> i \<noteq> j
     \<Longrightarrow> set (addrs (Ts ! i)) \<inter> set (addrs (Ts ! j)) = {}"
  by (simp add: state_ok_def)

lemma state_ok_length: "state_ok h ts Ts \<Longrightarrow> length Ts = length ts"
  by (simp add: state_ok_def)

lemma lookup_repr:
  fixes T :: "('c, 'v) atree"
  assumes "tree_ok h t T"
  shows "lookup h t q = a_lookup T q"
proof -
  have r: "repr h T" and a: "a_addr T = t_root t" using assms by (simp_all add: tree_ok_def)
  show ?thesis unfolding lookup_def getitem_repr[OF r a] by (simp split: option.splits)
qed

lemma state_ok_step:
  fixes Ts :: "('c, 'v) atree list"
  assumes S: "state_ok h ts Ts" and i: "i < length ts"
    and ok: "tree_ok h' t' T'" and ev: "evolves h (Ts ! i) h' T'"
  shows "state_ok h' (ts[i := t']) (Ts[i := T'])"
    and "\<forall>k < length ts. k \<noteq> i \<longrightarrow> tree_ok h' (ts ! k) (Ts ! k)"
proof -
  have len: "length Ts = length ts" using S by (rule state_ok_length)
  have others: "tree_ok h' (ts ! k) (Ts ! k) \<and> set (addrs (Ts ! k)) \<inter> set (addrs T') = {}"
    if k: "k < length ts" "k \<noteq> i" for k
    using tree_ok_frame[OF state_ok_nth[OF S k(1)] ev state_ok_apart[OF S k(1) i k(2)]] by simp
  show "\<forall>k < length ts. k \<noteq> i \<longrightarrow> tree_ok h' (ts ! k) (Ts ! k)" using others by simp
  have 1: "tree_ok h' (ts[i := t'] ! k) (Ts[i := T'] ! k)" if "k < length ts" for k
    using that others[of k] ok i len by (cases "k = i") simp_all
  have 2: "set (addrs (Ts[i := T'] ! k)) \<inter> set (addrs (Ts[i := T'] ! l)) = {}"
    if kl: "k < length ts" "l < length ts" "k \<noteq> l" for k l
  proof (cases "k = i")
    case True
    then have "l \<noteq> i" using kl(3) by simp
    then show ?thesis using True others[OF kl(2)] i len by (simp add: Int_commute)
  next
    case False
    show ?thesis
    proof (cases "l = i")
      case True
      then show ?thesis using False others[OF kl(1) False] i len by simp
    next
      case lf: False
      then show ?thesis using False state_ok_apart[OF S kl] by simp
    qed
  qed
  show "state_ok h' (ts[i := t']) (Ts[i := T'])"
    unfolding state_ok_def using len 1 2 by simp
qed

lemma state_ok_new:
  fixes Ts :: "('c, 'v) atree list"
  assumes S: "state_ok h ts Ts"
    and ok: "tree_ok h' t' T'" and ev: "evolves (h @ [new_node]) (fresh h) h' T'"
  shows "state_ok h' (ts @ [t']) (Ts @ [T'])"
    and "\<forall>k < length ts. tree_ok h' (ts ! k) (Ts ! k)"
proof -
  have len: "length Ts = length ts" using S by (rule state_ok_length)
  have others: "tree_ok h' (ts ! k) (Ts ! k) \<and> set (addrs T') \<inter> set (addrs (Ts ! k)) = {}"
    if k: "k < length ts" for k
    using operand_after_copy[OF state_ok_nth[OF S k] ev] by simp
  show "\<forall>k < length ts. tree_ok h' (ts ! k) (Ts ! k)" using others by simp
  have 1: "tree_ok h' ((ts @ [t']) ! k) ((Ts @ [T']) ! k)" if "k < Suc (length ts)" for k
  proof (cases "k < length ts")
    case True
    then show ?thesis using others[of k] len by (simp add: nth_append)
  next
    case False
    then have "k = length ts" using that by simp
    then show ?thesis using ok len by (simp add: nth_append)
  qed
  have 2: "set (addrs ((Ts @ [T']) ! k)) \<inter> set (addrs ((Ts @ [T']) ! l)) = {}"
    if kl: "k < Suc (length ts)" "l < Suc (length ts)" "k \<noteq> l" for k l
  proof (cases "k < length ts")
    case True
    show ?thesis
    proof (cases "l < length ts")
      case lt: True
      then show ?thesis using True state_ok_apart[OF S True lt kl(3)] len by (simp add: nth_append)
    next
      case False
      then have "l = length ts" using kl(2) by simp
      then show ?thesis using True others[OF True] len by (simp add: nth_append Int_commute)
    qed
  next
    case False
    then have k: "k = length ts" using kl(1) by simp
    then have l: "l < length ts" using kl(2,3) by simp
    show ?thesis using k l others[OF l] len by (simp add: nth_append)
  qed
  show "state_ok h' (ts @ [t']) (Ts @ [T'])"
    unfolding state_ok_def using len 1 2 by simp
qed

lemma state_ok_init: "state_ok [] [] []"
  by (simp add: state_ok_def)

lemma update_state:
  fixes Ts :: "('c, 'v) atree list"
  assumes S: "state_ok h ts Ts" and i: "i < length ts" and j: "j < length ts"
  shows "\<exists>h' n T'. update_trie h (ts ! i) (ts ! j) = Some (h', (ts ! i)\<lparr>t_count := n\<rparr>)
          \<and> tree_ok h' ((ts ! i)\<lparr>t_count := n\<rparr>) T' \<and> evolves h (Ts ! i) h' T'
          \<and> (\<forall>q. a_lookup T' q
                = (case a_lookup (Ts ! j) q of Some v \<Rightarrow> Some v | None \<Rightarrow> a_lookup (Ts ! i) q))"
proof (cases "i = j")
  case True
  have ok: "tree_ok h (ts ! i) (Ts ! i)" using state_ok_nth[OF S i] .
  have 1: "update_trie h (ts ! i) (ts ! j) = Some (h, (ts ! i)\<lparr>t_count := t_count (ts ! i)\<rparr>)"
    using update_trie_alias[OF ok, of "ts ! j"] True by simp
  have 2: "tree_ok h ((ts ! i)\<lparr>t_count := t_count (ts ! i)\<rparr>) (Ts ! i)" using ok by simp
  have 4: "\<forall>q. a_lookup (Ts ! i) q
                = (case a_lookup (Ts ! j) q of Some v \<Rightarrow> Some v | None \<Rightarrow> a_lookup (Ts ! i) q)"
    using True by (simp split: option.splits)
  show ?thesis by (intro exI conjI) (rule 1 2 evolves_refl 4)+
next
  case False
  show ?thesis
    by (rule update_trie_ok[OF state_ok_nth[OF S i] state_ok_nth[OF S j] state_ok_apart[OF S i j False]])
qed

lemma difference_update_state:
  fixes Ts :: "('c, 'v) atree list"
  assumes S: "state_ok h ts Ts" and i: "i < length ts" and j: "j < length ts"
  shows "\<exists>h' n T'. difference_update h (ts ! i) (ts ! j) = Some (None, h', (ts ! i)\<lparr>t_count := n\<rparr>)
          \<and> tree_ok h' ((ts ! i)\<lparr>t_count := n\<rparr>) T' \<and> evolves h (Ts ! i) h' T'
          \<and> (\<forall>q. a_lookup T' q
                = (if set q \<subseteq> set (t_alphabet (ts ! j)) \<and> a_lookup (Ts ! j) q \<noteq> None then None
                   else a_lookup (Ts ! i) q))"
proof (cases "i = j")
  case True
  have eq: "ts ! j = ts ! i" "Ts ! j = Ts ! i" using True by simp_all
  show ?thesis unfolding eq
    by (rule difference_update_self[OF state_ok_nth[OF S i] refl])
next
  case False
  show ?thesis
    by (rule difference_update_ok[OF state_ok_nth[OF S i] state_ok_nth[OF S j]
          state_ok_apart[OF S i j False]])
qed

lemma intersection_update_state:
  fixes Ts :: "('c, 'v) atree list"
  assumes S: "state_ok h ts Ts" and i: "i < length ts" and j: "j < length ts"
  shows "\<exists>h' n T'. intersection_update h (ts ! i) (ts ! j)
              = Some (None, h', (ts ! i)\<lparr>t_count := n\<rparr>)
          \<and> tree_ok h' ((ts ! i)\<lparr>t_count := n\<rparr>) T' \<and> evolves h (Ts ! i) h' T'
          \<and> (\<forall>q. a_lookup T' q
                = (if set q \<subseteq> set (t_alphabet (ts ! i)) \<and> a_lookup (Ts ! i) q \<noteq> None
                   then a_lookup (Ts ! j) q else a_lookup (Ts ! i) q))"
proof (cases "i = j")
  case True
  have eq: "ts ! j = ts ! i" "Ts ! j = Ts ! i" using True by simp_all
  show ?thesis unfolding eq
    by (rule intersection_update_self[OF state_ok_nth[OF S i] refl])
next
  case False
  show ?thesis
    by (rule intersection_update_ok[OF state_ok_nth[OF S i] state_ok_nth[OF S j]
          state_ok_apart[OF S i j False]])
qed

lemma remove_state:
  fixes Ts :: "('c, 'v) atree list"
  assumes S: "state_ok h ts Ts" and i: "i < length ts"
  shows "\<exists>e h' t' T'. remove_trie h (ts ! i) key = (e, h', t')
          \<and> tree_ok h' t' T' \<and> evolves h (Ts ! i) h' T'"
proof (cases "a_lookup (Ts ! i) key = None")
  case True
  have ok: "tree_ok h (ts ! i) (Ts ! i)" using state_ok_nth[OF S i] .
  then have r: "repr h (Ts ! i)" and a: "a_addr (Ts ! i) = t_root (ts ! i)"
    by (simp_all add: tree_ok_def)
  have 1: "remove_trie h (ts ! i) key = (Some KeyError, h, ts ! i)"
    using remove_trie_absent[OF r a True] .
  show ?thesis by (intro exI conjI) (rule 1 ok evolves_refl)+
next
  case False
  from remove_trie_ok[OF state_ok_nth[OF S i] False]
  obtain h' where R: "remove_trie h (ts ! i) key = (None, h', (ts ! i)\<lparr>t_count := t_count (ts ! i) - 1\<rparr>)"
    "tree_ok h' ((ts ! i)\<lparr>t_count := t_count (ts ! i) - 1\<rparr>) (a_remove (Ts ! i) key)"
    "evolves h (Ts ! i) h' (a_remove (Ts ! i) key)"
    by (elim exE conjE)
  show ?thesis by (intro exI conjI) (rule R)+
qed

lemma exec_state_ok:
  fixes Ts :: "('c, 'v) atree list"
  assumes S: "state_ok h ts Ts" and c: "call_ok c (length ts)"
  shows "\<exists>h' ts' Ts'. exec c (h, ts) = Some (h', ts') \<and> state_ok h' ts' Ts'"
proof (cases c)
  case (Call_new alphabet)
  have "state_ok (h @ [new_node]) (ts @ [\<lparr>t_alphabet = alphabet, t_root = length h, t_count = 0\<rparr>])
      (Ts @ [fresh h])"
    by (rule state_ok_new(1)[OF S]) (simp_all add: fresh_def tree_ok_empty evolves_refl)
  then show ?thesis using Call_new by (auto simp: Trie_def)
next
  case (Call_insert i key v)
  then have i: "i < length ts" using c by simp
  from insert_trie_ok[OF state_ok_nth[OF S i], of key v]
  obtain h' t' T' where R: "insert_trie h (ts ! i) key v = (h', t')" "tree_ok h' t' T'"
    "evolves h (Ts ! i) h' T'"
    by blast
  have "state_ok h' (ts[i := t']) (Ts[i := T'])" using state_ok_step(1)[OF S i R(2,3)] .
  then show ?thesis using Call_insert i R(1) by auto
next
  case (Call_remove i key)
  then have i: "i < length ts" using c by simp
  from remove_state[OF S i, of key]
  obtain e h' t' T' where R: "remove_trie h (ts ! i) key = (e, h', t')" "tree_ok h' t' T'"
    "evolves h (Ts ! i) h' T'"
    by blast
  have "state_ok h' (ts[i := t']) (Ts[i := T'])" using state_ok_step(1)[OF S i R(2,3)] .
  then show ?thesis using Call_remove i R(1) by auto
next
  case (Call_update i j)
  then have i: "i < length ts" and j: "j < length ts" using c by simp_all
  from update_state[OF S i j]
  obtain h' n T' where R: "update_trie h (ts ! i) (ts ! j) = Some (h', (ts ! i)\<lparr>t_count := n\<rparr>)"
    "tree_ok h' ((ts ! i)\<lparr>t_count := n\<rparr>) T'" "evolves h (Ts ! i) h' T'"
    by blast
  have "state_ok h' (ts[i := (ts ! i)\<lparr>t_count := n\<rparr>]) (Ts[i := T'])"
    using state_ok_step(1)[OF S i R(2,3)] .
  then show ?thesis using Call_update i j R(1) by auto
next
  case (Call_difference_update i j)
  then have i: "i < length ts" and j: "j < length ts" using c by simp_all
  from difference_update_state[OF S i j]
  obtain h' n T' where R:
    "difference_update h (ts ! i) (ts ! j) = Some (None, h', (ts ! i)\<lparr>t_count := n\<rparr>)"
    "tree_ok h' ((ts ! i)\<lparr>t_count := n\<rparr>) T'" "evolves h (Ts ! i) h' T'"
    by blast
  have "state_ok h' (ts[i := (ts ! i)\<lparr>t_count := n\<rparr>]) (Ts[i := T'])"
    using state_ok_step(1)[OF S i R(2,3)] .
  then show ?thesis using Call_difference_update i j R(1) by auto
next
  case (Call_intersection_update i j)
  then have i: "i < length ts" and j: "j < length ts" using c by simp_all
  from intersection_update_state[OF S i j]
  obtain h' n T' where R:
    "intersection_update h (ts ! i) (ts ! j) = Some (None, h', (ts ! i)\<lparr>t_count := n\<rparr>)"
    "tree_ok h' ((ts ! i)\<lparr>t_count := n\<rparr>) T'" "evolves h (Ts ! i) h' T'"
    by blast
  have "state_ok h' (ts[i := (ts ! i)\<lparr>t_count := n\<rparr>]) (Ts[i := T'])"
    using state_ok_step(1)[OF S i R(2,3)] .
  then show ?thesis using Call_intersection_update i j R(1) by auto
next
  case (Call_union i j)
  then have i: "i < length ts" and j: "j < length ts" using c by simp_all
  from union_ok[OF state_ok_nth[OF S i] state_ok_nth[OF S j]]
  obtain h' t' T' where R: "union_trie h (ts ! i) (ts ! j) = Some (h', t')" "tree_ok h' t' T'"
    "evolves (h @ [new_node]) (fresh h) h' T'"
    by blast
  have "state_ok h' (ts @ [t']) (Ts @ [T'])" using state_ok_new(1)[OF S R(2,3)] .
  then show ?thesis using Call_union i j R(1) by auto
next
  case (Call_difference i j)
  then have i: "i < length ts" and j: "j < length ts" using c by simp_all
  from difference_ok[OF state_ok_nth[OF S i] state_ok_nth[OF S j]]
  obtain h' t' T' where R: "difference h (ts ! i) (ts ! j) = Some (None, h', t')" "tree_ok h' t' T'"
    "evolves (h @ [new_node]) (fresh h) h' T'"
    by blast
  have "state_ok h' (ts @ [t']) (Ts @ [T'])" using state_ok_new(1)[OF S R(2,3)] .
  then show ?thesis using Call_difference i j R(1) by auto
next
  case (Call_intersection i j)
  then have i: "i < length ts" and j: "j < length ts" using c by simp_all
  from intersection_ok[OF state_ok_nth[OF S i] state_ok_nth[OF S j]]
  obtain h' t' T' where R: "intersection h (ts ! i) (ts ! j) = Some (None, h', t')" "tree_ok h' t' T'"
    "evolves (h @ [new_node]) (fresh h) h' T'"
    by blast
  have "state_ok h' (ts @ [t']) (Ts @ [T'])" using state_ok_new(1)[OF S R(2,3)] .
  then show ?thesis using Call_intersection i j R(1) by auto
qed

lemma exec_Some_call_ok: "exec c (h, ts) = Some s' \<Longrightarrow> call_ok c (length ts)"
  by (cases c) (auto split: if_splits)

lemma run_state_ok:
  fixes Ts :: "('c, 'v) atree list"
  assumes "run cs (h, ts) = Some (h', ts')" and "state_ok h ts Ts"
  shows "\<exists>Ts'. state_ok h' ts' Ts'"
  using assms
proof (induction cs arbitrary: h ts Ts)
  case Nil
  then show ?case by auto
next
  case (Cons c cs)
  from Cons.prems(1) obtain s1 where s1: "exec c (h, ts) = Some s1" "run cs s1 = Some (h', ts')"
    by (auto split: option.splits)
  have "call_ok c (length ts)" using exec_Some_call_ok[OF s1(1)] .
  from exec_state_ok[OF Cons.prems(2) this]
  obtain h1 ts1 Ts1 where E: "exec c (h, ts) = Some (h1, ts1)" "state_ok h1 ts1 Ts1" by blast
  have "s1 = (h1, ts1)" using s1(1) E(1) by simp
  then show ?case using Cons.IH[OF _ E(2)] s1(2) by simp
qed

lemma reachable_state_ok:
  fixes h :: "('c, 'v) heap"
  assumes "run cs ([], []) = Some (h, ts)"
  shows "\<exists>Ts :: ('c, 'v) atree list. state_ok h ts Ts"
  using run_state_ok[OF assms state_ok_init] .

lemma tree_ok_contains:
  fixes T :: "('c, 'v) atree"
  assumes "tree_ok h t T"
  shows "contains h t q \<longleftrightarrow> a_lookup T q \<noteq> None"
  using assms contains_repr[of h T t q] by (simp add: tree_ok_def)

lemma tree_ok_getitem:
  fixes T :: "('c, 'v) atree"
  assumes "tree_ok h t T"
  shows "getitem h t q = (case a_lookup T q of None \<Rightarrow> Inl KeyError | Some v \<Rightarrow> Inr v)"
  using assms getitem_repr[of h T t q] by (simp add: tree_ok_def)

lemma tree_ok_get:
  fixes T :: "('c, 'v) atree"
  assumes "tree_ok h t T"
  shows "get h t q d = (case a_lookup T q of None \<Rightarrow> d | Some v \<Rightarrow> v)"
  using assms get_repr[of h T t q d] by (simp add: tree_ok_def)

lemma tree_ok_count:
  fixes T :: "('c, 'v) atree"
  assumes "tree_ok h t T"
  shows "count h t = Some (len t)"
  using assms count_repr[of h T t] by (simp add: tree_ok_def len_def)

lemma tree_ok_pruned_node:
  fixes T :: "('c, 'v) atree"
  assumes "tree_ok h t T" and "key \<noteq> []" and "get_node h t key = Some n"
  shows "nvalue (h ! n) \<noteq> Sentinel \<or> children (h ! n) \<noteq> []"
proof -
  have r: "repr h T" and a: "a_addr T = t_root t" and p: "pruned T"
    using assms(1) by (simp_all add: tree_ok_def)
  from assms(3) obtain X where X: "a_sub T key = Some X" "a_addr X = n"
    using get_node_repr[OF r a, of key] by auto
  have rX: "repr h X" using a_sub_repr[OF X(1) r] .
  have "alive X" using pruned_sub[OF p X(1) assms(2)] .
  then show ?thesis using repr_nvalue[OF rX] repr_children[OF rX] X(2) by (auto simp: alive_def)
qed

text \<open>
  Claim C1 (count invariant).  Take any sequence of calls of the constructor, \<open>insert\<close>,
  \<open>remove\<close>, \<open>update\<close>, \<open>difference_update\<close>, \<open>intersection_update\<close>,
  \<open>union\<close>, \<open>difference\<close> and \<open>intersection\<close>, started with no tree at all, the
  operands being any trees made so far, a tree itself included.  In the state \<open>(h, ts)\<close> it
  ends in, for every tree the full traversal of \<open>Trie.count\<close> returns, and what it returns
  is the cached count \<open>len\<close>.  Every further call whose operands exist returns as well, so
  that the invariant holds after each operation of every sequence.
\<close>

theorem len_equals_count:
  fixes h :: "('c, 'v) heap"
  assumes "run calls ([], []) = Some (h, ts)" and "i < length ts"
  shows "count h (ts ! i) = Some (len (ts ! i))
       \<and> (\<forall>c :: ('c, 'v) call. call_ok c (length ts) \<longrightarrow> (\<exists>s'. exec c (h, ts) = Some s'))"
proof -
  from reachable_state_ok[OF assms(1)] obtain Ts :: "('c, 'v) atree list"
    where S: "state_ok h ts Ts" by blast
  have "count h (ts ! i) = Some (len (ts ! i))"
    using tree_ok_count[OF state_ok_nth[OF S assms(2)]] .
  moreover have "\<exists>s'. exec c (h, ts) = Some s'" if "call_ok c (length ts)" for c :: "('c, 'v) call"
    using exec_state_ok[OF S that] by blast
  ultimately show ?thesis by blast
qed

text \<open>
  The theorem at the sequence \<open>Trie("ab")\<close>, \<open>insert "a" 5\<close>, \<open>insert "aa" 6\<close>,
  \<open>remove "a"\<close>: one key is left, and the traversal counts one occupied node.
\<close>

theorem len_equals_count_witness:
  "run [Call_new ''ab'', Call_insert 0 ''a'' (5::int), Call_insert 0 ''aa'' 6, Call_remove 0 ''a'']
       ([], [])
     = Some ([\<lparr>children = [(CHR ''a'', 1)], nvalue = Sentinel\<rparr>,
              \<lparr>children = [(CHR ''a'', 2)], nvalue = Sentinel\<rparr>,
              \<lparr>children = [], nvalue = Stored 6\<rparr>],
             [\<lparr>t_alphabet = ''ab'', t_root = 0, t_count = 1\<rparr>])
   \<and> count [\<lparr>children = [(CHR ''a'', 1)], nvalue = Sentinel\<rparr>,
            \<lparr>children = [(CHR ''a'', 2)], nvalue = Sentinel\<rparr>,
            \<lparr>children = [], nvalue = Stored (6::int)\<rparr>]
        \<lparr>t_alphabet = ''ab'', t_root = 0, t_count = 1\<rparr> = Some 1"
proof -
  have r: "run [Call_new ''ab'', Call_insert 0 ''a'' (5::int), Call_insert 0 ''aa'' 6, Call_remove 0 ''a'']
       ([], [])
     = Some ([\<lparr>children = [(CHR ''a'', 1)], nvalue = Sentinel\<rparr>,
              \<lparr>children = [(CHR ''a'', 2)], nvalue = Sentinel\<rparr>,
              \<lparr>children = [], nvalue = Stored 6\<rparr>],
             [\<lparr>t_alphabet = ''ab'', t_root = 0, t_count = 1\<rparr>])"
    by code_simp
  show ?thesis using len_equals_count[OF r, of 0] r by (simp add: len_def)
qed

text \<open>
  Claim C9 (pruning invariant I1).  In every state reached by a sequence of calls, hence at the
  end of every mutating operation and in particular after every \<open>remove\<close>, a node reached
  from the root of a tree along a non-empty key is not \<^emph>\<open>prunable\<close>: it is occupied or it has
  at least one child.
\<close>

theorem pruning_invariant:
  fixes h :: "('c, 'v) heap"
  assumes "run calls ([], []) = Some (h, ts)" and "i < length ts"
    and "key \<noteq> []" and "get_node h (ts ! i) key = Some n"
  shows "\<not> prunable h n"
proof -
  from reachable_state_ok[OF assms(1)] obtain Ts :: "('c, 'v) atree list"
    where S: "state_ok h ts Ts" by blast
  show ?thesis
    using tree_ok_pruned_node[OF state_ok_nth[OF S assms(2)] assms(3,4)]
    by (auto simp: prunable_def)
qed

text \<open>
  The theorem after \<open>insert "ab"\<close>, \<open>insert "aab"\<close>, \<open>remove "aab"\<close>: the removal cuts the
  branch \<open>a\<close>--\<open>b\<close> below the node of \<open>"a"\<close>, which keeps its child \<open>b\<close>; the nodes 3 and 4 of
  the branch stay in the store, unreachable.
\<close>

theorem pruning_invariant_witness:
  "run [Call_new ''ab'', Call_insert 0 ''ab'' (1::int), Call_insert 0 ''aab'' 2, Call_remove 0 ''aab'']
       ([], [])
     = Some ([\<lparr>children = [(CHR ''a'', 1)], nvalue = Sentinel\<rparr>,
              \<lparr>children = [(CHR ''b'', 2)], nvalue = Sentinel\<rparr>,
              \<lparr>children = [], nvalue = Stored 1\<rparr>,
              \<lparr>children = [(CHR ''b'', 4)], nvalue = Sentinel\<rparr>,
              \<lparr>children = [], nvalue = Sentinel\<rparr>],
             [\<lparr>t_alphabet = ''ab'', t_root = 0, t_count = 1\<rparr>])
   \<and> get_node [\<lparr>children = [(CHR ''a'', 1)], nvalue = Sentinel\<rparr>,
              \<lparr>children = [(CHR ''b'', 2)], nvalue = Sentinel\<rparr>,
              \<lparr>children = [], nvalue = Stored (1::int)\<rparr>,
              \<lparr>children = [(CHR ''b'', 4)], nvalue = Sentinel\<rparr>,
              \<lparr>children = [], nvalue = Sentinel\<rparr>]
        \<lparr>t_alphabet = ''ab'', t_root = 0, t_count = 1\<rparr> ''a'' = Some 1
   \<and> \<not> prunable [\<lparr>children = [(CHR ''a'', 1)], nvalue = Sentinel\<rparr>,
              \<lparr>children = [(CHR ''b'', 2)], nvalue = Sentinel\<rparr>,
              \<lparr>children = [], nvalue = Stored (1::int)\<rparr>,
              \<lparr>children = [(CHR ''b'', 4)], nvalue = Sentinel\<rparr>,
              \<lparr>children = [], nvalue = Sentinel\<rparr>] 1"
proof -
  have r: "run [Call_new ''ab'', Call_insert 0 ''ab'' (1::int), Call_insert 0 ''aab'' 2, Call_remove 0 ''aab'']
       ([], [])
     = Some ([\<lparr>children = [(CHR ''a'', 1)], nvalue = Sentinel\<rparr>,
              \<lparr>children = [(CHR ''b'', 2)], nvalue = Sentinel\<rparr>,
              \<lparr>children = [], nvalue = Stored 1\<rparr>,
              \<lparr>children = [(CHR ''b'', 4)], nvalue = Sentinel\<rparr>,
              \<lparr>children = [], nvalue = Sentinel\<rparr>],
             [\<lparr>t_alphabet = ''ab'', t_root = 0, t_count = 1\<rparr>])"
    by code_simp
  show ?thesis using pruning_invariant[OF r, of 0 "''a''" 1] r by (simp add: get_node_def)
qed

text \<open>
  Claim C3 (KeyError exactly on absent keys, and no change then).  For a tree of a reached state
  and any key, \<open>remove\<close> raises \<open>KeyError\<close> if and only if the key is absent, and so does
  \<open>__getitem__\<close>; absent means that the path of the key is missing or that its last node is
  not occupied.  A failing \<open>remove\<close> returns the store and the tree it was given: the count,
  the keys, the values and all nodes are the same as before.  (\<open>getitem\<close> has no effect at
  all: it returns a value only.)
\<close>

theorem key_error_iff_absent:
  fixes h :: "('c, 'v) heap"
  assumes "run calls ([], []) = Some (h, ts)" and "i < length ts"
  shows "(fst (remove_trie h (ts ! i) key) = Some KeyError \<longleftrightarrow> \<not> contains h (ts ! i) key)
       \<and> (getitem h (ts ! i) key = Inl KeyError \<longleftrightarrow> \<not> contains h (ts ! i) key)
       \<and> (\<not> contains h (ts ! i) key \<longleftrightarrow>
            get_node h (ts ! i) key = None
            \<or> (\<exists>n. get_node h (ts ! i) key = Some n \<and> nvalue (h ! n) = Sentinel))
       \<and> (\<not> contains h (ts ! i) key \<longrightarrow> remove_trie h (ts ! i) key = (Some KeyError, h, ts ! i))"
proof -
  from reachable_state_ok[OF assms(1)] obtain Ts :: "('c, 'v) atree list"
    where S: "state_ok h ts Ts" by blast
  define t where "t = ts ! i"
  define T where "T = Ts ! i"
  have ok: "tree_ok h t T" unfolding t_def T_def using state_ok_nth[OF S assms(2)] .
  have r: "repr h T" and a: "a_addr T = t_root t" using ok by (simp_all add: tree_ok_def)
  have c: "contains h t key \<longleftrightarrow> a_lookup T key \<noteq> None" using tree_ok_contains[OF ok] .
  have absent: "remove_trie h t key = (Some KeyError, h, t)" if "\<not> contains h t key"
    using remove_trie_absent[OF r a] that c by simp
  have present: "fst (remove_trie h t key) = None" if "contains h t key"
  proof -
    from that have "a_lookup T key \<noteq> None" using c by simp
    from remove_trie_ok[OF ok this] show ?thesis by auto
  qed
  have 1: "fst (remove_trie h t key) = Some KeyError \<longleftrightarrow> \<not> contains h t key"
    using absent present by (cases "contains h t key") simp_all
  have 2: "getitem h t key = Inl KeyError \<longleftrightarrow> \<not> contains h t key"
    unfolding c tree_ok_getitem[OF ok] by (simp split: option.splits)
  have 3: "\<not> contains h t key \<longleftrightarrow>
            get_node h t key = None \<or> (\<exists>n. get_node h t key = Some n \<and> nvalue (h ! n) = Sentinel)"
    by (auto simp: contains_def split: option.splits)
  show ?thesis using 1 2 3 absent unfolding t_def by blast
qed

text \<open>
  The theorem for the key \<open>"a"\<close> in a tree that holds \<open>"ab"\<close> only: the path exists, its last
  node is not occupied.
\<close>

theorem key_error_iff_absent_witness:
  "run [Call_new ''ab'', Call_insert 0 ''ab'' (1::int)] ([], [])
     = Some ([\<lparr>children = [(CHR ''a'', 1)], nvalue = Sentinel\<rparr>,
              \<lparr>children = [(CHR ''b'', 2)], nvalue = Sentinel\<rparr>,
              \<lparr>children = [], nvalue = Stored 1\<rparr>],
             [\<lparr>t_alphabet = ''ab'', t_root = 0, t_count = 1\<rparr>])
   \<and> \<not> contains [\<lparr>children = [(CHR ''a'', 1)], nvalue = Sentinel\<rparr>,
              \<lparr>children = [(CHR ''b'', 2)], nvalue = Sentinel\<rparr>,
              \<lparr>children = [], nvalue = Stored (1::int)\<rparr>]
         \<lparr>t_alphabet = ''ab'', t_root = 0, t_count = 1\<rparr> ''a''
   \<and> getitem [\<lparr>children = [(CHR ''a'', 1)], nvalue = Sentinel\<rparr>,
              \<lparr>children = [(CHR ''b'', 2)], nvalue = Sentinel\<rparr>,
              \<lparr>children = [], nvalue = Stored (1::int)\<rparr>]
         \<lparr>t_alphabet = ''ab'', t_root = 0, t_count = 1\<rparr> ''a'' = Inl KeyError
   \<and> remove_trie [\<lparr>children = [(CHR ''a'', 1)], nvalue = Sentinel\<rparr>,
              \<lparr>children = [(CHR ''b'', 2)], nvalue = Sentinel\<rparr>,
              \<lparr>children = [], nvalue = Stored (1::int)\<rparr>]
         \<lparr>t_alphabet = ''ab'', t_root = 0, t_count = 1\<rparr> ''a''
       = (Some KeyError,
          [\<lparr>children = [(CHR ''a'', 1)], nvalue = Sentinel\<rparr>,
           \<lparr>children = [(CHR ''b'', 2)], nvalue = Sentinel\<rparr>,
           \<lparr>children = [], nvalue = Stored 1\<rparr>],
          \<lparr>t_alphabet = ''ab'', t_root = 0, t_count = 1\<rparr>)"
proof -
  have r: "run [Call_new ''ab'', Call_insert 0 ''ab'' (1::int)] ([], [])
     = Some ([\<lparr>children = [(CHR ''a'', 1)], nvalue = Sentinel\<rparr>,
              \<lparr>children = [(CHR ''b'', 2)], nvalue = Sentinel\<rparr>,
              \<lparr>children = [], nvalue = Stored 1\<rparr>],
             [\<lparr>t_alphabet = ''ab'', t_root = 0, t_count = 1\<rparr>])"
    by code_simp
  have c: "\<not> contains [\<lparr>children = [(CHR ''a'', 1)], nvalue = Sentinel\<rparr>,
              \<lparr>children = [(CHR ''b'', 2)], nvalue = Sentinel\<rparr>,
              \<lparr>children = [], nvalue = Stored (1::int)\<rparr>]
         \<lparr>t_alphabet = ''ab'', t_root = 0, t_count = 1\<rparr> ''a''"
    by code_simp
  show ?thesis using key_error_iff_absent[OF r, of 0 "''a''"] r c by simp
qed

text \<open>
  Claim C8 (insert round trip).  In a tree of a reached state, right after \<open>insert key v\<close> the
  key is contained and \<open>get\<close> and \<open>__getitem__\<close> return \<open>v\<close>; the count has grown by one
  exactly when the key was not contained before.  A second \<open>insert\<close> of the same key, with any
  value \<open>w\<close>, overwrites the value and leaves \<open>len\<close> as it was after the first.
\<close>

theorem insert_roundtrip:
  fixes h :: "('c, 'v) heap"
  assumes "run calls ([], []) = Some (h, ts)" and "i < length ts"
    and "insert_trie h (ts ! i) key v = (h1, t1)" and "insert_trie h1 t1 key w = (h2, t2)"
  shows "get h1 t1 key dflt = v \<and> contains h1 t1 key \<and> getitem h1 t1 key = Inr v
       \<and> len t1 = len (ts ! i) + (if contains h (ts ! i) key then 0 else 1)
       \<and> get h2 t2 key dflt = w \<and> contains h2 t2 key \<and> len t2 = len t1"
proof -
  from reachable_state_ok[OF assms(1)] obtain Ts :: "('c, 'v) atree list"
    where S: "state_ok h ts Ts" by blast
  define t where "t = ts ! i"
  define T where "T = Ts ! i"
  have ok: "tree_ok h t T" unfolding t_def T_def using state_ok_nth[OF S assms(2)] .
  from insert_trie_ok[OF ok, of key v] assms(3)
  obtain T1 where I1: "tree_ok h1 t1 T1" "T1 = a_insert (length h) key v T"
    "t1 = t\<lparr>t_count := t_count t + (if a_lookup T key = None then 1 else 0)\<rparr>"
    unfolding t_def by auto
  have l1: "a_lookup T1 key = Some v" unfolding I1(2) by (simp add: a_lookup_a_insert)
  from insert_trie_ok[OF I1(1), of key w] assms(4)
  obtain T2 where I2: "tree_ok h2 t2 T2" "T2 = a_insert (length h1) key w T1"
    "t2 = t1\<lparr>t_count := t_count t1 + (if a_lookup T1 key = None then 1 else 0)\<rparr>"
    by auto
  have l2: "a_lookup T2 key = Some w" unfolding I2(2) by (simp add: a_lookup_a_insert)
  have "get h1 t1 key dflt = v" using tree_ok_get[OF I1(1)] l1 by simp
  moreover have "contains h1 t1 key" using tree_ok_contains[OF I1(1)] l1 by simp
  moreover have "getitem h1 t1 key = Inr v" using tree_ok_getitem[OF I1(1)] l1 by simp
  moreover have "len t1 = len (ts ! i) + (if contains h (ts ! i) key then 0 else 1)"
    using I1(3) tree_ok_contains[OF ok, of key] by (simp add: len_def t_def)
  moreover have "get h2 t2 key dflt = w" using tree_ok_get[OF I2(1)] l2 by simp
  moreover have "contains h2 t2 key" using tree_ok_contains[OF I2(1)] l2 by simp
  moreover have "len t2 = len t1" using I2(3) l1 by (simp add: len_def)
  ultimately show ?thesis by blast
qed

text \<open>
  The theorem for \<open>insert "a" 5\<close> and then \<open>insert "a" 7\<close> into the empty tree.
\<close>

theorem insert_roundtrip_witness:
  "run [Call_new ''ab''] ([], [])
     = Some ([\<lparr>children = [], nvalue = Sentinel\<rparr>] :: (char, int) heap,
             [\<lparr>t_alphabet = ''ab'', t_root = 0, t_count = 0\<rparr>])
   \<and> insert_trie [\<lparr>children = [], nvalue = Sentinel\<rparr>]
        \<lparr>t_alphabet = ''ab'', t_root = 0, t_count = 0\<rparr> ''a'' (5::int)
       = ([\<lparr>children = [(CHR ''a'', 1)], nvalue = Sentinel\<rparr>, \<lparr>children = [], nvalue = Stored 5\<rparr>],
          \<lparr>t_alphabet = ''ab'', t_root = 0, t_count = 1\<rparr>)
   \<and> insert_trie [\<lparr>children = [(CHR ''a'', 1)], nvalue = Sentinel\<rparr>, \<lparr>children = [], nvalue = Stored 5\<rparr>]
        \<lparr>t_alphabet = ''ab'', t_root = 0, t_count = 1\<rparr> ''a'' (7::int)
       = ([\<lparr>children = [(CHR ''a'', 1)], nvalue = Sentinel\<rparr>, \<lparr>children = [], nvalue = Stored 7\<rparr>],
          \<lparr>t_alphabet = ''ab'', t_root = 0, t_count = 1\<rparr>)
   \<and> get [\<lparr>children = [(CHR ''a'', 1)], nvalue = Sentinel\<rparr>, \<lparr>children = [], nvalue = Stored 5\<rparr>]
        \<lparr>t_alphabet = ''ab'', t_root = 0, t_count = 1\<rparr> ''a'' (0::int) = 5
   \<and> get [\<lparr>children = [(CHR ''a'', 1)], nvalue = Sentinel\<rparr>, \<lparr>children = [], nvalue = Stored 7\<rparr>]
        \<lparr>t_alphabet = ''ab'', t_root = 0, t_count = 1\<rparr> ''a'' (0::int) = 7
   \<and> len \<lparr>t_alphabet = ''ab'', t_root = 0, t_count = 1\<rparr> = 1"
proof -
  have r: "run [Call_new ''ab''] ([], [])
     = Some ([\<lparr>children = [], nvalue = Sentinel\<rparr>] :: (char, int) heap,
             [\<lparr>t_alphabet = ''ab'', t_root = 0, t_count = 0\<rparr>])"
    by code_simp
  have i1: "insert_trie [\<lparr>children = [], nvalue = Sentinel\<rparr>]
        \<lparr>t_alphabet = ''ab'', t_root = 0, t_count = 0\<rparr> ''a'' (5::int)
       = ([\<lparr>children = [(CHR ''a'', 1)], nvalue = Sentinel\<rparr>, \<lparr>children = [], nvalue = Stored 5\<rparr>],
          \<lparr>t_alphabet = ''ab'', t_root = 0, t_count = 1\<rparr>)"
    by code_simp
  have i2: "insert_trie [\<lparr>children = [(CHR ''a'', 1)], nvalue = Sentinel\<rparr>, \<lparr>children = [], nvalue = Stored 5\<rparr>]
        \<lparr>t_alphabet = ''ab'', t_root = 0, t_count = 1\<rparr> ''a'' (7::int)
       = ([\<lparr>children = [(CHR ''a'', 1)], nvalue = Sentinel\<rparr>, \<lparr>children = [], nvalue = Stored 7\<rparr>],
          \<lparr>t_alphabet = ''ab'', t_root = 0, t_count = 1\<rparr>)"
    by code_simp
  show ?thesis
    using insert_roundtrip[OF r, of 0 "''a''" 5 _ _ 7 _ _ 0] r i1 i2 by (simp add: len_def)
qed

text \<open>
  Claim C10 (\<open>None\<close> is a value).  A node is unoccupied when its value is the tree's own
  sentinel, which is no value of Python: \<^const>\<open>Sentinel\<close> differs from \<open>Stored v\<close> for every
  \<open>v\<close>, and from \<open>Stored PyNone\<close> too.  So after \<open>insert key None\<close> into a tree of a reached
  state the key is contained, \<open>__getitem__\<close> returns \<open>None\<close> and raises nothing, \<open>get\<close> returns
  \<open>None\<close> and not the default, and the key is counted: \<open>len\<close> has grown by one if the key was
  not contained before, and is what the traversal of \<open>count\<close> returns.
\<close>

theorem none_is_a_value:
  fixes h :: "('c, 'a pyobject) heap"
  assumes "run calls ([], []) = Some (h, ts)" and "i < length ts"
    and "insert_trie h (ts ! i) key PyNone = (h1, t1)"
  shows "contains h1 t1 key \<and> getitem h1 t1 key = Inr PyNone \<and> get h1 t1 key dflt = PyNone
       \<and> len t1 = len (ts ! i) + (if contains h (ts ! i) key then 0 else 1)
       \<and> count h1 t1 = Some (len t1)"
proof -
  from reachable_state_ok[OF assms(1)] obtain Ts :: "('c, 'a pyobject) atree list"
    where S: "state_ok h ts Ts" by blast
  define t where "t = ts ! i"
  define T where "T = Ts ! i"
  have ok: "tree_ok h t T" unfolding t_def T_def using state_ok_nth[OF S assms(2)] .
  from insert_trie_ok[OF ok, of key PyNone] assms(3)
  obtain T1 where I1: "tree_ok h1 t1 T1" "T1 = a_insert (length h) key PyNone T"
    "t1 = t\<lparr>t_count := t_count t + (if a_lookup T key = None then 1 else 0)\<rparr>"
    unfolding t_def by auto
  have l1: "a_lookup T1 key = Some PyNone" unfolding I1(2) by (simp add: a_lookup_a_insert)
  have "contains h1 t1 key" using tree_ok_contains[OF I1(1)] l1 by simp
  moreover have "getitem h1 t1 key = Inr PyNone" using tree_ok_getitem[OF I1(1)] l1 by simp
  moreover have "get h1 t1 key dflt = PyNone" using tree_ok_get[OF I1(1)] l1 by simp
  moreover have "len t1 = len (ts ! i) + (if contains h (ts ! i) key then 0 else 1)"
    using I1(3) tree_ok_contains[OF ok, of key] by (simp add: len_def t_def)
  moreover have "count h1 t1 = Some (len t1)" using tree_ok_count[OF I1(1)] .
  ultimately show ?thesis by blast
qed

text \<open>
  The theorem for \<open>insert "a" None\<close> into the empty tree, with a default other than \<open>None\<close>.
\<close>

theorem none_is_a_value_witness:
  "run [Call_new ''ab''] ([], [])
     = Some ([\<lparr>children = [], nvalue = Sentinel\<rparr>] :: (char, int pyobject) heap,
             [\<lparr>t_alphabet = ''ab'', t_root = 0, t_count = 0\<rparr>])
   \<and> insert_trie [\<lparr>children = [], nvalue = Sentinel\<rparr>]
        \<lparr>t_alphabet = ''ab'', t_root = 0, t_count = 0\<rparr> ''a'' (PyNone :: int pyobject)
       = ([\<lparr>children = [(CHR ''a'', 1)], nvalue = Sentinel\<rparr>, \<lparr>children = [], nvalue = Stored PyNone\<rparr>],
          \<lparr>t_alphabet = ''ab'', t_root = 0, t_count = 1\<rparr>)
   \<and> contains [\<lparr>children = [(CHR ''a'', 1)], nvalue = Sentinel\<rparr>,
                \<lparr>children = [], nvalue = Stored (PyNone :: int pyobject)\<rparr>]
        \<lparr>t_alphabet = ''ab'', t_root = 0, t_count = 1\<rparr> ''a''
   \<and> getitem [\<lparr>children = [(CHR ''a'', 1)], nvalue = Sentinel\<rparr>,
               \<lparr>children = [], nvalue = Stored (PyNone :: int pyobject)\<rparr>]
        \<lparr>t_alphabet = ''ab'', t_root = 0, t_count = 1\<rparr> ''a'' = Inr PyNone
   \<and> get [\<lparr>children = [(CHR ''a'', 1)], nvalue = Sentinel\<rparr>,
           \<lparr>children = [], nvalue = Stored (PyNone :: int pyobject)\<rparr>]
        \<lparr>t_alphabet = ''ab'', t_root = 0, t_count = 1\<rparr> ''a'' (PyObject 0) = PyNone
   \<and> len \<lparr>t_alphabet = ''ab'', t_root = 0, t_count = 1\<rparr> = 1"
proof -
  have r: "run [Call_new ''ab''] ([], [])
     = Some ([\<lparr>children = [], nvalue = Sentinel\<rparr>] :: (char, int pyobject) heap,
             [\<lparr>t_alphabet = ''ab'', t_root = 0, t_count = 0\<rparr>])"
    by code_simp
  have i1: "insert_trie [\<lparr>children = [], nvalue = Sentinel\<rparr>]
        \<lparr>t_alphabet = ''ab'', t_root = 0, t_count = 0\<rparr> ''a'' (PyNone :: int pyobject)
       = ([\<lparr>children = [(CHR ''a'', 1)], nvalue = Sentinel\<rparr>, \<lparr>children = [], nvalue = Stored PyNone\<rparr>],
          \<lparr>t_alphabet = ''ab'', t_root = 0, t_count = 1\<rparr>)"
    by code_simp
  show ?thesis
    using none_is_a_value[OF r, of 0 "''a''" _ _ "PyObject 0"] r i1 by (simp add: len_def)
qed

end
